(* ===== verification/Prelude.thy ===== *)
theory Prelude
  imports Main "HOL-Library.Word"
begin

text \<open>
  Shared by every component: runs of labelled machines and the one induction that lifts a
  step-wise invariant to runs (locale \<open>invariant_machine\<close>), list lemmas for slices used as
  stacks and queues, and the collections the component theories extend:
  \<^item> \<open>op_defs\<close>: the definitions of operations, unfolded by \<open>simp add: op_defs\<close>;
  \<^item> \<open>inv_defs\<close>: the definitions of invariants.
\<close>

named_theorems op_defs "definitions of the modelled operations"
named_theorems inv_defs "definitions of the component invariants"

section \<open>Runs of labelled machines\<close>

text \<open>
  A component with interleaving is a partial step function: a label says which thread moves
  and how every choice the source leaves open (a ready case of a select, a timer, what user
  code did) was resolved; \<open>None\<close> says that this label is not enabled.
\<close>

primrec runs :: "('l \<Rightarrow> 's \<Rightarrow> 's option) \<Rightarrow> 'l list \<Rightarrow> 's \<Rightarrow> 's option" where
  "runs stp [] s = Some s"
| "runs stp (l # ls) s = (case stp l s of None \<Rightarrow> None | Some t \<Rightarrow> runs stp ls t)"

lemma runs_append:
  "runs stp (ls @ ks) s = (case runs stp ls s of None \<Rightarrow> None | Some t \<Rightarrow> runs stp ks t)"
  by (induction ls arbitrary: s) (auto split: option.splits)

lemma runs_snoc: "runs stp ls s = Some t \<Longrightarrow> runs stp (ls @ [l]) s = stp l t"
  by (simp add: runs_append split: option.split)

lemma runs_snoc_SomeD:
  assumes "runs stp (ls @ [l]) s = Some u"
  obtains t where "runs stp ls s = Some t" "stp l t = Some u"
  using assms by (auto simp: runs_append split: option.splits)

text \<open>
  A predicate on the state a step leaves, if the step is enabled. With the case splits of the
  step functions applied to the goal (\<open>keeps P (if c then Some t else None)\<close>) the simplifier
  turns a preservation goal into one conditional goal per branch.
\<close>

definition keeps :: "('s \<Rightarrow> bool) \<Rightarrow> 's option \<Rightarrow> bool" where
  "keeps P r \<longleftrightarrow> (case r of None \<Rightarrow> True | Some t \<Rightarrow> P t)"

lemma keeps_simps [simp]:
  "keeps P None"
  "keeps P (Some t) = P t"
  "keeps P (map_option f r) = (\<forall>x. r = Some x \<longrightarrow> P (f x))"
  by (auto simp: keeps_def split: option.splits)

lemma keepsD: "keeps P r \<Longrightarrow> r = Some t \<Longrightarrow> P t"
  by simp

lemma keeps_conj: "keeps P r \<Longrightarrow> keeps Q r \<Longrightarrow> keeps (\<lambda>t. P t \<and> Q t) r"
  by (cases r) auto

text \<open>
  The contract between a machine and a predicate on its states: no step with an admitted label
  leaves the predicate (the labels not admitted are those of environments a property excludes).
  Each component discharges it once, by an interpretation on its own step function, and reads
  off the facts about whole runs.
\<close>

locale invariant_machine =
  fixes stp :: "'l \<Rightarrow> 's \<Rightarrow> 's option"
    and admitted :: "'l \<Rightarrow> bool"
    and holds :: "'s \<Rightarrow> bool"
  assumes step_keeps: "admitted l \<Longrightarrow> holds s \<Longrightarrow> keeps holds (stp l s)"
begin

lemma runs_keeps: "holds s \<Longrightarrow> list_all admitted ls \<Longrightarrow> runs stp ls s = Some t \<Longrightarrow> holds t"
  by (induction ls arbitrary: s) (auto split: option.splits dest: step_keeps [THEN keepsD])

end

section \<open>Histories of calls\<close>

text \<open>
  A component whose operations are atomic (they run under a mutex) serves a sequence of calls,
  each with an answer.
\<close>

fun history :: "('c \<Rightarrow> 's \<Rightarrow> 'a \<times> 's) \<Rightarrow> 'c list \<Rightarrow> 's \<Rightarrow> 'a list \<times> 's" where
  "history act [] s = ([], s)"
| "history act (c # cs) s = (case act c s of (a, s') \<Rightarrow> apfst (Cons a) (history act cs s'))"

lemma history_append:
  "history act (cs @ ds) s =
     (case history act cs s of (as, t) \<Rightarrow> apfst ((@) as) (history act ds t))"
  by (induction cs arbitrary: s) (simp_all add: case_prod_beta apfst_def map_prod_def)

text \<open>
  The contract between an implementation and a specification with the same calls: a relation on
  their states under which each call gets the same answer and the relation holds again.
\<close>

locale call_refinement =
  fixes impl :: "'c \<Rightarrow> 's \<Rightarrow> 'a \<times> 's"
    and spec :: "'c \<Rightarrow> 't \<Rightarrow> 'a \<times> 't"
    and sim :: "'s \<Rightarrow> 't \<Rightarrow> bool"
  assumes call_simulates:
    "sim s t \<Longrightarrow> fst (impl c s) = fst (spec c t) \<and> sim (snd (impl c s)) (snd (spec c t))"
begin

lemma history_simulates:
  "sim s t \<Longrightarrow> fst (history impl cs s) = fst (history spec cs t) \<and>
     sim (snd (history impl cs s)) (snd (history spec cs t))"
proof (induction cs arbitrary: s t)
  case (Cons c cs)
  from call_simulates [OF Cons.prems, of c] Cons.IH [of "snd (impl c s)" "snd (spec c t)"]
  show ?case by (simp add: case_prod_beta)
qed simp

lemma same_answers: "sim s t \<Longrightarrow> fst (history impl cs s) = fst (history spec cs t)"
  using history_simulates by blast

end

text \<open>
  Read as a machine whose steps are the calls, such an implementation never leaves the states
  that stand for one of the specification.
\<close>

sublocale call_refinement \<subseteq> served: invariant_machine "\<lambda>c s. Some (snd (impl c s))" "\<lambda>_. True" "\<lambda>s. \<exists>t. sim s t"
  by unfold_locales (auto dest: call_simulates)

lemma runs_calls_history: "runs (\<lambda>c s. Some (snd (act c s))) cs s = Some (snd (history act cs s))"
  by (induction cs arbitrary: s) (simp_all add: case_prod_beta)

context call_refinement
begin

lemma history_related: "sim s t \<Longrightarrow> \<exists>t'. sim (snd (history impl cs s)) t'"
  using served.runs_keeps [OF _ _ runs_calls_history] by (auto simp: list_all_iff)

end

section \<open>Lists\<close>

lemma snoc_nth_last [simp]: "(xs @ [x]) ! (length (xs @ [x]) - 1) = x"
  by simp

lemma list_update_snoc_last [simp]: "(xs @ [x])[length xs := y] = xs @ [y]"
  by (induction xs) auto

lemma take_length_minus_1: "take (length xs - 1) xs = butlast xs"
  by (simp add: butlast_conv_take)

lemma list_update_last:
  "xs \<noteq> [] \<Longrightarrow> xs[length xs - 1 := y] = butlast xs @ [y]"
  by (induction xs rule: rev_induct) auto

lemma nonempty_snocE:
  assumes "xs \<noteq> []"
  obtains ys y where "xs = ys @ [y]"
  using assms by (cases xs rule: rev_cases) auto

section \<open>64-bit integers\<close>

lemma sint_of_int64:
  "- (2 ^ 63) \<le> k \<Longrightarrow> k < 2 ^ 63 \<Longrightarrow> sint (word_of_int k :: 64 word) = k"
  by (simp add: sint_sbintrunc' signed_take_bit_int_eq_self)

lemma div_between:
  fixes s n lo hi :: int
  assumes "0 < n" "n * lo \<le> s" "s \<le> n * hi"
  shows "lo \<le> s div n \<and> s div n \<le> hi"
proof
  show "lo \<le> s div n"
    using zdiv_mono1 [OF assms(2,1)] assms(1) by simp
  show "s div n \<le> hi"
    using zdiv_mono1 [OF assms(3,1)] assms(1) by simp
qed

end
