(* ===== verification/Go_Runtime.thy ===== *)
theory Go_Runtime
  imports Prelude
begin

text \<open>
  What the components use of the Go language and its standard library: error values (with
  the sentinel errors of every package), \<open>errors.Is\<close> and \<open>errors.Join\<close>, panics and
  recovery as values, and channels with their close and panic rules.
\<close>

section \<open>Errors\<close>

text \<open>The sentinel errors of the packages, one datatype for each \<open>errors.go\<close>.\<close>

datatype actor_err =
    ErrActorPanic
  | ErrActorNilProvider
  | ErrActorNilEntity
  | ErrActorGracefulStopTimeout
  | ErrActorReceiveTimeout
  | ErrActorContextCanceled
  | ErrActorContextDeadlineExceeded
  | ErrActorReceiveNil
  | ErrActorNotStarted
  | ErrActorReceiveOnStopped

datatype command_err = ErrCommandContextCancelled | ErrCommandPanic

datatype ask_err = ErrAskTimeout

datatype ref_err = ErrActorRefNilActor

datatype system_err =
    ErrSystemStopped
  | ErrActorNameEmpty
  | ErrActorNameDuplicate
  | ErrActorNilRef
  | ErrActorNotFound
  | ErrCommandTypeMismatch

datatype sup_err =
    ErrChildNotFound
  | ErrChildNameDuplicate
  | ErrChildNameEmpty
  | ErrNilChildSpec
  | ErrSupervisorStopped

text \<open>The run-time errors the language raises as panics in code modelled here.\<close>

datatype runtime_err =
    CloseOfClosedChannel
  | SendOnClosedChannel
  | IndexOutOfRange
  | SliceBoundsOutOfRange
  | MakeSizeOutOfRange
  | IntegerDivideByZero

text \<open>
  A non-nil \<open>error\<close>. \<open>CtxCanceled\<close> and \<open>CtxDeadlineExceeded\<close> are the two errors of the
  \<open>context\<close> package; \<open>StateMismatch e g\<close> is \<open>fmt.Errorf\<close> of "actor state mismatch: expected e,
  got g" (it wraps nothing); \<open>UserError n\<close> is an error value of user code that wraps nothing,
  \<open>Wrapped n e\<close> one whose \<open>Unwrap\<close> gives \<open>e\<close>; \<open>PanicText n\<close> is \<open>fmt.Errorf\<close> of a panic
  value that is no error; \<open>Joined es\<close> is what \<open>errors.Join\<close> builds. A value of type \<open>error\<close>
  is a \<open>gerror option\<close>, \<open>None\<close> being nil.
\<close>

datatype gerror =
    CtxCanceled
  | CtxDeadlineExceeded
  | ActorErr actor_err
  | CommandErr command_err
  | AskErr ask_err
  | RefErr ref_err
  | SystemErr system_err
  | SupErr sup_err
  | RuntimeErr runtime_err
  | StateMismatch "64 word" "64 word"
  | PanicText nat
  | UserError nat
  | Wrapped nat gerror
  | Joined "gerror list"

text \<open>\<open>errors.Is\<close>: the error itself, or anything it unwraps to.\<close>

fun errors_is :: "gerror \<Rightarrow> gerror \<Rightarrow> bool" where
  "errors_is (Wrapped n e) t \<longleftrightarrow> Wrapped n e = t \<or> errors_is e t"
| "errors_is (Joined es) t \<longleftrightarrow> Joined es = t \<or> list_ex (\<lambda>e. errors_is e t) es"
| "errors_is e t \<longleftrightarrow> e = t"

text \<open>\<open>errors.Join\<close> drops the nil errors and is nil when none is left.\<close>

fun non_nil :: "gerror option list \<Rightarrow> gerror list" where
  "non_nil [] = []"
| "non_nil (None # es) = non_nil es"
| "non_nil (Some e # es) = e # non_nil es"

definition errors_join :: "gerror option list \<Rightarrow> gerror option" where
  "errors_join es = (if non_nil es = [] then None else Some (Joined (non_nil es)))"

lemma set_non_nil: "set (non_nil es) = {e. Some e \<in> set es}"
  by (induction es rule: non_nil.induct) auto

lemma non_nil_map_Some [simp]: "non_nil (map Some es) = es"
  by (induction es) auto

lemma non_nil_append [simp]: "non_nil (es @ fs) = non_nil es @ non_nil fs"
  by (induction es rule: non_nil.induct) auto

lemma errors_join_None_iff: "errors_join es = None \<longleftrightarrow> (\<forall>e \<in> set es. e = None)"
  by (induction es rule: non_nil.induct) (auto simp: errors_join_def)

lemma errors_is_refl [simp]: "errors_is e e"
  by (cases e) auto

lemma errors_join_is: "errors_join es = Some j \<Longrightarrow> Some e \<in> set es \<Longrightarrow> errors_is j e"
  by (auto simp: errors_join_def list_ex_iff set_non_nil split: if_splits)
    (use errors_is_refl in blast)

section \<open>Panics\<close>

text \<open>A panic value: an \<open>error\<close> or anything else.\<close>

datatype gopanic = PanicError gerror | PanicValue nat

text \<open>
  What a call did: it returned, or it panicked; the state it left behind in both cases.
\<close>

datatype 'w outcome = Finishes 'w | Panics gopanic 'w

fun final_state :: "'w outcome \<Rightarrow> 'w" where
  "final_state (Finishes w) = w"
| "final_state (Panics p w) = w"

fun panicked :: "'w outcome \<Rightarrow> bool" where
  "panicked (Finishes w) = False"
| "panicked (Panics p w) = True"

text \<open>\<open>defer\<close> with \<open>recover\<close>: a handler that runs when the call panicked.\<close>

fun recovering :: "'w outcome \<Rightarrow> (gopanic \<Rightarrow> 'w \<Rightarrow> 'w outcome) \<Rightarrow> 'w outcome" where
  "recovering (Finishes w) h = Finishes w"
| "recovering (Panics p w) h = h p w"

lemma panicked_iff: "panicked c \<longleftrightarrow> (\<exists>p w. c = Panics p w)"
  by (cases c) auto

section \<open>Channels\<close>

text \<open>A buffered channel: its buffer (the oldest value first), capacity and closed flag.\<close>

record 'a chan =
  cbuf :: "'a list"
  ccap :: nat
  cclosed :: bool

definition make_chan :: "nat \<Rightarrow> 'a chan" where
  "make_chan n = \<lparr>cbuf = [], ccap = n, cclosed = False\<rparr>"

datatype 'a send_result = Sent "'a chan" | SendBlocks | SendPanics

definition chan_send :: "'a \<Rightarrow> 'a chan \<Rightarrow> 'a send_result" where
  "chan_send x c =
     (if cclosed c then SendPanics
      else if length (cbuf c) < ccap c then Sent (c\<lparr>cbuf := cbuf c @ [x]\<rparr>)
      else SendBlocks)"

datatype 'a recv_result = Received 'a "'a chan" | RecvClosed | RecvBlocks

definition chan_recv :: "'a chan \<Rightarrow> 'a recv_result" where
  "chan_recv c =
     (case cbuf c of
        x # xs \<Rightarrow> Received x (c\<lparr>cbuf := xs\<rparr>)
      | [] \<Rightarrow> if cclosed c then RecvClosed else RecvBlocks)"

text \<open>\<open>close\<close> panics on a closed channel: \<open>None\<close>.\<close>

definition chan_close :: "'a chan \<Rightarrow> 'a chan option" where
  "chan_close c = (if cclosed c then None else Some (c\<lparr>cclosed := True\<rparr>))"

text \<open>\<open>select { case c <- x: default: }\<close>: send if there is room, else go on.\<close>

definition chan_try_send :: "'a \<Rightarrow> 'a chan \<Rightarrow> 'a chan" where
  "chan_try_send x c = (case chan_send x c of Sent c' \<Rightarrow> c' | _ \<Rightarrow> c)"

lemmas chan_defs = make_chan_def chan_send_def chan_recv_def chan_close_def chan_try_send_def

declare chan_defs [op_defs]

lemma make_chan_fields [simp]:
  "cbuf (make_chan n) = []" "ccap (make_chan n) = n" "cclosed (make_chan n) = False"
  by (simp_all add: make_chan_def)

definition chan_wf :: "'a chan \<Rightarrow> bool" where
  "chan_wf c \<longleftrightarrow> length (cbuf c) \<le> ccap c"

lemma chan_wf_make [simp]: "chan_wf (make_chan n)"
  by (simp add: chan_wf_def make_chan_def)

lemma chan_wf_send: "chan_wf c \<Longrightarrow> chan_send x c = Sent d \<Longrightarrow> chan_wf d"
  by (auto simp: chan_wf_def chan_send_def split: if_splits)

lemma chan_wf_recv: "chan_wf c \<Longrightarrow> chan_recv c = Received x d \<Longrightarrow> chan_wf d"
  by (auto simp: chan_wf_def chan_recv_def split: list.splits if_splits)

end
