(* ===== verification/Command.thy ===== *)
theory Command
  imports Go_Runtime
begin

text \<open>
  \<open>pkg/command/gocommand.go\<close>: a command runs a delegate on the actor's entity and hands the
  result over through a channel of capacity 1, with a state and an error other goroutines
  read. \<open>Execute\<close> is modelled twice: as one call, and as the sequence of atomic actions other
  goroutines can observe (\<open>exec_step\<close>); \<open>Command_Agree\<close> shows that the two agree.
\<close>

section \<open>State and constructor\<close>

datatype cmd_state = CmdCreated | CmdStarted | CmdFinished | CmdFailed | CmdCanceled | CmdPanic

fun cmd_code :: "cmd_state \<Rightarrow> int" where
  "cmd_code CmdCreated = 0"
| "cmd_code CmdStarted = 1"
| "cmd_code CmdFinished = 2"
| "cmd_code CmdFailed = 3"
| "cmd_code CmdCanceled = 4"
| "cmd_code CmdPanic = 5"

definition cmd_terminal :: "cmd_state \<Rightarrow> bool" where
  "cmd_terminal s \<longleftrightarrow> s \<notin> {CmdCreated, CmdStarted}"

text \<open>
  A delegate is user code that may change the entity: it returns a value and an error, or it
  panics.
\<close>

datatype 'r delegate_result = Returns 'r "gerror option" | DelegatePanics gopanic

type_synonym ('e, 'r) delegate_fn = "'e \<Rightarrow> 'r delegate_result \<times> 'e"

record ('e, 'r) gocommand =
  gc_state :: cmd_state
  gc_done :: "'r chan"
  gc_err :: "gerror option"
  delegateFn :: "('e, 'r) delegate_fn"

definition New_command :: "('e, 'r) delegate_fn \<Rightarrow> ('e, 'r) gocommand" where
  "New_command fn = \<lparr>gc_state = CmdCreated, gc_done = make_chan 1, gc_err = None, delegateFn = fn\<rparr>"

definition syncState ::
  "cmd_state \<Rightarrow> gerror option \<Rightarrow> ('e, 'r) gocommand \<Rightarrow> ('e, 'r) gocommand" where
  "syncState s err gc = gc\<lparr>gc_err := err, gc_state := s\<rparr>"

definition Done_chan :: "('e, 'r) gocommand \<Rightarrow> 'r chan" where
  "Done_chan gc = gc_done gc"

definition Error_of :: "('e, 'r) gocommand \<Rightarrow> gerror option" where
  "Error_of gc = gc_err gc"

definition State_of :: "('e, 'r) gocommand \<Rightarrow> cmd_state" where
  "State_of gc = gc_state gc"

text \<open>\<open>close(gc.done)\<close>.\<close>

definition close_done :: "('e, 'r) gocommand \<Rightarrow> ('e, 'r) gocommand option" where
  "close_done gc = map_option (\<lambda>d. gc\<lparr>gc_done := d\<rparr>) (chan_close (gc_done gc))"

declare New_command_def [op_defs] syncState_def [op_defs] close_done_def [op_defs]
  Done_chan_def [op_defs] Error_of_def [op_defs] State_of_def [op_defs]

definition close_closed :: gopanic where
  "close_closed = PanicError (RuntimeErr CloseOfClosedChannel)"

definition canceled_error :: "gerror \<Rightarrow> gerror option" where
  "canceled_error ce = errors_join [Some (CommandErr ErrCommandContextCancelled), Some ce]"

lemma close_done_simps [simp]:
  "cclosed (gc_done gc) \<Longrightarrow> close_done gc = None"
  "\<not> cclosed (gc_done gc) \<Longrightarrow> close_done gc = Some (gc\<lparr>gc_done := gc_done gc\<lparr>cclosed := True\<rparr>\<rparr>)"
  by (simp_all add: close_done_def chan_close_def)

lemma syncState_fields [simp]:
  "gc_done (syncState s err gc) = gc_done gc"
  "gc_err (syncState s err gc) = err"
  "gc_state (syncState s err gc) = s"
  "delegateFn (syncState s err gc) = delegateFn gc"
  by (simp_all add: syncState_def)

lemma canceled_error_Some [simp]: "canceled_error ce = Some (Joined [CommandErr ErrCommandContextCancelled, ce])"
  by (simp add: canceled_error_def errors_join_def)

section \<open>Execute as one call\<close>

text \<open>
  It returns, a panic escapes it, or it blocks for ever on the send of the result. \<open>cerr\<close> is
  the error of the context when Execute looks at it, \<open>None\<close> if the context is not done.
\<close>

datatype ('e, 'r) exec_outcome =
    ExecReturns "('e, 'r) gocommand" 'e
  | ExecPanics gopanic "('e, 'r) gocommand" 'e
  | ExecBlocks 'r "('e, 'r) gocommand" 'e

text \<open>The deferred function, run when the inner function panics.\<close>

definition execute_recover :: "('e, 'r) gocommand \<Rightarrow> 'e \<Rightarrow> ('e, 'r) exec_outcome" where
  "execute_recover gc ent =
     (let gc1 = syncState CmdPanic (Some (CommandErr ErrCommandPanic)) gc
      in case close_done gc1 of
           None \<Rightarrow> ExecPanics close_closed gc1 ent
         | Some gc2 \<Rightarrow> ExecReturns gc2 ent)"

text \<open>\<open>close(gc.done)\<close> at the end of the inner function, with the deferred function around.\<close>

definition close_in_body :: "('e, 'r) gocommand \<Rightarrow> 'e \<Rightarrow> ('e, 'r) exec_outcome" where
  "close_in_body gc ent =
     (case close_done gc of None \<Rightarrow> execute_recover gc ent | Some gc1 \<Rightarrow> ExecReturns gc1 ent)"

definition execute_body :: "('e, 'r) gocommand \<Rightarrow> 'e \<Rightarrow> ('e, 'r) exec_outcome" where
  "execute_body gc ent =
     (case delegateFn gc ent of
        (DelegatePanics p, ent') \<Rightarrow> execute_recover gc ent'
      | (Returns val (Some err), ent') \<Rightarrow> close_in_body (syncState CmdFailed (Some err) gc) ent'
      | (Returns val None, ent') \<Rightarrow>
          (case chan_send val (gc_done gc) of
             SendPanics \<Rightarrow> execute_recover gc ent'
           | SendBlocks \<Rightarrow> ExecBlocks val gc ent'
           | Sent d \<Rightarrow> close_in_body (syncState CmdFinished None (gc\<lparr>gc_done := d\<rparr>)) ent'))"

definition Execute :: "gerror option \<Rightarrow> ('e, 'r) gocommand \<Rightarrow> 'e \<Rightarrow> ('e, 'r) exec_outcome" where
  "Execute cerr gc ent =
     (let gc1 = syncState CmdStarted None gc
      in case cerr of
           Some ce \<Rightarrow>
             (let gc2 = syncState CmdCanceled (canceled_error ce) gc1
              in case close_done gc2 of
                   None \<Rightarrow> ExecPanics close_closed gc2 ent
                 | Some gc3 \<Rightarrow> ExecReturns gc3 ent)
         | None \<Rightarrow> execute_body gc1 ent)"

lemmas execute_defs = Execute_def execute_body_def close_in_body_def execute_recover_def Let_def

section \<open>Execute as atomic actions\<close>

text \<open>
  Where the executing goroutine is: each constructor names its next action. \<open>XReturned\<close> and
  \<open>XPanicked\<close> are final.
\<close>

datatype 'r exec_pc =
    XStart
  | XCheck
  | XCancel gerror
  | XCloseCancel
  | XDelegate
  | XFail gerror
  | XSend 'r
  | XFinish
  | XClose
  | XRecover
  | XCloseRecover
  | XReturned
  | XPanicked gopanic

type_synonym ('e, 'r) exec_conf = "'r exec_pc \<times> ('e, 'r) gocommand \<times> 'e"

text \<open>The label is the error of the context at the time of the step; only \<open>XCheck\<close> reads it.\<close>

fun exec_step :: "gerror option \<Rightarrow> ('e, 'r) exec_conf \<Rightarrow> ('e, 'r) exec_conf option" where
  "exec_step cerr (XStart, gc, ent) = Some (XCheck, syncState CmdStarted None gc, ent)"
| "exec_step cerr (XCheck, gc, ent) =
     (case cerr of Some ce \<Rightarrow> Some (XCancel ce, gc, ent) | None \<Rightarrow> Some (XDelegate, gc, ent))"
| "exec_step cerr (XCancel ce, gc, ent) =
     Some (XCloseCancel, syncState CmdCanceled (canceled_error ce) gc, ent)"
| "exec_step cerr (XCloseCancel, gc, ent) =
     (case close_done gc of
        None \<Rightarrow> Some (XPanicked close_closed, gc, ent)
      | Some gc' \<Rightarrow> Some (XReturned, gc', ent))"
| "exec_step cerr (XDelegate, gc, ent) =
     (case delegateFn gc ent of
        (DelegatePanics p, ent') \<Rightarrow> Some (XRecover, gc, ent')
      | (Returns val (Some err), ent') \<Rightarrow> Some (XFail err, gc, ent')
      | (Returns val None, ent') \<Rightarrow> Some (XSend val, gc, ent'))"
| "exec_step cerr (XFail err, gc, ent) = Some (XClose, syncState CmdFailed (Some err) gc, ent)"
| "exec_step cerr (XSend val, gc, ent) =
     (case chan_send val (gc_done gc) of
        Sent d \<Rightarrow> Some (XFinish, gc\<lparr>gc_done := d\<rparr>, ent)
      | SendBlocks \<Rightarrow> None
      | SendPanics \<Rightarrow> Some (XRecover, gc, ent))"
| "exec_step cerr (XFinish, gc, ent) = Some (XClose, syncState CmdFinished None gc, ent)"
| "exec_step cerr (XClose, gc, ent) =
     (case close_done gc of
        None \<Rightarrow> Some (XRecover, gc, ent)
      | Some gc' \<Rightarrow> Some (XReturned, gc', ent))"
| "exec_step cerr (XRecover, gc, ent) =
     Some (XCloseRecover, syncState CmdPanic (Some (CommandErr ErrCommandPanic)) gc, ent)"
| "exec_step cerr (XCloseRecover, gc, ent) =
     (case close_done gc of
        None \<Rightarrow> Some (XPanicked close_closed, gc, ent)
      | Some gc' \<Rightarrow> Some (XReturned, gc', ent))"
| "exec_step cerr (XReturned, gc, ent) = None"
| "exec_step cerr (XPanicked p, gc, ent) = None"

section \<open>Sequential facts\<close>

lemma New_command_fields [simp]:
  "gc_done (New_command fn) = make_chan 1"
  "gc_err (New_command fn) = None"
  "gc_state (New_command fn) = CmdCreated"
  "delegateFn (New_command fn) = fn"
  by (simp_all add: New_command_def)

text \<open>A command that some Execute has run to its end: closed, in a terminal state.\<close>

definition executed :: "('e, 'r) gocommand \<Rightarrow> bool" where
  "executed gc \<longleftrightarrow> cclosed (gc_done gc) \<and> cmd_terminal (gc_state gc)"

section \<open>Properties\<close>

text \<open>
  C25: The first Execute of a command always returns, with the channel closed, whatever the
  delegate does: cancelled before it ran (the delegate is not called, nothing is sent, the
  error joins the context's); panicked (ErrCommandPanic, nothing sent); failed (the
  delegate's error, nothing sent); finished (exactly the value sent, no error).
\<close>

theorem first_execute_outcome:
  "\<exists>gc' ent'. Execute cerr (New_command fn) ent = ExecReturns gc' ent' \<and>
     cclosed (Done_chan gc') \<and>
     (case cerr of
        Some ce \<Rightarrow> State_of gc' = CmdCanceled \<and> ent' = ent \<and> cbuf (Done_chan gc') = [] \<and>
          Error_of gc' = Some (Joined [CommandErr ErrCommandContextCancelled, ce])
      | None \<Rightarrow> ent' = snd (fn ent) \<and>
          (case fst (fn ent) of
             DelegatePanics p \<Rightarrow> State_of gc' = CmdPanic \<and> cbuf (Done_chan gc') = [] \<and>
               Error_of gc' = Some (CommandErr ErrCommandPanic)
           | Returns v (Some e) \<Rightarrow> State_of gc' = CmdFailed \<and> cbuf (Done_chan gc') = [] \<and>
               Error_of gc' = Some e
           | Returns v None \<Rightarrow> State_of gc' = CmdFinished \<and> cbuf (Done_chan gc') = [v] \<and>
               Error_of gc' = None))"
proof (cases cerr)
  case (Some ce)
  then show ?thesis
    by (simp add: Execute_def op_defs canceled_error_def errors_join_def)
next
  case None
  obtain res ent' where "fn ent = (res, ent')" by fastforce
  with None show ?thesis
    by (cases res; cases "case res of Returns v e \<Rightarrow> e | _ \<Rightarrow> None")
      (auto simp: execute_defs op_defs split: option.splits)
qed

text \<open>
  A command executed a second time never completes: a panic (close of a closed channel)
  always escapes Execute, the state has moved from a terminal state back through Started to
  Panic or Canceled, and a result not yet read stays in the channel beside that error.
\<close>

theorem second_execute_panics:
  assumes "executed gc"
  shows "\<exists>gc' ent'. Execute cerr gc ent = ExecPanics close_closed gc' ent' \<and>
    State_of gc' = (if cerr = None then CmdPanic else CmdCanceled) \<and>
    Error_of gc' \<noteq> None \<and> Done_chan gc' = Done_chan gc"
proof -
  have c: "cclosed (gc_done gc)" using assms by (simp add: executed_def)
  obtain res ent' where "delegateFn gc ent = (res, ent')" by fastforce
  with c show ?thesis
    by (cases cerr; cases res)
      (auto simp: execute_defs Done_chan_def State_of_def Error_of_def chan_send_def
        canceled_error_def errors_join_def split: option.splits)
qed

theorem second_execute_panics_witness:
  "\<exists>gc' ent'. Execute None
     \<lparr>gc_state = CmdFinished, gc_done = \<lparr>cbuf = [1], ccap = 1, cclosed = True\<rparr>, gc_err = None,
      delegateFn = (\<lambda>n::nat. (Returns n None, Suc n))\<rparr> 0 = ExecPanics close_closed gc' ent' \<and>
     State_of gc' = CmdPanic"
  using second_execute_panics [of "\<lparr>gc_state = CmdFinished,
      gc_done = \<lparr>cbuf = [1], ccap = 1, cclosed = True\<rparr>, gc_err = None,
      delegateFn = (\<lambda>n::nat. (Returns n None, Suc n))\<rparr>" None 0]
  by (auto simp: executed_def cmd_terminal_def)

end
