(* ===== verification/Command_Agree.thy ===== *)
theory Command_Agree
  imports Command
begin

text \<open>
  The two models of \<open>Execute\<close> in \<open>Command\<close>, as one call and as atomic actions, agree when nobody else touches
  the command while it runs; \<open>Command_Readers\<close> is about the actions when others do.
\<close>

fun conf_of :: "('e, 'r) exec_outcome \<Rightarrow> ('e, 'r) exec_conf" where
  "conf_of (ExecReturns gc ent) = (XReturned, gc, ent)"
| "conf_of (ExecPanics p gc ent) = (XPanicked p, gc, ent)"
| "conf_of (ExecBlocks val gc ent) = (XSend val, gc, ent)"

text \<open>
  Running the actions under one context error until none is enabled, with fuel: eight actions
  are the longest path (start, check, delegate, send, finish, close, recover, close).
\<close>

fun exec_run :: "nat \<Rightarrow> gerror option \<Rightarrow> ('e, 'r) exec_conf \<Rightarrow> ('e, 'r) exec_conf" where
  "exec_run 0 cerr c = c"
| "exec_run (Suc n) cerr c =
     (case exec_step cerr c of None \<Rightarrow> c | Some d \<Rightarrow> exec_run n cerr d)"

lemma exec_run_runs:
  "\<exists>k \<le> n. runs exec_step (replicate k cerr) c = Some (exec_run n cerr c)"
proof (induction n arbitrary: c)
  case 0
  show ?case by simp
next
  case (Suc n)
  show ?case
  proof (cases "exec_step cerr c")
    case None
    then show ?thesis by (intro exI [of _ 0]) simp
  next
    case (Some d)
    from Suc.IH [of d] obtain k
      where "k \<le> n" "runs exec_step (replicate k cerr) d = Some (exec_run n cerr d)" by blast
    with Some show ?thesis by (intro exI [of _ "Suc k"]) simp
  qed
qed

lemma exec_run_step: "exec_step cerr c = Some d \<Longrightarrow> exec_run (Suc n) cerr c = exec_run n cerr d"
  by simp

lemma exec_run_stuck: "exec_step cerr c = None \<Longrightarrow> exec_run n cerr c = c"
  by (cases n) simp_all

lemma exec_run_recover:
  "exec_run (Suc (Suc n)) cerr (XRecover, gc, ent) = conf_of (execute_recover gc ent)"
  by (cases n) (auto simp: execute_recover_def Let_def split: option.splits)

lemma exec_run_close:
  "exec_run (Suc (Suc (Suc n))) cerr (XClose, gc, ent) = conf_of (close_in_body gc ent)"
proof (cases "close_done gc")
  case None
  then have "exec_run (Suc (Suc (Suc n))) cerr (XClose, gc, ent)
      = exec_run (Suc (Suc n)) cerr (XRecover, gc, ent)" by (intro exec_run_step) simp
  with None show ?thesis by (simp only: exec_run_recover close_in_body_def option.case)
next
  case (Some gc')
  then show ?thesis by (simp add: close_in_body_def)
qed

declare exec_run.simps(2) [simp del]

lemma exec_run_send:
  "exec_run (Suc (Suc (Suc (Suc (Suc n))))) cerr (XSend val, gc, ent) =
     conf_of (case chan_send val (gc_done gc) of
        SendPanics \<Rightarrow> execute_recover gc ent
      | SendBlocks \<Rightarrow> ExecBlocks val gc ent
      | Sent d \<Rightarrow> close_in_body (syncState CmdFinished None (gc\<lparr>gc_done := d\<rparr>)) ent)"
  by (cases "chan_send val (gc_done gc)")
    (simp_all add: exec_run_step exec_run_stuck exec_run_recover exec_run_close)

lemma exec_run_body:
  "exec_run (Suc (Suc (Suc (Suc (Suc (Suc n)))))) cerr (XDelegate, gc, ent)
     = conf_of (execute_body gc ent)"
proof (cases "delegateFn gc ent")
  case (Pair res ent')
  then show ?thesis
    by (cases res; cases "case res of Returns v e \<Rightarrow> e | _ \<Rightarrow> None")
      (simp_all add: execute_body_def exec_run_step exec_run_recover exec_run_close exec_run_send)
qed

lemma exec_run_Execute:
  "exec_run 8 cerr (XStart, gc, ent) = conf_of (Execute cerr gc ent)"
proof (cases cerr)
  case None
  have "exec_run 8 cerr (XStart, gc, ent)
      = exec_run (Suc (Suc (Suc (Suc (Suc (Suc 0)))))) cerr (XDelegate, syncState CmdStarted None gc, ent)"
    using None by (simp add: eval_nat_numeral exec_run_step)
  then show ?thesis using None by (simp only: exec_run_body Execute_def Let_def option.case)
next
  case (Some ce)
  then show ?thesis
    by (cases "cclosed (gc_done gc)")
      (simp_all add: eval_nat_numeral exec_run.simps(2) Execute_def Let_def)
qed

text \<open>
  The atomic actions of Execute, run to the end, do what the one call does: same command,
  same entity, same way out; and at most eight of them are needed.
\<close>

theorem execute_actions_agree:
  "exec_run 8 cerr (XStart, gc, ent) = conf_of (Execute cerr gc ent) \<and>
   (\<exists>k \<le> 8. runs exec_step (replicate k cerr) (XStart, gc, ent) = Some (conf_of (Execute cerr gc ent)))"
  using exec_run_runs [of 8 cerr "(XStart, gc, ent)"] by (simp add: exec_run_Execute)

end
