(* ===== verification/Command_Readers.thy ===== *)
theory Command_Readers
  imports Command
begin

text \<open>
  A command that runs on the goroutine of its actor while others hold it too
  (\<open>pkg/command/gocommand.go\<close>): they receive from the channel of \<open>Done\<close>, between any two actions of
  \<open>Execute\<close>, and read \<open>State\<close> and \<open>Error\<close>, which changes nothing. \<open>exec_step\<close> has the actions.
\<close>

section \<open>The machine\<close>

text \<open>
  \<open>found\<close> records what Execute found when it looked at the context, \<open>received\<close> the values the
  readers took from the channel, in order.
\<close>

record ('e, 'r) shared_cmd =
  running :: "('e, 'r) exec_conf"
  found :: "gerror option option"
  received :: "'r list"

datatype reader_label = Acts "gerror option" | Receives

definition acts :: "gerror option \<Rightarrow> ('e, 'r) shared_cmd \<Rightarrow> ('e, 'r) shared_cmd option" where
  "acts cerr s =
     map_option (\<lambda>c. s\<lparr>running := c, found := (if fst (running s) = XCheck then Some cerr else found s)\<rparr>)
       (exec_step cerr (running s))"

text \<open>\<open><-cmd.Done()\<close>.\<close>

definition receives :: "('e, 'r) shared_cmd \<Rightarrow> ('e, 'r) shared_cmd option" where
  "receives s =
     (case running s of (pc, gc, en) \<Rightarrow>
        (case chan_recv (Done_chan gc) of
           Received v d \<Rightarrow> Some (s\<lparr>running := (pc, gc\<lparr>gc_done := d\<rparr>, en), received := received s @ [v]\<rparr>)
         | RecvClosed \<Rightarrow> Some s
         | RecvBlocks \<Rightarrow> None))"

fun shared_step :: "reader_label \<Rightarrow> ('e, 'r) shared_cmd \<Rightarrow> ('e, 'r) shared_cmd option" where
  "shared_step (Acts cerr) s = acts cerr s"
| "shared_step Receives s = receives s"

definition shared_new :: "('e, 'r) delegate_fn \<Rightarrow> 'e \<Rightarrow> ('e, 'r) shared_cmd" where
  "shared_new fn ent = \<lparr>running = (XStart, New_command fn, ent), found = None, received = []\<rparr>"

abbreviation the_cmd :: "('e, 'r) shared_cmd \<Rightarrow> ('e, 'r) gocommand" where
  "the_cmd s \<equiv> fst (snd (running s))"

text \<open>What went through the channel so far.\<close>

definition sent :: "('e, 'r) shared_cmd \<Rightarrow> 'r list" where
  "sent s = received s @ cbuf (Done_chan (the_cmd s))"

section \<open>The outcome\<close>

text \<open>State, error, values sent and entity of an executed command, from its context and its delegate.\<close>

fun outcome_of ::
  "gerror option \<Rightarrow> 'r delegate_result \<times> 'e \<Rightarrow> 'e \<Rightarrow> cmd_state \<times> gerror option \<times> 'r list \<times> 'e" where
  "outcome_of (Some ce) r ent = (CmdCanceled, Some (Joined [CommandErr ErrCommandContextCancelled, ce]), [], ent)"
| "outcome_of None (DelegatePanics p, en) ent = (CmdPanic, Some (CommandErr ErrCommandPanic), [], en)"
| "outcome_of None (Returns v (Some e), en) ent = (CmdFailed, Some e, [], en)"
| "outcome_of None (Returns v None, en) ent = (CmdFinished, None, [v], en)"

lemma outcome_terminal: "cmd_terminal (fst (outcome_of cx r ent))"
  by (cases "(cx, r, ent)" rule: outcome_of.cases) (simp_all add: cmd_terminal_def)

lemma outcome_seen: "(st, x) = outcome_of cx r ent \<Longrightarrow> cmd_terminal st"
  using outcome_terminal [of cx r ent] by (metis fst_conv)

definition seen_of :: "('e, 'r) shared_cmd \<Rightarrow> cmd_state \<times> gerror option \<times> 'r list \<times> 'e" where
  "seen_of s = (State_of (the_cmd s), Error_of (the_cmd s), sent s, snd (snd (running s)))"

text \<open>Where Execute is, and what that means for what can be seen.\<close>

fun seen_ok ::
  "'r delegate_result \<times> 'e \<Rightarrow> 'e \<Rightarrow> 'r exec_pc \<Rightarrow> gerror option option \<Rightarrow>
     cmd_state \<times> gerror option \<times> 'r list \<times> 'e \<Rightarrow> bool" where
  "seen_ok res ent XStart lk x \<longleftrightarrow> lk = None \<and> x = (CmdCreated, None, [], ent)"
| "seen_ok res ent XCheck lk x \<longleftrightarrow> lk = None \<and> x = (CmdStarted, None, [], ent)"
| "seen_ok res ent (XCancel ce) lk x \<longleftrightarrow> lk = Some (Some ce) \<and> x = (CmdStarted, None, [], ent)"
| "seen_ok res ent XDelegate lk x \<longleftrightarrow> lk = Some None \<and> x = (CmdStarted, None, [], ent)"
| "seen_ok res ent (XFail e) lk x \<longleftrightarrow> lk = Some None \<and> x = (CmdStarted, None, [], snd res) \<and> (\<exists>v. fst res = Returns v (Some e))"
| "seen_ok res ent (XSend v) lk x \<longleftrightarrow> lk = Some None \<and> x = (CmdStarted, None, [], snd res) \<and> fst res = Returns v None"
| "seen_ok res ent XFinish lk x \<longleftrightarrow> lk = Some None \<and> (\<exists>v. x = (CmdStarted, None, [v], snd res) \<and> fst res = Returns v None)"
| "seen_ok res ent XRecover lk x \<longleftrightarrow> lk = Some None \<and> x = (CmdStarted, None, [], snd res) \<and> (\<exists>p. fst res = DelegatePanics p)"
| "seen_ok res ent (XPanicked p) lk x \<longleftrightarrow> False"
| "seen_ok res ent pc lk x \<longleftrightarrow> (\<exists>cx. lk = Some cx \<and> x = outcome_of cx res ent)"

definition shared_inv :: "('e, 'r) delegate_fn \<Rightarrow> 'e \<Rightarrow> ('e, 'r) shared_cmd \<Rightarrow> bool" where
  "shared_inv fn ent s \<longleftrightarrow>
     delegateFn (the_cmd s) = fn \<and> ccap (gc_done (the_cmd s)) = 1 \<and>
     (cclosed (gc_done (the_cmd s)) \<longleftrightarrow> fst (running s) = XReturned) \<and>
     seen_ok (fn ent) ent (fst (running s)) (found s) (seen_of s)"

lemmas shared_defs = shared_inv_def seen_of_def sent_def State_of_def Error_of_def Done_chan_def

lemma shared_inv_new: "shared_inv fn ent (shared_new fn ent)"
  by (simp add: shared_defs shared_new_def make_chan_def)

lemma acts_inv:
  assumes "shared_inv fn ent s" "acts cerr s = Some t"
  shows "shared_inv fn ent t"
proof -
  obtain pc gc en where r: "running s = (pc, gc, en)"
    by (cases "running s")
  obtain res en' where "fn ent = (res, en')"
    by fastforce
  with assms r show ?thesis
    by (cases pc; cases res)
      (auto simp: acts_def shared_defs chan_send_def close_done_def chan_close_def split: option.splits if_splits)
qed

lemma receives_inv:
  assumes "shared_inv fn ent s" "receives s = Some t"
  shows "shared_inv fn ent t \<and> fst (running t) = fst (running s) \<and> gc_state (the_cmd t) = gc_state (the_cmd s) \<and>
    gc_err (the_cmd t) = gc_err (the_cmd s)"
  using assms
  by (auto simp: receives_def shared_defs chan_recv_def split: prod.splits list.splits if_splits)

lemma shared_inv_step: "shared_inv fn ent s \<Longrightarrow> keeps (shared_inv fn ent) (shared_step l s)"
  using acts_inv receives_inv by (cases l) (fastforce simp: keeps_def split: option.split)+

interpretation shared_machine: invariant_machine shared_step "\<lambda>_. True" "shared_inv fn ent" for fn ent
  by unfold_locales (rule shared_inv_step)

lemma run_shared_inv: "runs shared_step ls (shared_new fn ent) = Some s \<Longrightarrow> shared_inv fn ent s"
  using shared_machine.runs_keeps [OF shared_inv_new] by (simp add: list_all_iff)

section \<open>Forward only\<close>

text \<open>A terminal state and its error stay; before, the state only moves on.\<close>

definition onward :: "cmd_state \<Rightarrow> gerror option \<Rightarrow> ('e, 'r) shared_cmd \<Rightarrow> bool" where
  "onward st err s \<longleftrightarrow> cmd_code st \<le> cmd_code (State_of (the_cmd s)) \<and>
     (cmd_terminal st \<longrightarrow> State_of (the_cmd s) = st \<and> Error_of (the_cmd s) = err)"

lemma acts_onward:
  assumes "shared_inv fn ent s" "acts cerr s = Some t" "onward st err s"
  shows "onward st err t"
proof -
  obtain pc gc en where "running s = (pc, gc, en)"
    by (cases "running s")
  with assms show ?thesis
    by (cases pc) (auto simp: acts_def shared_defs onward_def cmd_terminal_def chan_send_def close_done_def chan_close_def
      split: option.splits if_splits prod.splits delegate_result.splits)
qed

interpretation onward_machine: invariant_machine shared_step "\<lambda>_. True" "\<lambda>s. shared_inv fn ent s \<and> onward st err s"
  for fn ent st err
proof
  fix l and s :: "('a, 'b) shared_cmd"
  assume s: "shared_inv fn ent s \<and> onward st err s"
  show "keeps (\<lambda>s. shared_inv fn ent s \<and> onward st err s) (shared_step l s)"
  proof (cases l)
    case (Acts cerr)
    with s acts_inv acts_onward show ?thesis
      by (fastforce simp: keeps_def split: option.split)
  next
    case Receives
    with s receives_inv show ?thesis
      by (fastforce simp: keeps_def onward_def State_of_def Error_of_def split: option.split)
  qed
qed

section \<open>How far it is to the end\<close>

fun actions_left :: "'r exec_pc \<Rightarrow> nat" where
  "actions_left XStart = 6"
| "actions_left XCheck = 5"
| "actions_left XDelegate = 4"
| "actions_left (XSend v) = 3"
| "actions_left (XCancel ce) = 2"
| "actions_left (XFail e) = 2"
| "actions_left XFinish = 2"
| "actions_left XRecover = 2"
| "actions_left XCloseCancel = 1"
| "actions_left XClose = 1"
| "actions_left XCloseRecover = 1"
| "actions_left _ = 0"

lemma acts_left:
  assumes "shared_inv fn ent s" "acts cerr s = Some t"
  shows "actions_left (fst (running t)) < actions_left (fst (running s))"
proof -
  obtain pc gc en where "running s = (pc, gc, en)"
    by (cases "running s")
  with assms show ?thesis
    by (cases pc) (auto simp: acts_def shared_inv_def split: option.splits prod.splits delegate_result.splits send_result.splits)
qed

lemma runs_left:
  assumes "shared_inv fn ent s" "runs shared_step ls s = Some t"
  shows "length (filter (\<lambda>l. l \<noteq> Receives) ls) + actions_left (fst (running t)) \<le> actions_left (fst (running s))"
  using assms
proof (induction ls arbitrary: s)
  case (Cons l ls)
  then obtain u where u: "shared_step l s = Some u" "runs shared_step ls u = Some t"
    by (auto split: option.splits)
  have "shared_inv fn ent u"
    using shared_inv_step [OF Cons.prems(1)] u(1) by (rule keepsD)
  from Cons.IH [OF this u(2)] u(1) Cons.prems(1) acts_left [of fn ent s _ u] receives_inv [of fn ent s u] show ?case
    by (cases l) fastforce+
qed simp

lemma acts_enabled:
  assumes "shared_inv fn ent s" "fst (running s) \<noteq> XReturned"
  shows "\<exists>t. acts cerr s = Some t"
proof -
  obtain pc gc en where "running s = (pc, gc, en)"
    by (cases "running s")
  with assms show ?thesis
    by (cases pc) (auto simp: acts_def shared_defs chan_send_def split: option.splits prod.splits delegate_result.splits)
qed

section \<open>Properties\<close>

text \<open>
  C26: What the holders of a command see while its actor executes it, once, whatever they receive and
  whenever: the state moves forward only, and a terminal state and its error never change; they are, with what
  went through the channel and with the entity, what the delegate's result or the context that Execute looked at
  demands; the channel is closed only when they are stored, so a reader woken by Done reads the final
  ones; a value received is the one the delegate returned; and Execute, which never blocks and no panic
  escapes, has closed the channel after six actions at the most.
\<close>

theorem readers_see_final_outcome:
  assumes "runs shared_step ls (shared_new fn ent) = Some s"
  shows "(if cmd_terminal (State_of (the_cmd s))
      then \<exists>cx. found s = Some cx \<and>
        (State_of (the_cmd s), Error_of (the_cmd s), sent s, snd (snd (running s))) = outcome_of cx (fn ent) ent
      else Error_of (the_cmd s) = None \<and> \<not> cclosed (Done_chan (the_cmd s)) \<and>
        (\<forall>v \<in> set (sent s). sent s = [v] \<and> fst (fn ent) = Returns v None)) \<and>
    (\<forall>ks t. runs shared_step ks s = Some t \<longrightarrow>
      cmd_code (State_of (the_cmd s)) \<le> cmd_code (State_of (the_cmd t)) \<and>
      (cmd_terminal (State_of (the_cmd s)) \<longrightarrow>
        State_of (the_cmd t) = State_of (the_cmd s) \<and> Error_of (the_cmd t) = Error_of (the_cmd s))) \<and>
    length (filter (\<lambda>l. l \<noteq> Receives) ls) \<le> 6 \<and>
    (cclosed (Done_chan (the_cmd s)) \<or> (\<forall>cerr. \<exists>t. shared_step (Acts cerr) s = Some t))"
proof -
  have inv: "shared_inv fn ent s"
    using run_shared_inv [OF assms] .
  have "if cmd_terminal (State_of (the_cmd s)) then \<exists>cx. found s = Some cx \<and> seen_of s = outcome_of cx (fn ent) ent
      else Error_of (the_cmd s) = None \<and> \<not> cclosed (Done_chan (the_cmd s)) \<and>
        (\<forall>v \<in> set (sent s). sent s = [v] \<and> fst (fn ent) = Returns v None)"
  proof (cases "cmd_terminal (State_of (the_cmd s))")
    case True
    with inv show ?thesis
      by (cases "fst (running s)") (auto simp: shared_inv_def seen_of_def cmd_terminal_def)
  next
    case False
    with inv show ?thesis
      by (cases "fst (running s)") (auto simp: shared_inv_def seen_of_def Done_chan_def dest: outcome_seen)
  qed
  moreover have "onward (State_of (the_cmd s)) (Error_of (the_cmd s)) t" if "runs shared_step ks s = Some t" for ks t
    using onward_machine.runs_keeps [OF _ _ that, of fn ent "State_of (the_cmd s)" "Error_of (the_cmd s)"] inv
    by (simp add: onward_def list_all_iff)
  moreover have "length (filter (\<lambda>l. l \<noteq> Receives) ls) \<le> 6"
    using runs_left [OF shared_inv_new assms] by (simp add: shared_new_def)
  moreover have "cclosed (Done_chan (the_cmd s)) \<or> (\<forall>cerr. \<exists>t. shared_step (Acts cerr) s = Some t)"
    using acts_enabled [OF inv] inv by (auto simp: shared_inv_def Done_chan_def)
  ultimately show ?thesis
    by (cases "cmd_terminal (State_of (the_cmd s))") (simp_all add: seen_of_def onward_def)
qed

text \<open>The value is received before Execute stores Finished.\<close>

definition early_reader :: "reader_label list" where
  "early_reader = [Acts None, Acts None, Acts (Some CtxCanceled), Acts None, Receives]"

definition doubles :: "(nat, nat) delegate_fn" where
  "doubles n = (Returns (2 * n) None, n + 1)"

theorem readers_see_final_outcome_witness:
  "\<exists>s t. runs shared_step early_reader (shared_new doubles 4) = Some s \<and> State_of (the_cmd s) = CmdStarted \<and>
     sent s = [8] \<and> fst (doubles 4) = Returns 8 None \<and>
     runs shared_step [Acts None] s = Some t \<and> State_of (the_cmd t) = CmdFinished \<and>
     cmd_code (State_of (the_cmd s)) \<le> cmd_code (State_of (the_cmd t))"
proof -
  have "\<exists>s t. runs shared_step early_reader (shared_new doubles 4) = Some s \<and> State_of (the_cmd s) = CmdStarted \<and>
      sent s = [8] \<and> runs shared_step [Acts None] s = Some t \<and> State_of (the_cmd t) = CmdFinished"
    by (simp add: early_reader_def doubles_def shared_new_def acts_def receives_def op_defs sent_def)
  then obtain s t where s: "runs shared_step early_reader (shared_new doubles 4) = Some s" "State_of (the_cmd s) = CmdStarted"
    "sent s = [8]" "runs shared_step [Acts None] s = Some t" "State_of (the_cmd t) = CmdFinished"
    by blast
  note claim = readers_see_final_outcome [OF s(1)]
  have "fst (doubles 4) = Returns 8 None"
    using claim s(2,3) by (simp add: cmd_terminal_def)
  moreover have "cmd_code (State_of (the_cmd s)) \<le> cmd_code (State_of (the_cmd t))"
    using claim s(4) by blast
  ultimately show ?thesis
    using s by blast
qed

end
