(* ===== verification/Behavior.thy ===== *)
theory Behavior
  imports Go_Runtime
begin

text \<open>
  \<open>pkg/actor/behavior.go\<close> and \<open>pkg/actor/actorcontext.go\<close>: the stack of message handlers
  behind Become / BecomeReplace / Unbecome, the \<open>GoActorContext\<close> through which handlers reach
  it, and the context value that carries it. Handlers are references: a type variable
  \<open>'h\<close>, whose meaning is given where they are run.
\<close>

section \<open>The behavior stack\<close>

text \<open>The slice of the code: the last element is the top.\<close>

record 'h behavior_stack =
  stack :: "'h list"

definition newBehaviorStack :: "'h \<Rightarrow> 'h behavior_stack" where
  "newBehaviorStack initial = \<lparr>stack = [initial]\<rparr>"

text \<open>\<open>b.stack[len(b.stack)-1]\<close>: \<open>None\<close> is the index panic on an empty slice.\<close>

definition Current :: "'h behavior_stack \<Rightarrow> 'h option" where
  "Current b = (if stack b = [] then None else Some (stack b ! (length (stack b) - 1)))"

definition Become :: "'h \<Rightarrow> 'h behavior_stack \<Rightarrow> 'h behavior_stack" where
  "Become h b = b\<lparr>stack := stack b @ [h]\<rparr>"

definition BecomeReplace :: "'h \<Rightarrow> 'h behavior_stack \<Rightarrow> 'h behavior_stack option" where
  "BecomeReplace h b =
     (if stack b = [] then None else Some (b\<lparr>stack := (stack b)[length (stack b) - 1 := h]\<rparr>))"

definition Unbecome :: "'h behavior_stack \<Rightarrow> bool \<times> 'h behavior_stack" where
  "Unbecome b =
     (if length (stack b) \<le> 1 then (False, b)
      else (True, b\<lparr>stack := take (length (stack b) - 1) (stack b)\<rparr>))"

definition depth :: "'h behavior_stack \<Rightarrow> nat" where
  "depth b = length (stack b)"

lemmas stack_defs = newBehaviorStack_def Current_def Become_def BecomeReplace_def
  Unbecome_def depth_def

declare stack_defs [op_defs]

definition stack_wf :: "'h behavior_stack \<Rightarrow> bool" where
  "stack_wf b \<longleftrightarrow> stack b \<noteq> []"

section \<open>The interface handlers rely on\<close>

text \<open>
  What \<open>GoActorContext\<close> and the actor's loop rely on: from a well-formed stack no operation
  panics, the last Become or BecomeReplace is current, and Unbecome undoes Become.
\<close>

datatype 'h bop = OpBecome 'h | OpReplace 'h | OpUnbecome

locale behavior_api =
  fixes new :: "'h \<Rightarrow> 'b"
    and current :: "'b \<Rightarrow> 'h option"
    and become :: "'h \<Rightarrow> 'b \<Rightarrow> 'b"
    and replace :: "'h \<Rightarrow> 'b \<Rightarrow> 'b option"
    and unbecome :: "'b \<Rightarrow> bool \<times> 'b"
    and size_of :: "'b \<Rightarrow> nat"
    and wf :: "'b \<Rightarrow> bool"
  assumes new_law: "wf (new h) \<and> current (new h) = Some h \<and> size_of (new h) = 1"
    and current_law: "wf b \<Longrightarrow> \<exists>h. current b = Some h"
    and become_law: "wf b \<Longrightarrow> wf (become h b) \<and> current (become h b) = Some h \<and>
      size_of (become h b) = Suc (size_of b)"
    and replace_law: "wf b \<Longrightarrow> \<exists>c. replace h b = Some c \<and> wf c \<and> current c = Some h \<and>
      size_of c = size_of b"
    and unbecome_law: "wf b \<Longrightarrow> wf (snd (unbecome b)) \<and>
      size_of (snd (unbecome b)) = (if fst (unbecome b) then size_of b - 1 else size_of b) \<and>
      (fst (unbecome b) \<longleftrightarrow> 1 < size_of b)"
    and unbecome_become_law: "wf b \<Longrightarrow> unbecome (become h b) = (True, b)"
begin

lemma wf_size: "wf b \<Longrightarrow> unbecome b = (False, c) \<Longrightarrow> size_of b \<le> 1"
  using unbecome_law [of b] by auto

lemma become_n_unbecome_n:
  "wf b \<Longrightarrow> ((\<lambda>c. snd (unbecome c)) ^^ length hs) (fold become hs b) = b"
proof (induction hs arbitrary: b)
  case Nil
  then show ?case by simp
next
  case (Cons h hs)
  have "((\<lambda>c. snd (unbecome c)) ^^ length hs) (fold become hs (become h b)) = become h b"
    using Cons become_law by blast
  then show ?case using unbecome_become_law [OF Cons.prems] by simp
qed

lemma wf_fold_become: "wf b \<Longrightarrow> wf (fold become hs b)"
  by (induction hs arbitrary: b) (auto simp: become_law)

end

interpretation stack_api: behavior_api newBehaviorStack Current Become BecomeReplace Unbecome
  depth stack_wf
  by unfold_locales (auto simp: op_defs stack_wf_def)

section \<open>The actor context\<close>

text \<open>
  \<open>GoActorContext\<close> shares its stack with the actor (\<open>ga.behavior\<close> is the same pointer); the
  model keeps the one stack here.
\<close>

record 'h go_actor_context =
  ac_behavior :: "'h behavior_stack"
  ac_name :: string

definition ctx_Become :: "'h \<Rightarrow> 'h go_actor_context \<Rightarrow> 'h go_actor_context" where
  "ctx_Become h ac = ac\<lparr>ac_behavior := Become h (ac_behavior ac)\<rparr>"

definition ctx_BecomeReplace :: "'h \<Rightarrow> 'h go_actor_context \<Rightarrow> 'h go_actor_context option" where
  "ctx_BecomeReplace h ac =
     map_option (\<lambda>b. ac\<lparr>ac_behavior := b\<rparr>) (BecomeReplace h (ac_behavior ac))"

definition ctx_Unbecome :: "'h go_actor_context \<Rightarrow> bool \<times> 'h go_actor_context" where
  "ctx_Unbecome ac =
     (case Unbecome (ac_behavior ac) of (r, b) \<Rightarrow> (r, ac\<lparr>ac_behavior := b\<rparr>))"

definition ctx_Name :: "'h go_actor_context \<Rightarrow> string" where
  "ctx_Name ac = ac_name ac"

declare ctx_Become_def [op_defs] ctx_BecomeReplace_def [op_defs] ctx_Unbecome_def [op_defs]
  ctx_Name_def [op_defs]

text \<open>
  One call of a handler on its context, and the calls one handler makes in order: the boolean
  is the result of Unbecome (True for the calls with no result), \<open>None\<close> a panic.
\<close>

fun apply_bop :: "'h bop \<Rightarrow> 'h go_actor_context \<Rightarrow> (bool \<times> 'h go_actor_context) option" where
  "apply_bop (OpBecome h) ac = Some (True, ctx_Become h ac)"
| "apply_bop (OpReplace h) ac = map_option (Pair True) (ctx_BecomeReplace h ac)"
| "apply_bop OpUnbecome ac = Some (ctx_Unbecome ac)"

fun apply_bops ::
  "'h bop list \<Rightarrow> 'h go_actor_context \<Rightarrow> (bool list \<times> 'h go_actor_context) option" where
  "apply_bops [] ac = Some ([], ac)"
| "apply_bops (p # ps) ac =
     (case apply_bop p ac of
        None \<Rightarrow> None
      | Some (r, ac') \<Rightarrow> map_option (apfst (Cons r)) (apply_bops ps ac'))"

subsection \<open>The specification: a non-empty stack\<close>

text \<open>
  The abstract stack has a current behavior and the ones below it, so it cannot be empty and
  its operations cannot panic.
\<close>

type_synonym 'h spec_stack = "'h \<times> 'h list"

fun spec_bop :: "'h bop \<Rightarrow> 'h spec_stack \<Rightarrow> bool \<times> 'h spec_stack" where
  "spec_bop (OpBecome h) (t, bs) = (True, h, t # bs)"
| "spec_bop (OpReplace h) (t, bs) = (True, h, bs)"
| "spec_bop OpUnbecome (t, []) = (False, t, [])"
| "spec_bop OpUnbecome (t, b # bs) = (True, b, bs)"

fun spec_bops :: "'h bop list \<Rightarrow> 'h spec_stack \<Rightarrow> bool list \<times> 'h spec_stack" where
  "spec_bops [] s = ([], s)"
| "spec_bops (p # ps) s =
     (case spec_bop p s of (r, s') \<Rightarrow> apfst (Cons r) (spec_bops ps s'))"

definition abs_stack :: "'h behavior_stack \<Rightarrow> 'h spec_stack" where
  "abs_stack b = (last (stack b), rev (butlast (stack b)))"

lemma stack_wf_snocE:
  assumes "stack_wf b"
  obtains xs x where "b = \<lparr>stack = xs @ [x]\<rparr>"
  using assms by (cases b) (auto simp: stack_wf_def elim: nonempty_snocE)

lemma abs_stack_snoc [simp]: "abs_stack \<lparr>stack = xs @ [x]\<rparr> = (x, rev xs)"
  by (simp add: abs_stack_def)

lemma apply_bop_refines:
  assumes "stack_wf (ac_behavior ac)"
  shows "\<exists>r ac'. apply_bop p ac = Some (r, ac') \<and> stack_wf (ac_behavior ac') \<and>
    ac_name ac' = ac_name ac \<and>
    spec_bop p (abs_stack (ac_behavior ac)) = (r, abs_stack (ac_behavior ac'))"
proof -
  from assms obtain xs x where st: "ac_behavior ac = \<lparr>stack = xs @ [x]\<rparr>"
    by (rule stack_wf_snocE)
  show ?thesis
  proof (cases p)
    case (OpBecome h)
    with st show ?thesis
      using abs_stack_snoc [of "xs @ [x]" h]
      by (auto simp: ctx_Become_def Become_def stack_wf_def)
  next
    case (OpReplace h)
    with st show ?thesis
      by (auto simp: ctx_BecomeReplace_def BecomeReplace_def stack_wf_def)
  next
    case OpUnbecome
    with st show ?thesis
      by (cases xs rule: rev_cases)
        (auto simp: ctx_Unbecome_def Unbecome_def stack_wf_def abs_stack_def butlast_append)
  qed
qed

lemma apply_bops_refines:
  assumes "stack_wf (ac_behavior ac)"
  shows "\<exists>rs ac'. apply_bops ps ac = Some (rs, ac') \<and> stack_wf (ac_behavior ac') \<and>
    ac_name ac' = ac_name ac \<and>
    spec_bops ps (abs_stack (ac_behavior ac)) = (rs, abs_stack (ac_behavior ac'))"
  using assms
proof (induction ps arbitrary: ac)
  case Nil
  then show ?case by simp
next
  case (Cons p ps)
  obtain r ac1 where 1: "apply_bop p ac = Some (r, ac1)" "stack_wf (ac_behavior ac1)"
    "ac_name ac1 = ac_name ac"
    "spec_bop p (abs_stack (ac_behavior ac)) = (r, abs_stack (ac_behavior ac1))"
    using apply_bop_refines [OF Cons.prems] by blast
  with Cons.IH [OF 1(2)] show ?case by auto
qed

lemma Current_abs: "stack_wf b \<Longrightarrow> Current b = Some (fst (abs_stack b))"
  by (auto simp: op_defs stack_wf_def abs_stack_def last_conv_nth)

section \<open>The context value\<close>

text \<open>
  \<open>context.WithValue\<close> chains: a key and a value in front of a parent. The keys of this
  package are of the unexported type \<open>contextKey\<close>, so no other package's key equals it.
  A value is a \<open>*GoActorContext[T]\<close> for the entity type named \<open>tag\<close>, or anything else.
\<close>

datatype ctx_key = GoActorContextKey | OtherKey nat

datatype 'v ctx_value = ActorContextValue string 'v | OtherValue nat

datatype 'v go_context = BaseContext | WithValue "'v go_context" ctx_key "'v ctx_value"

fun ctx_Value :: "'v go_context \<Rightarrow> ctx_key \<Rightarrow> 'v ctx_value option" where
  "ctx_Value BaseContext k = None"
| "ctx_Value (WithValue c k' v) k = (if k' = k then Some v else ctx_Value c k)"

definition withGoActorContext :: "string \<Rightarrow> 'v go_context \<Rightarrow> 'v \<Rightarrow> 'v go_context" where
  "withGoActorContext tag c ac = WithValue c GoActorContextKey (ActorContextValue tag ac)"

text \<open>The type assertion of \<open>GetGoActorContext[T]\<close>: nil unless the entity type agrees.\<close>

definition GetGoActorContext :: "string \<Rightarrow> 'v go_context \<Rightarrow> 'v option" where
  "GetGoActorContext tag c =
     (case ctx_Value c GoActorContextKey of
        Some (ActorContextValue tag' ac) \<Rightarrow> if tag' = tag then Some ac else None
      | _ \<Rightarrow> None)"

text \<open>Values that user code adds in front, under keys of its own.\<close>

fun with_values :: "(nat \<times> 'v ctx_value) list \<Rightarrow> 'v go_context \<Rightarrow> 'v go_context" where
  "with_values [] c = c"
| "with_values ((k, v) # kvs) c = WithValue (with_values kvs c) (OtherKey k) v"

lemma ctx_Value_with_values:
  "ctx_Value (with_values kvs c) GoActorContextKey = ctx_Value c GoActorContextKey"
  by (induction kvs c rule: with_values.induct) auto

section \<open>Properties\<close>

text \<open>
  Whatever sequence of Become, BecomeReplace and Unbecome calls handlers make through
  their context on a fresh stack, no call panics, the calls return what the abstract
  non-empty stack says (Unbecome is False exactly when only one behavior is left), and the
  handler the loop would run next is the abstract stack's current one.
\<close>

theorem behavior_calls_refine_spec:
  "\<exists>rs ac'. apply_bops ps \<lparr>ac_behavior = newBehaviorStack h, ac_name = n\<rparr> = Some (rs, ac') \<and>
     Current (ac_behavior ac') = Some (fst (snd (spec_bops ps (h, [])))) \<and>
     rs = fst (spec_bops ps (h, [])) \<and> ctx_Name ac' = n"
proof -
  let ?ac = "\<lparr>ac_behavior = newBehaviorStack h, ac_name = n\<rparr>"
  have wf: "stack_wf (ac_behavior ?ac)" using stack_api.new_law [of h] by simp
  have "abs_stack (newBehaviorStack h) = (h, [])"
    by (simp add: abs_stack_def newBehaviorStack_def)
  then show ?thesis
    using apply_bops_refines [OF wf, of ps] by (auto simp: Current_abs ctx_Name_def)
qed

text \<open>
  Pushing any number of behaviors and calling Unbecome as often gives back the very stack
  there was before, and never panics on the way.
\<close>

theorem unbecome_undoes_becomes:
  assumes "stack_wf b"
  shows "((\<lambda>c. snd (Unbecome c)) ^^ length hs) (fold Become hs b) = b \<and>
    (\<exists>h. Current (fold Become hs b) = Some h)"
  using assms
  by (simp add: stack_api.become_n_unbecome_n stack_api.current_law stack_api.wf_fold_become)

theorem unbecome_undoes_becomes_witness:
  "((\<lambda>c. snd (Unbecome c)) ^^ length [2, 3::nat]) (fold Become [2, 3::nat] (newBehaviorStack (1::nat)))
     = newBehaviorStack 1"
  by (rule unbecome_undoes_becomes [THEN conjunct1]) (simp add: stack_wf_def newBehaviorStack_def)

text \<open>
  GetGoActorContext finds the context the actor stored, through any values user code adds
  under keys of its own, and nothing under another entity type.
\<close>

theorem actor_context_roundtrip:
  "GetGoActorContext tag (with_values kvs (withGoActorContext tag' c ac)) =
     (if tag = tag' then Some ac else None)"
  by (simp add: GetGoActorContext_def withGoActorContext_def ctx_Value_with_values)

end
