(* ===== verification/Middleware.thy ===== *)
theory Middleware
  imports Behavior "HOL-Library.Signed_Division"
begin

text \<open>
  \<open>pkg/actor/middleware.go\<close> (Chain, WithMiddleware's composition, buildHandler) and the three
  reference middlewares of \<open>pkg/middleware\<close>: Logging, Metrics and Recovery. A handler is a
  function on a world that holds what the middlewares observe: the clock and the
  \<open>Metrics\<close> objects; everything else user code changes is the record's extension. The logger
  (\<open>go-logslib\<close>, third-party) is a parameter: what it does to the world for one log call.
\<close>

section \<open>Handlers\<close>

text \<open>A \<open>*Metrics\<close> is an address; its two atomic int64 counters.\<close>

record metrics =
  messageCount :: "64 word"
  totalDurationNs :: "64 word"

record world =
  clock :: int
  metrics_at :: "nat \<Rightarrow> metrics"

type_synonym 'h actor_ctx = "'h go_actor_context go_context"

type_synonym ('h, 'm, 'e, 'w) handler_fn = "'h actor_ctx \<Rightarrow> 'm \<Rightarrow> 'e \<Rightarrow> 'w \<Rightarrow> 'w outcome"

type_synonym ('h, 'm, 'e, 'w) middleware =
  "('h, 'm, 'e, 'w) handler_fn \<Rightarrow> ('h, 'm, 'e, 'w) handler_fn"

section \<open>Composition\<close>

text \<open>The loop of Chain: \<open>i\<close> counts down, \<open>next\<close> is wrapped by \<open>middlewares[i]\<close>.\<close>

fun chain_loop :: "('a \<Rightarrow> 'a) list \<Rightarrow> nat \<Rightarrow> 'a \<Rightarrow> 'a" where
  "chain_loop ms 0 nxt = nxt"
| "chain_loop ms (Suc i) nxt = chain_loop ms i ((ms ! i) nxt)"

definition Chain :: "('a \<Rightarrow> 'a) list \<Rightarrow> 'a \<Rightarrow> 'a" where
  "Chain ms nxt = chain_loop ms (length ms) nxt"

text \<open>\<open>Executable.Execute\<close> is user code: a parameter, the meaning of a message.\<close>

definition base_handler ::
  "('m \<Rightarrow> 'h actor_ctx \<Rightarrow> 'e \<Rightarrow> 'w \<Rightarrow> 'w outcome) \<Rightarrow> ('h, 'm, 'e, 'w) handler_fn" where
  "base_handler execute = (\<lambda>ctx e ent. execute e ctx ent)"

definition buildHandler ::
  "('m \<Rightarrow> 'h actor_ctx \<Rightarrow> 'e \<Rightarrow> 'w \<Rightarrow> 'w outcome) \<Rightarrow> ('h, 'm, 'e, 'w) middleware list
     \<Rightarrow> ('h, 'm, 'e, 'w) handler_fn" where
  "buildHandler execute ms =
     (if length ms = 0 then base_handler execute else Chain ms (base_handler execute))"

lemma chain_loop_take:
  "i \<le> length ms \<Longrightarrow> chain_loop ms i nxt = foldr (\<lambda>m n. m n) (take i ms) nxt"
  by (induction ms i nxt rule: chain_loop.induct) (auto simp: take_Suc_conv_app_nth)

lemma Chain_foldr: "Chain ms nxt = foldr (\<lambda>m n. m n) ms nxt"
  by (simp add: Chain_def chain_loop_take)

lemma buildHandler_foldr:
  "buildHandler execute ms = foldr (\<lambda>m n. m n) ms (base_handler execute)"
  by (simp add: buildHandler_def Chain_foldr)

section \<open>The reference middlewares\<close>

text \<open>
  A log call, with what the source passes: level, message and fields; \<open>PanicVal\<close> is
  \<open>fmt.Sprintf("%v", r)\<close> of the recovered value.
\<close>

datatype log_val = StrVal string | DurVal int | PanicVal gopanic

datatype log_call =
    DebugLog string "(string \<times> log_val) list"
  | ErrorLog string "(string \<times> log_val) list"

text \<open>\<open>actorName\<close>: empty without an actor context.\<close>

definition actor_name_of :: "string \<Rightarrow> 'h actor_ctx \<Rightarrow> string" where
  "actor_name_of tag ctx =
     (case GetGoActorContext tag ctx of None \<Rightarrow> [] | Some ac \<Rightarrow> ctx_Name ac)"

text \<open>\<open>time.Since\<close>: the difference to now, saturated to the range of a Duration.\<close>

definition max_duration :: int where "max_duration = 2 ^ 63 - 1"

definition min_duration :: int where "min_duration = - (2 ^ 63)"

definition time_since :: "int \<Rightarrow> int \<Rightarrow> int" where
  "time_since start now = max min_duration (min max_duration (now - start))"

definition Logging ::
  "string \<Rightarrow> ('h actor_ctx \<Rightarrow> log_call \<Rightarrow> 'x world_scheme \<Rightarrow> 'x world_scheme)
     \<Rightarrow> ('h, 'm, 'e, 'x world_scheme) middleware" where
  "Logging tag log nxt = (\<lambda>ctx e ent w.
     let actorName = actor_name_of tag ctx;
         w1 = log ctx (DebugLog ''actor processing message'' [(''actor'', StrVal actorName)]) w;
         start = clock w1
     in case nxt ctx e ent w1 of
          Panics p w2 \<Rightarrow> Panics p w2
        | Finishes w2 \<Rightarrow>
            Finishes (log ctx (DebugLog ''actor processed message''
              [(''actor'', StrVal actorName), (''duration'', DurVal (time_since start (clock w2)))]) w2))"

definition Recovery ::
  "string \<Rightarrow> ('h actor_ctx \<Rightarrow> log_call \<Rightarrow> 'w \<Rightarrow> 'w) \<Rightarrow> ('h, 'm, 'e, 'w) middleware" where
  "Recovery tag log nxt = (\<lambda>ctx e ent w.
     recovering (nxt ctx e ent w)
       (\<lambda>r w'. Finishes (log ctx (ErrorLog ''actor panic recovered by middleware''
          [(''actor'', StrVal (actor_name_of tag ctx)), (''panic'', PanicVal r)]) w')))"

definition MetricsMiddleware :: "nat \<Rightarrow> ('h, 'm, 'e, 'x world_scheme) middleware" where
  "MetricsMiddleware m nxt = (\<lambda>ctx e ent w.
     let start = clock w
     in case nxt ctx e ent w of
          Panics p w2 \<Rightarrow> Panics p w2
        | Finishes w2 \<Rightarrow>
            let duration = time_since start (clock w2); mt = metrics_at w2 m
            in Finishes (w2\<lparr>metrics_at := (metrics_at w2)(m :=
                 mt\<lparr>messageCount := messageCount mt + 1,
                    totalDurationNs := totalDurationNs mt + word_of_int duration\<rparr>)\<rparr>))"

definition MessageCount :: "metrics \<Rightarrow> int" where
  "MessageCount mt = sint (messageCount mt)"

definition TotalDuration :: "metrics \<Rightarrow> int" where
  "TotalDuration mt = sint (totalDurationNs mt)"

text \<open>Go's \<open>/\<close> on int64 truncates towards zero and wraps on the one overflow.\<close>

definition go_div64 :: "64 word \<Rightarrow> 64 word \<Rightarrow> 64 word" where
  "go_div64 a b = word_of_int (sint a sdiv sint b)"

definition AverageDuration :: "metrics \<Rightarrow> int" where
  "AverageDuration mt =
     (if messageCount mt = 0 then 0
      else sint (go_div64 (totalDurationNs mt) (messageCount mt)))"

section \<open>Serving messages\<close>

text \<open>
  The worlds a sequence of messages leaves behind when one handler serves them, each panic
  being contained as the actor's loop does it.
\<close>

fun serve :: "('h, 'm, 'e, 'w) handler_fn \<Rightarrow> 'h actor_ctx \<Rightarrow> 'e \<Rightarrow> 'm list \<Rightarrow> 'w \<Rightarrow> 'w" where
  "serve h ctx ent [] w = w"
| "serve h ctx ent (e # es) w = serve h ctx ent es (final_state (h ctx e ent w))"

text \<open>The messages of the sequence that returned normally, with the time each took.\<close>

fun finished_durations ::
  "('h, 'm, 'e, 'x world_scheme) handler_fn \<Rightarrow> ('h, 'm, 'e, 'x world_scheme) middleware
     \<Rightarrow> 'h actor_ctx \<Rightarrow> 'e \<Rightarrow> 'm list \<Rightarrow> 'x world_scheme \<Rightarrow> int list" where
  "finished_durations h mw ctx ent [] w = []"
| "finished_durations h mw ctx ent (e # es) w =
     (case h ctx e ent w of
        Finishes w2 \<Rightarrow> [time_since (clock w) (clock w2)]
      | Panics p w2 \<Rightarrow> [])
     @ finished_durations h mw ctx ent es (final_state (mw h ctx e ent w))"

lemma metrics_step:
  assumes "metrics_at (final_state (h ctx e ent w)) m = metrics_at w m"
  shows "metrics_at (final_state (MetricsMiddleware m h ctx e ent w)) m =
    (case h ctx e ent w of
       Finishes w2 \<Rightarrow> \<lparr>messageCount = messageCount (metrics_at w m) + 1,
         totalDurationNs = totalDurationNs (metrics_at w m)
           + word_of_int (time_since (clock w) (clock w2))\<rparr>
     | Panics p w2 \<Rightarrow> metrics_at w m)"
  using assms
  by (cases "h ctx e ent w") (auto simp: MetricsMiddleware_def Let_def)

section \<open>Properties\<close>

text \<open>
  The handler an actor runs is the right-to-left composition of its middleware around the
  message's own Execute, also when there is none, and the middleware of two WithMiddleware
  calls composes as the first group around the second.
\<close>

theorem buildHandler_composition:
  "buildHandler execute ms = foldr (\<lambda>m n. m n) ms (base_handler execute) \<and>
   buildHandler execute (as @ bs) = Chain as (buildHandler execute bs)"
  by (simp add: buildHandler_foldr Chain_foldr)

text \<open>
  With Recovery placed first, the handler never panics: when the rest of the chain does,
  it returns with the state the panic left, after one error log that names the actor and the
  panic value; otherwise Recovery changes nothing.
\<close>

theorem recovery_first_contains_panics:
  "buildHandler execute (Recovery tag log # ms) ctx e ent w =
     (case buildHandler execute ms ctx e ent w of
        Finishes w' \<Rightarrow> Finishes w'
      | Panics r w' \<Rightarrow> Finishes (log ctx (ErrorLog ''actor panic recovered by middleware''
          [(''actor'', StrVal (actor_name_of tag ctx)), (''panic'', PanicVal r)]) w'))"
  by (cases "buildHandler execute ms ctx e ent w")
    (simp_all add: buildHandler_foldr Recovery_def)

text \<open>
  Over any sequence of messages the metrics middleware counts exactly the messages whose
  handler returned normally (a panicking message is not counted), and adds up their
  durations, both modulo 2^64, provided the wrapped handler leaves that Metrics object alone.
\<close>

theorem metrics_account_for_finished:
  assumes "\<And>e w. metrics_at (final_state (h ctx e ent w)) m = metrics_at w m"
  shows "metrics_at (serve (MetricsMiddleware m h) ctx ent es w) m =
    \<lparr>messageCount = messageCount (metrics_at w m)
        + of_nat (length (finished_durations h (MetricsMiddleware m) ctx ent es w)),
     totalDurationNs = totalDurationNs (metrics_at w m)
        + word_of_int (sum_list (finished_durations h (MetricsMiddleware m) ctx ent es w))\<rparr>"
proof (induction es arbitrary: w)
  case Nil
  then show ?case by simp
next
  case (Cons e es)
  show ?case
    using Cons.IH [of "final_state (MetricsMiddleware m h ctx e ent w)"]
      metrics_step [where h = h and ctx = ctx and e = e and ent = ent and w = w and m = m, OF assms]
    by (cases "h ctx e ent w") (simp_all add: algebra_simps)
qed

definition quiet_handler :: "(nat, nat, nat, nat world_scheme) handler_fn" where
  "quiet_handler ctx e ent w =
     (if e = 0 then Panics (PanicValue 0) w else Finishes (w\<lparr>clock := clock w + int e\<rparr>))"

theorem metrics_account_for_finished_witness:
  "messageCount (metrics_at (serve (MetricsMiddleware 7 quiet_handler) BaseContext 0 [5, 0, 2]
     \<lparr>clock = 0, metrics_at = (\<lambda>_. \<lparr>messageCount = 0, totalDurationNs = 0\<rparr>), \<dots> = 0\<rparr>) 7) = 2"
proof -
  have "metrics_at (final_state (quiet_handler BaseContext e 0 w)) 7 = metrics_at w 7" for e w
    by (simp add: quiet_handler_def)
  note acc = metrics_account_for_finished [where h = quiet_handler and ctx = BaseContext
      and ent = 0 and m = 7, OF this]
  show ?thesis
    by (subst acc) (simp add: quiet_handler_def MetricsMiddleware_def Let_def)
qed

text \<open>
  As long as neither counter overflows, AverageDuration is the truncated mean: it lies
  between the shortest and the longest duration recorded (durations are never negative with
  a monotonic clock), and it is 0 with nothing recorded.
\<close>

theorem average_duration_bounds:
  assumes "\<forall>d \<in> set ds. lo \<le> d \<and> d \<le> hi" and "0 \<le> lo"
    and "sum_list ds < 2 ^ 63" and "int (length ds) < 2 ^ 63" and "ds \<noteq> []"
    and "mt = \<lparr>messageCount = of_nat (length ds), totalDurationNs = word_of_int (sum_list ds)\<rparr>"
  shows "lo \<le> AverageDuration mt \<and> AverageDuration mt \<le> hi \<and>
    AverageDuration mt = sum_list ds div int (length ds)"
proof -
  let ?n = "int (length ds)" and ?s = "sum_list ds"
  have n: "0 < ?n" using assms(5) by simp
  have "\<forall>d \<in> set xs. lo \<le> d \<and> d \<le> hi \<Longrightarrow>
      int (length xs) * lo \<le> sum_list xs \<and> sum_list xs \<le> int (length xs) * hi" for xs
    by (induction xs) (auto simp: algebra_simps)
  then have b: "?n * lo \<le> ?s" "?s \<le> ?n * hi" using assms(1) by blast+
  then have s0: "0 \<le> ?s" using assms(2) n mult_nonneg_nonneg [of ?n lo] by linarith
  have q: "?s sdiv ?n = ?s div ?n" using s0 n by (auto simp: signed_divide_int_def sgn_if)
  have q0: "0 \<le> ?s div ?n" using s0 n by (simp add: pos_imp_zdiv_nonneg_iff)
  have q_le: "?s div ?n \<le> ?s"
    using s0 int_div_le_self [of ?s ?n] by (cases "?s = 0") auto
  have s1: "sint (word_of_int ?s :: 64 word) = ?s"
    and n1: "sint (word_of_int ?n :: 64 word) = ?n"
    and q1: "sint (word_of_int (?s div ?n) :: 64 word) = ?s div ?n"
    by (rule sint_of_int64; use s0 n q0 q_le assms(3,4) in linarith)+
  have "(word_of_int ?n :: 64 word) \<noteq> 0" using n n1 by (metis order_less_irrefl sint_0)
  then have avg: "AverageDuration mt = ?s div ?n"
    using assms(6) s1 n1 q q1 by (simp add: AverageDuration_def go_div64_def)
  with div_between [OF n b] show ?thesis by simp
qed

theorem average_duration_bounds_witness:
  "AverageDuration \<lparr>messageCount = of_nat (length [3, 8]), totalDurationNs = word_of_int (sum_list [3, 8])\<rparr>
     = (5::int)"
proof -
  let ?mt = "\<lparr>messageCount = of_nat (length [3, 8::int]), totalDurationNs = word_of_int (sum_list [3, 8])\<rparr>"
  have "AverageDuration ?mt = sum_list [3, 8] div int (length [3, 8::int])"
    using average_duration_bounds [of "[3, 8]" 3 8 ?mt] by simp
  then show ?thesis by simp
qed

end
