(* ===== verification/Deadletter.thy ===== *)
theory Deadletter
  imports Go_Runtime
begin

text \<open>
  \<open>pkg/deadletter/deadletter.go\<close>: the bounded store of undeliverable messages. Every method
  runs under the queue's mutex, so a concurrent history is a sequence of calls; Publish calls
  the handlers it copied after it has released the mutex. The mutex is part of the state because
  Publish can leave it locked: it panics in \<open>q.letters[1:]\<close> without a deferred unlock.
\<close>

record letter =
  Target :: string
  Reason :: string

text \<open>A handler is a function value of user code, known by its address.\<close>

record dl_queue =
  dl_locked :: bool
  letters :: "letter list"
  capacity :: int
  handlers :: "nat list"

type_synonym dl_option = "dl_queue \<Rightarrow> dl_queue"

definition WithCapacity :: "int \<Rightarrow> dl_option" where
  "WithCapacity n = (\<lambda>q. q\<lparr>capacity := n\<rparr>)"

text \<open>A call returns, never gets the mutex, or panics.\<close>

datatype 'a call_result = Returned 'a | Blocked | CallPanics gopanic

definition New_queue :: "dl_option list \<Rightarrow> dl_queue call_result" where
  "New_queue opts =
     (let q = fold (\<lambda>opt q. opt q) opts
        \<lparr>dl_locked = False, letters = [], capacity = 1000, handlers = []\<rparr>
      in if capacity q < 0 then CallPanics (PanicError (RuntimeErr MakeSizeOutOfRange))
         else Returned (q\<lparr>letters := []\<rparr>))"

definition OnDeadLetter :: "nat \<Rightarrow> dl_queue \<Rightarrow> unit call_result \<times> dl_queue" where
  "OnDeadLetter h q =
     (if dl_locked q then (Blocked, q) else (Returned (), q\<lparr>handlers := handlers q @ [h]\<rparr>))"

text \<open>\<open>q.letters[1:]\<close>, a panic on an empty slice.\<close>

definition tail_slice :: "'a list \<Rightarrow> 'a list option" where
  "tail_slice xs = (if xs = [] then None else Some (drop 1 xs))"

text \<open>Publish returns the handler calls it makes, in order.\<close>

definition Publish :: "letter \<Rightarrow> dl_queue \<Rightarrow> (nat \<times> letter) list call_result \<times> dl_queue" where
  "Publish l q =
     (if dl_locked q then (Blocked, q)
      else
        (case (if int (length (letters q)) \<ge> capacity q then tail_slice (letters q)
               else Some (letters q)) of
           None \<Rightarrow> (CallPanics (PanicError (RuntimeErr SliceBoundsOutOfRange)), q\<lparr>dl_locked := True\<rparr>)
         | Some ls \<Rightarrow>
             (Returned (map (\<lambda>h. (h, l)) (handlers q)), q\<lparr>letters := ls @ [l]\<rparr>)))"

definition Letters :: "dl_queue \<Rightarrow> letter list call_result \<times> dl_queue" where
  "Letters q = (if dl_locked q then (Blocked, q) else (Returned (letters q), q))"

definition Count_letters :: "dl_queue \<Rightarrow> nat call_result \<times> dl_queue" where
  "Count_letters q = (if dl_locked q then (Blocked, q) else (Returned (length (letters q)), q))"

definition Clear :: "dl_queue \<Rightarrow> unit call_result \<times> dl_queue" where
  "Clear q = (if dl_locked q then (Blocked, q) else (Returned (), q\<lparr>letters := []\<rparr>))"

lemmas dl_defs = OnDeadLetter_def tail_slice_def Publish_def Letters_def Count_letters_def Clear_def

declare dl_defs [op_defs]

section \<open>Histories\<close>

datatype dl_call = CallOn nat | CallPublish letter | CallLetters | CallCount | CallClear

datatype dl_answer =
    AnsUnit "unit call_result"
  | AnsNotified "(nat \<times> letter) list call_result"
  | AnsLetters "letter list call_result"
  | AnsCount "nat call_result"

fun dl_do :: "dl_call \<Rightarrow> dl_queue \<Rightarrow> dl_answer \<times> dl_queue" where
  "dl_do (CallOn h) q = apfst AnsUnit (OnDeadLetter h q)"
| "dl_do (CallPublish l) q = apfst AnsNotified (Publish l q)"
| "dl_do CallLetters q = apfst AnsLetters (Letters q)"
| "dl_do CallCount q = apfst AnsCount (Count_letters q)"
| "dl_do CallClear q = apfst AnsUnit (Clear q)"

section \<open>The specification\<close>

text \<open>
  The promise of the package: everything published since the last Clear is remembered, of which
  the latest \<open>n\<close> letters are kept; handlers are those registered so far.
\<close>

definition last_n :: "nat \<Rightarrow> 'a list \<Rightarrow> 'a list" where
  "last_n n xs = drop (length xs - n) xs"

fun spec_do ::
  "nat \<Rightarrow> dl_call \<Rightarrow> letter list \<times> nat list \<Rightarrow> dl_answer \<times> letter list \<times> nat list" where
  "spec_do n (CallOn h) (ps, hs) = (AnsUnit (Returned ()), ps, hs @ [h])"
| "spec_do n (CallPublish l) (ps, hs) =
     (AnsNotified (Returned (map (\<lambda>h. (h, l)) hs)), ps @ [l], hs)"
| "spec_do n CallLetters (ps, hs) = (AnsLetters (Returned (last_n n ps)), ps, hs)"
| "spec_do n CallCount (ps, hs) = (AnsCount (Returned (min n (length ps))), ps, hs)"
| "spec_do n CallClear (ps, hs) = (AnsUnit (Returned ()), [], hs)"

text \<open>The concrete queue that stands for a specification state.\<close>

definition dl_rep :: "nat \<Rightarrow> letter list \<times> nat list \<Rightarrow> dl_queue" where
  "dl_rep n s = \<lparr>dl_locked = False, letters = last_n n (fst s), capacity = int n, handlers = snd s\<rparr>"

lemma last_n_snoc:
  assumes "0 < n"
  shows "last_n n (xs @ [x]) =
    (if n \<le> length (last_n n xs) then drop 1 (last_n n xs) else last_n n xs) @ [x]"
proof (cases "n \<le> length xs")
  case True
  then have "Suc (length xs) - n = Suc (length xs - n)"
    by simp
  with True assms show ?thesis
    by (simp add: last_n_def)
qed (use assms in \<open>simp add: last_n_def\<close>)

lemma length_last_n [simp]: "length (last_n n xs) = min n (length xs)"
  by (auto simp: last_n_def)

lemma dl_do_refines:
  assumes "0 < n"
  shows "dl_do c (dl_rep n s) = apsnd (dl_rep n) (spec_do n c s)"
proof (cases s)
  case (Pair ps hs)
  have "last_n n ps \<noteq> []" if "n \<le> length ps"
    using that assms by (metis length_last_n min_absorb1 list.size(3) less_irrefl)
  with Pair assms show ?thesis
    by (cases c) (auto simp: dl_rep_def dl_defs last_n_snoc last_n_def [of n "[]"])
qed

interpretation dl_refinement:
  call_refinement dl_do "spec_do n" "\<lambda>q s. 0 < n \<and> q = dl_rep n s" for n
  by unfold_locales (auto simp: dl_do_refines)

lemma New_queue_capacity:
  "New_queue (map WithCapacity ns) =
     (let n = last (1000 # ns) in
      if n < 0 then CallPanics (PanicError (RuntimeErr MakeSizeOutOfRange))
      else Returned \<lparr>dl_locked = False, letters = [], capacity = n, handlers = []\<rparr>)"
proof -
  have "fold (\<lambda>opt q. opt q) (map WithCapacity ns) q = q\<lparr>capacity := last (capacity q # ns)\<rparr>"
    for q :: dl_queue
    by (induction ns arbitrary: q) (auto simp: WithCapacity_def)
  then show ?thesis
    by (simp add: New_queue_def Let_def)
qed

fun blocked_answer :: "dl_answer \<Rightarrow> bool" where
  "blocked_answer (AnsUnit r) \<longleftrightarrow> r = Blocked"
| "blocked_answer (AnsNotified r) \<longleftrightarrow> r = Blocked"
| "blocked_answer (AnsLetters r) \<longleftrightarrow> r = Blocked"
| "blocked_answer (AnsCount r) \<longleftrightarrow> r = Blocked"

lemma locked_history: "dl_locked q \<Longrightarrow> list_all blocked_answer (fst (history dl_do cs q))"
proof (induction cs)
  case (Cons c cs)
  then have "dl_do c q = (fst (dl_do c q), q) \<and> blocked_answer (fst (dl_do c q))"
    by (cases c) (simp_all add: dl_defs)
  with Cons show ?case
    by (simp add: case_prod_beta) (metis snd_conv)
qed simp

section \<open>Properties\<close>

text \<open>
  With a positive capacity (the last WithCapacity, or 1000) every sequence of calls on a
  new queue gets the answers of the specification: Letters gives the latest letters published
  since the last Clear, oldest first, as many as the capacity allows, Count their number, and
  each Publish notifies all handlers registered before it in order of registration.
\<close>

theorem dead_letters_refine_spec:
  assumes "0 < last (1000 # ns)" "New_queue (map WithCapacity ns) = Returned q"
  shows "fst (history dl_do cs q) = fst (history (spec_do (nat (last (1000 # ns)))) cs ([], []))"
proof -
  define n where "n = nat (last (1000 # ns))"
  with assms have "q = dl_rep n ([], [])"
    by (auto simp: New_queue_capacity Let_def dl_rep_def last_n_def split: if_splits)
  moreover have "0 < n"
    using assms(1) by (simp add: n_def)
  ultimately show ?thesis
    using dl_refinement.same_answers [of n q] by (simp add: n_def)
qed

theorem dead_letters_refine_spec_witness:
  "fst (history dl_do (map (\<lambda>r. CallPublish \<lparr>Target = ''w'', Reason = r\<rparr>) [''a'', ''b'', ''c''] @ [CallLetters])
      \<lparr>dl_locked = False, letters = [], capacity = 2, handlers = []\<rparr>) ! 3 =
   AnsLetters (Returned [\<lparr>Target = ''w'', Reason = ''b''\<rparr>, \<lparr>Target = ''w'', Reason = ''c''\<rparr>])"
proof -
  have "New_queue (map WithCapacity [7, 2]) =
    Returned \<lparr>dl_locked = False, letters = [], capacity = 2, handlers = []\<rparr>"
    unfolding New_queue_capacity by simp
  from dead_letters_refine_spec [OF _ this]
  have eq: "fst (history dl_do cs \<lparr>dl_locked = False, letters = [], capacity = 2, handlers = []\<rparr>) =
    fst (history (spec_do 2) cs ([], []))" for cs
    by simp
  show ?thesis
    unfolding eq by (simp add: last_n_def)
qed

text \<open>
  The capacities the package accepts without complaint but cannot serve: a negative one
  makes New panic; with capacity 0 the first Publish panics and leaves the mutex locked, so
  that every later call on the queue blocks.
\<close>

theorem dead_letter_bad_capacity:
  assumes "last (1000 # ns) \<le> 0"
  shows "(case New_queue (map WithCapacity ns) of
       CallPanics p \<Rightarrow> last (1000 # ns) < 0
     | Blocked \<Rightarrow> False
     | Returned q \<Rightarrow>
         fst (Publish l q) = CallPanics (PanicError (RuntimeErr SliceBoundsOutOfRange)) \<and>
         list_all blocked_answer (fst (history dl_do cs (snd (Publish l q)))))"
  using assms
  by (auto simp: New_queue_capacity Let_def Publish_def tail_slice_def locked_history)

theorem dead_letter_bad_capacity_witness:
  "list_all blocked_answer (fst (history dl_do [CallLetters, CallCount]
     (snd (Publish \<lparr>Target = ''w'', Reason = ''r''\<rparr>
       \<lparr>dl_locked = False, letters = [], capacity = 0, handlers = []\<rparr>))))"
proof -
  have "New_queue (map WithCapacity [0]) =
    Returned \<lparr>dl_locked = False, letters = [], capacity = 0, handlers = []\<rparr>"
    unfolding New_queue_capacity by simp
  from dead_letter_bad_capacity [of "[0]" "\<lparr>Target = ''w'', Reason = ''r''\<rparr>" "[CallLetters, CallCount]",
      unfolded this] show ?thesis
    by simp
qed

end
