(* ===== verification/Mailbox.thy ===== *)
theory Mailbox
  imports Go_Runtime "HOL-Library.Multiset"
begin

text \<open>
  \<open>pkg/mailbox/priority.go\<close>: the priority mailbox. The heap is that of the module
  \<open>go-datalib\<close>, which is not part of the repository: its operations are the parameter \<open>ops\<close>,
  and what the mailbox relies on is \<open>heap_laws\<close>, the documented behaviour of a binary heap. All
  methods run under the mailbox's mutex, so a concurrent history is a sequence of calls.
\<close>

section \<open>The heap\<close>

record ('a, 'h) heap_ops =
  NewHeap :: "('a \<Rightarrow> 'a \<Rightarrow> bool) \<Rightarrow> 'h"
  heap_Push :: "'a \<Rightarrow> 'h \<Rightarrow> 'h"
  heap_Pop :: "'h \<Rightarrow> ('a \<times> 'h) option"
  heap_Size :: "'h \<Rightarrow> int"
  heap_IsEmpty :: "'h \<Rightarrow> bool"

text \<open>
  Heaps built with \<open>lt\<close> (those that are \<open>ok\<close>) hold a multiset of elements; Pop removes one
  that no other is less than, and fails exactly on the empty heap.
\<close>

definition heap_laws ::
  "('a, 'h) heap_ops \<Rightarrow> ('a \<Rightarrow> 'a \<Rightarrow> bool) \<Rightarrow> ('h \<Rightarrow> bool) \<Rightarrow> ('h \<Rightarrow> 'a multiset) \<Rightarrow> bool" where
  "heap_laws ops lt ok elems \<longleftrightarrow>
     ok (NewHeap ops lt) \<and> elems (NewHeap ops lt) = {#} \<and>
     (\<forall>h x. ok h \<longrightarrow> ok (heap_Push ops x h) \<and> elems (heap_Push ops x h) = add_mset x (elems h)) \<and>
     (\<forall>h. ok h \<longrightarrow>
        (case heap_Pop ops h of
           None \<Rightarrow> elems h = {#}
         | Some (x, h') \<Rightarrow>
             ok h' \<and> elems h = add_mset x (elems h') \<and> (\<forall>y\<in>#elems h'. \<not> lt y x))) \<and>
     (\<forall>h. ok h \<longrightarrow>
        heap_Size ops h = int (size (elems h)) \<and> (heap_IsEmpty ops h \<longleftrightarrow> elems h = {#}))"

section \<open>The mailbox\<close>

text \<open>The named priorities; any other integer is a \<open>Priority\<close> too.\<close>

datatype priority_level = SystemPriority | HighPriority | NormalPriority | LowPriority

fun priority_value :: "priority_level \<Rightarrow> int" where
  "priority_value SystemPriority = 0"
| "priority_value HighPriority = 1"
| "priority_value NormalPriority = 2"
| "priority_value LowPriority = 3"

record 'm message =
  executable :: 'm
  priority :: int
  seq :: "64 word"

definition msg_less :: "'m message \<Rightarrow> 'm message \<Rightarrow> bool" where
  "msg_less a b \<longleftrightarrow>
     (if priority a \<noteq> priority b then priority a < priority b else seq a < seq b)"

record 'h mailbox =
  heap :: 'h
  mb_seq :: "64 word"
  notify :: "unit chan"
  mb_closed :: bool
  maxSize :: int

definition NewPriority :: "('m message, 'h) heap_ops \<Rightarrow> int \<Rightarrow> 'h mailbox" where
  "NewPriority ops n =
     \<lparr>heap = NewHeap ops msg_less, mb_seq = 0, notify = make_chan 1, mb_closed = False, maxSize = n\<rparr>"

definition Push ::
  "('m message, 'h) heap_ops \<Rightarrow> 'm \<Rightarrow> int \<Rightarrow> 'h mailbox \<Rightarrow> bool \<times> 'h mailbox" where
  "Push ops e p mb =
     (if mb_closed mb then (False, mb)
      else if maxSize mb > 0 \<and> heap_Size ops (heap mb) \<ge> maxSize mb then (False, mb)
      else
        (let s = mb_seq mb + 1
         in (True, mb\<lparr>mb_seq := s,
              heap := heap_Push ops \<lparr>executable = e, priority = p, seq = s\<rparr> (heap mb),
              notify := chan_try_send () (notify mb)\<rparr>)))"

definition Pop :: "('m message, 'h) heap_ops \<Rightarrow> 'h mailbox \<Rightarrow> 'm option \<times> 'h mailbox" where
  "Pop ops mb =
     (case heap_Pop ops (heap mb) of
        None \<Rightarrow> (None, mb)
      | Some (msg, h) \<Rightarrow> (Some (executable msg), mb\<lparr>heap := h\<rparr>))"

definition Notify :: "'h mailbox \<Rightarrow> unit chan" where
  "Notify mb = notify mb"

definition Size :: "('m message, 'h) heap_ops \<Rightarrow> 'h mailbox \<Rightarrow> int" where
  "Size ops mb = heap_Size ops (heap mb)"

definition Close :: "'h mailbox \<Rightarrow> 'h mailbox" where
  "Close mb = mb\<lparr>mb_closed := True\<rparr>"

definition IsEmpty :: "('m message, 'h) heap_ops \<Rightarrow> 'h mailbox \<Rightarrow> bool" where
  "IsEmpty ops mb = heap_IsEmpty ops (heap mb)"

lemmas mailbox_defs = Push_def Pop_def Notify_def Size_def Close_def IsEmpty_def

declare mailbox_defs [op_defs]

section \<open>Histories\<close>

text \<open>The calls of producers and consumers; \<open>MTryWait\<close> receives from Notify() if it can.\<close>

datatype 'm mb_call = MPush 'm int | MPop | MSize | MIsEmpty | MClose | MTryWait

datatype 'm mb_answer = MBool bool | MMsg "'m option" | MInt int | MUnit

definition try_wait :: "'h mailbox \<Rightarrow> bool \<times> 'h mailbox" where
  "try_wait mb =
     (case chan_recv (Notify mb) of
        Received x c \<Rightarrow> (True, mb\<lparr>notify := c\<rparr>)
      | _ \<Rightarrow> (False, mb))"

fun mb_do ::
  "('m message, 'h) heap_ops \<Rightarrow> 'm mb_call \<Rightarrow> 'h mailbox \<Rightarrow> 'm mb_answer \<times> 'h mailbox" where
  "mb_do ops (MPush e p) mb = apfst MBool (Push ops e p mb)"
| "mb_do ops MPop mb = apfst MMsg (Pop ops mb)"
| "mb_do ops MSize mb = (MInt (Size ops mb), mb)"
| "mb_do ops MIsEmpty mb = (MBool (IsEmpty ops mb), mb)"
| "mb_do ops MClose mb = (MUnit, Close mb)"
| "mb_do ops MTryWait mb = apfst MBool (try_wait mb)"

section \<open>The specification\<close>

text \<open>
  The waiting messages in order of arrival with their priorities, whether the mailbox is closed,
  and whether a signal is pending. Pop takes the earliest of those with the least value.
\<close>

record 'm mb_spec =
  waiting :: "('m \<times> int) list"
  sealed :: bool
  signalled :: bool

definition best :: "('m \<times> int) list \<Rightarrow> int" where
  "best xs = Min (set (map snd xs))"

definition take_best :: "('m \<times> int) list \<Rightarrow> ('m \<times> ('m \<times> int) list) option" where
  "take_best xs =
     (case dropWhile (\<lambda>x. snd x \<noteq> best xs) xs of
        [] \<Rightarrow> None
      | x # post \<Rightarrow> Some (fst x, takeWhile (\<lambda>x. snd x \<noteq> best xs) xs @ post))"

fun mb_spec_do :: "int \<Rightarrow> 'm mb_call \<Rightarrow> 'm mb_spec \<Rightarrow> 'm mb_answer \<times> 'm mb_spec" where
  "mb_spec_do n (MPush e p) s =
     (if sealed s \<or> n > 0 \<and> int (length (waiting s)) \<ge> n then (MBool False, s)
      else (MBool True, s\<lparr>waiting := waiting s @ [(e, p)], signalled := True\<rparr>))"
| "mb_spec_do n MPop s =
     (case take_best (waiting s) of
        None \<Rightarrow> (MMsg None, s)
      | Some (e, xs) \<Rightarrow> (MMsg (Some e), s\<lparr>waiting := xs\<rparr>))"
| "mb_spec_do n MSize s = (MInt (int (length (waiting s))), s)"
| "mb_spec_do n MIsEmpty s = (MBool (waiting s = []), s)"
| "mb_spec_do n MClose s = (MUnit, s\<lparr>sealed := True\<rparr>)"
| "mb_spec_do n MTryWait s = (MBool (signalled s), s\<lparr>signalled := False\<rparr>)"

definition mb_spec_new :: "'m mb_spec" where
  "mb_spec_new = \<lparr>waiting = [], sealed = False, signalled = False\<rparr>"

section \<open>The simulation\<close>

definition entry_of :: "'m message \<Rightarrow> 'm \<times> int" where
  "entry_of m = (executable m, priority m)"

text \<open>\<open>ms\<close>: the messages in the heap in order of arrival, i.e.\ of their sequence numbers.\<close>

definition arrived :: "64 word \<Rightarrow> 'm message list \<Rightarrow> bool" where
  "arrived s ms \<longleftrightarrow> sorted_wrt (\<lambda>a b. seq a < seq b) ms \<and> (\<forall>m\<in>set ms. seq m \<le> s)"

definition mb_sim ::
  "('h \<Rightarrow> bool) \<Rightarrow> ('h \<Rightarrow> 'm message multiset) \<Rightarrow> int \<Rightarrow> nat \<Rightarrow> 'h mailbox \<Rightarrow> 'm mb_spec \<Rightarrow> bool" where
  "mb_sim ok elems n k mb s \<longleftrightarrow>
     ok (heap mb) \<and> maxSize mb = n \<and> mb_closed mb = sealed s \<and> unat (mb_seq mb) \<le> k \<and>
     notify mb = (make_chan 1)\<lparr>cbuf := if signalled s then [()] else []\<rparr> \<and>
     (\<exists>ms. elems (heap mb) = mset ms \<and> waiting s = map entry_of ms \<and> arrived (mb_seq mb) ms)"

lemma arrived_snoc:
  assumes "arrived s ms" "unat s < 2 ^ 64 - 1" "seq m = s + 1"
  shows "arrived (s + 1) (ms @ [m])"
proof -
  have "s < s + 1"
    using assms(2) by (simp add: word_less_nat_alt unat_word_ariths)
  with assms(1,3) show ?thesis
    by (auto simp: arrived_def sorted_wrt_append dest: le_less_trans intro: less_imp_le)
qed

text \<open>
  The order of the heap is linear on priority and sequence number: as an instance of \<open>linorder\<close>
  it gets the library's lemmas on orders.
\<close>

datatype rank = Rank int "64 word"

instantiation rank :: linorder
begin

fun less_eq_rank :: "rank \<Rightarrow> rank \<Rightarrow> bool" where
  "less_eq_rank (Rank p s) (Rank q t) \<longleftrightarrow> p < q \<or> p = q \<and> s \<le> t"

fun less_rank :: "rank \<Rightarrow> rank \<Rightarrow> bool" where
  "less_rank (Rank p s) (Rank q t) \<longleftrightarrow> p < q \<or> p = q \<and> s < t"

instance
proof
  fix x y z :: rank
  show "x < y \<longleftrightarrow> x \<le> y \<and> \<not> y \<le> x" by (cases x; cases y) auto
  show "x \<le> x" by (cases x) simp
  show "x \<le> y \<Longrightarrow> y \<le> z \<Longrightarrow> x \<le> z" by (cases x; cases y; cases z) auto
  show "x \<le> y \<Longrightarrow> y \<le> x \<Longrightarrow> x = y" by (cases x; cases y) auto
  show "x \<le> y \<or> y \<le> x" by (cases x; cases y) auto
qed

end

definition rank_of :: "'m message \<Rightarrow> rank" where
  "rank_of m = Rank (priority m) (seq m)"

lemma msg_less_rank: "msg_less a b \<longleftrightarrow> rank_of a < rank_of b"
  by (simp add: msg_less_def rank_of_def)

lemma not_msg_less: "\<not> msg_less b a \<longleftrightarrow> rank_of a \<le> rank_of b"
  by (simp add: msg_less_rank not_less)

lemma not_less_priority: "\<not> msg_less y x \<Longrightarrow> priority x \<le> priority y"
  by (auto simp: not_msg_less rank_of_def)

text \<open>What the heap pops is the earliest message of the best priority.\<close>

lemma pop_is_best:
  assumes "arrived s ms" "mset ms = add_mset x M" "\<forall>y\<in>#M. \<not> msg_less y x"
  obtains ms' where "take_best (map entry_of ms) = Some (executable x, map entry_of ms')"
    "M = mset ms'" "arrived s ms'"
proof -
  have "x \<in> set ms"
    using assms(2) by (metis set_mset_mset union_single_eq_member)
  then obtain pre post where ms: "ms = pre @ x # post"
    by (auto simp: in_set_conv_decomp)
  with assms(2) have M: "M = mset (pre @ post)"
    by simp
  have le: "priority x \<le> priority y" if "y \<in> set ms" for y
    using that assms(3) M ms by (auto dest: not_less_priority)
  have ne: "priority y \<noteq> priority x" if "y \<in> set pre" for y
  proof -
    from that assms(1) have "seq y < seq x"
      by (simp add: ms arrived_def sorted_wrt_append)
    moreover from that assms(3) M have "\<not> msg_less y x"
      by simp
    ultimately show ?thesis
      by (auto simp: msg_less_def)
  qed
  have "best (map entry_of ms) = priority x"
    unfolding best_def using le ms by (intro Min_eqI) (auto simp: entry_of_def)
  then have "dropWhile (\<lambda>z. snd z \<noteq> best (map entry_of ms)) (map entry_of ms) = map entry_of (x # post)"
    "takeWhile (\<lambda>z. snd z \<noteq> best (map entry_of ms)) (map entry_of ms) = map entry_of pre"
    using ne by (simp_all add: ms dropWhile_append takeWhile_append entry_of_def dropWhile_map
        takeWhile_map comp_def)
  then have "take_best (map entry_of ms) = Some (executable x, map entry_of (pre @ post))"
    by (simp add: take_best_def entry_of_def)
  moreover have "arrived s (pre @ post)"
    using assms(1) by (auto simp: ms arrived_def sorted_wrt_append)
  ultimately show ?thesis
    using that M by blast
qed

lemma take_best_None: "take_best xs = None \<longleftrightarrow> xs = []"
proof
  show "take_best xs = None \<Longrightarrow> xs = []"
  proof (rule ccontr)
    assume "take_best xs = None" "xs \<noteq> []"
    then have "\<forall>x\<in>set xs. snd x \<noteq> best xs"
      by (auto simp: take_best_def split: list.splits)
    moreover have "best xs \<in> snd ` set xs"
      unfolding best_def using \<open>xs \<noteq> []\<close> Min_in [of "set (map snd xs)"] by simp
    ultimately show False
      by auto
  qed
qed (simp add: take_best_def)

lemma mb_do_sim:
  assumes laws: "heap_laws ops msg_less ok elems" and sim: "mb_sim ok elems n k mb s"
    and k: "k < 2 ^ 64 - 1"
  shows "fst (mb_do ops c mb) = fst (mb_spec_do n c s) \<and>
    mb_sim ok elems n (Suc k) (snd (mb_do ops c mb)) (snd (mb_spec_do n c s))"
proof -
  from sim obtain ms where ms: "elems (heap mb) = mset ms" "waiting s = map entry_of ms"
    "arrived (mb_seq mb) ms" and ok: "ok (heap mb)" and u: "unat (mb_seq mb) \<le> k"
    by (auto simp: mb_sim_def)
  from laws ok ms(1) have size: "heap_Size ops (heap mb) = int (length ms)"
    "heap_IsEmpty ops (heap mb) \<longleftrightarrow> ms = []"
    by (auto simp: heap_laws_def)
  show ?thesis
  proof (cases c)
    case (MPush e p)
    have "unat (mb_seq mb + 1) \<le> Suc k"
      using u k by (simp add: unat_word_ariths)
    moreover have "arrived (mb_seq mb + 1) (ms @ [\<lparr>executable = e, priority = p, seq = mb_seq mb + 1\<rparr>])"
      using u k by (intro arrived_snoc ms(3)) auto
    moreover have "ok (heap_Push ops m (heap mb))" "elems (heap_Push ops m (heap mb)) = mset (ms @ [m])" for m
      using laws ok ms(1) by (simp_all add: heap_laws_def)
    ultimately show ?thesis
      using sim ms(2) size MPush
      by (auto simp: mb_sim_def Push_def Let_def entry_of_def chan_try_send_def chan_send_def make_chan_def
          intro!: exI [of _ "ms @ [\<lparr>executable = e, priority = p, seq = mb_seq mb + 1\<rparr>]"])
  next
    case MPop
    show ?thesis
    proof (cases "heap_Pop ops (heap mb)")
      case None
      with laws ok ms(1) have "ms = []"
        by (auto simp: heap_laws_def split: option.splits)
      with None MPop sim ms(2) show ?thesis
        by (auto simp: mb_sim_def Pop_def take_best_def)
    next
      case (Some xh)
      then obtain x h where xh: "heap_Pop ops (heap mb) = Some (x, h)"
        by (cases xh) auto
      with laws ok have h: "ok h" "elems (heap mb) = add_mset x (elems h)" "\<forall>y\<in>#elems h. \<not> msg_less y x"
        by (fastforce simp: heap_laws_def split: option.splits)+
      from pop_is_best [OF ms(3) h(2) [unfolded ms(1)] h(3)] obtain ms' where
        "take_best (map entry_of ms) = Some (executable x, map entry_of ms')" "elems h = mset ms'"
        "arrived (mb_seq mb) ms'"
        by blast
      with xh h(1) MPop sim ms(2) show ?thesis
        by (auto simp: mb_sim_def Pop_def)
    qed
  qed (use sim ms size in \<open>auto simp: mb_sim_def mailbox_defs try_wait_def chan_recv_def\<close>)
qed

lemma history_sim:
  assumes "heap_laws ops msg_less ok elems"
  shows "mb_sim ok elems n k mb s \<Longrightarrow> k + length cs < 2 ^ 64 \<Longrightarrow>
    fst (history (mb_do ops) cs mb) = fst (history (mb_spec_do n) cs s)"
proof (induction cs arbitrary: k mb s)
  case (Cons c cs)
  from mb_do_sim [OF assms Cons.prems(1), of c] Cons.prems(2)
  have "fst (mb_do ops c mb) = fst (mb_spec_do n c s)"
    "mb_sim ok elems n (Suc k) (snd (mb_do ops c mb)) (snd (mb_spec_do n c s))"
    by auto
  with Cons.IH [OF this(2)] Cons.prems(2) show ?case
    by (simp add: case_prod_beta)
qed simp

lemma new_sim:
  assumes "heap_laws ops msg_less ok elems"
  shows "mb_sim ok elems n 0 (NewPriority ops n) mb_spec_new"
  using assms
  by (auto simp: mb_sim_def NewPriority_def mb_spec_new_def heap_laws_def make_chan_def arrived_def)

section \<open>Draining the specification\<close>

text \<open>Taking the best message again and again is the stable sort by priority.\<close>

lemma sort_key_least:
  assumes "\<forall>y\<in>set pre. f x < f y" "\<forall>y\<in>set post. f x \<le> f y"
  shows "sort_key f (pre @ x # post) = x # sort_key f (pre @ post)"
proof -
  have "foldr (insort_key f) pre (x # zs) = x # foldr (insort_key f) pre zs" for zs
    using assms(1) by (induction pre) auto
  moreover have "insort_key f x (sort_key f post) = x # sort_key f post"
    using assms(2) by (intro insort_is_Cons) simp
  ultimately show ?thesis
    by (simp add: sort_key_def)
qed

lemma take_best_sort:
  assumes "xs \<noteq> []"
  obtains x ys where "take_best xs = Some (fst x, ys)" "sort_key snd xs = x # sort_key snd ys"
    "length xs = Suc (length ys)"
proof -
  have min: "best xs \<le> snd y" if "y \<in> set xs" for y
    unfolding best_def using that by simp
  from assms obtain x post where x: "dropWhile (\<lambda>x. snd x \<noteq> best xs) xs = x # post"
    using take_best_None [of xs] by (auto simp: take_best_def split: list.splits)
  define pre where "pre = takeWhile (\<lambda>x. snd x \<noteq> best xs) xs"
  have xs: "xs = pre @ x # post"
    unfolding pre_def x [symmetric] by simp
  have best: "snd x = best xs"
    using hd_dropWhile [of "\<lambda>x. snd x \<noteq> best xs" xs] x by auto
  have "snd y \<noteq> best xs" if "y \<in> set pre" for y
    using that by (auto simp: pre_def dest: set_takeWhileD)
  then have "sort_key snd xs = x # sort_key snd (pre @ post)"
    using min best by (subst xs) (rule sort_key_least; fastforce simp: xs intro: le_neq_trans)
  moreover have "take_best xs = Some (fst x, pre @ post)"
    by (simp add: take_best_def x pre_def)
  ultimately show ?thesis
    using that xs by (metis length_append length_Cons add_Suc_right)
qed

lemma drain_spec:
  "waiting s = xs \<Longrightarrow> fst (history (mb_spec_do n) (replicate (length xs) MPop) s) =
     map (\<lambda>x. MMsg (Some (fst x))) (sort_key snd xs)"
proof (induction "length xs" arbitrary: xs s)
  case (Suc k)
  then have "xs \<noteq> []" by auto
  then obtain x ys where ys: "take_best xs = Some (fst x, ys)" "sort_key snd xs = x # sort_key snd ys"
    "length xs = Suc (length ys)"
    by (rule take_best_sort)
  with Suc.hyps(1) [of ys "s\<lparr>waiting := ys\<rparr>"] Suc.hyps(2) Suc.prems show ?case
    by (simp add: case_prod_beta)
qed simp

lemma fill_spec:
  assumes "n \<le> 0 \<or> int (length (waiting s) + length xs) \<le> n" "\<not> sealed s"
  shows "history (mb_spec_do n) (map (\<lambda>x. MPush (fst x) (snd x)) xs) s =
    (replicate (length xs) (MBool True), s\<lparr>waiting := waiting s @ xs, signalled := signalled s \<or> xs \<noteq> []\<rparr>)"
  using assms by (induction xs arbitrary: s) auto

section \<open>A heap\<close>

text \<open>
  An instance of the parameter that satisfies \<open>heap_laws\<close>: the list of the elements, from which
  Pop removes a least one.
\<close>

fun least_of :: "('a \<Rightarrow> 'a \<Rightarrow> bool) \<Rightarrow> 'a \<Rightarrow> 'a list \<Rightarrow> 'a" where
  "least_of lt x [] = x"
| "least_of lt x (y # ys) = least_of lt (if lt y x then y else x) ys"

definition list_heap :: "('a, ('a \<Rightarrow> 'a \<Rightarrow> bool) \<times> 'a list) heap_ops" where
  "list_heap =
     \<lparr>NewHeap = (\<lambda>lt. (lt, [])),
      heap_Push = (\<lambda>x h. (fst h, x # snd h)),
      heap_Pop = (\<lambda>h. case snd h of
          [] \<Rightarrow> None
        | x # xs \<Rightarrow> (let m = least_of (fst h) x xs in Some (m, fst h, remove1 m (x # xs)))),
      heap_Size = (\<lambda>h. int (length (snd h))),
      heap_IsEmpty = (\<lambda>h. snd h = [])\<rparr>"

lemma least_of_least:
  "least_of msg_less x xs \<in> set (x # xs) \<and> (\<forall>y\<in>set (x # xs). \<not> msg_less y (least_of msg_less x xs))"
proof (induction xs arbitrary: x)
  case Nil
  then show ?case by (simp add: not_msg_less)
next
  case (Cons z zs)
  define w where "w = (if msg_less z x then z else x)"
  then have le: "rank_of w \<le> rank_of x" "rank_of w \<le> rank_of z" and w: "w \<in> set (x # z # zs)"
    by (auto simp: msg_less_rank)
  define l where "l = least_of msg_less x (z # zs)"
  then have "l = least_of msg_less w zs"
    by (simp add: w_def)
  with Cons [of w] have l: "l \<in> set (w # zs)" "\<forall>y\<in>set (w # zs). rank_of l \<le> rank_of y"
    by (simp_all add: not_msg_less)
  then have "rank_of l \<le> rank_of x" "rank_of l \<le> rank_of z"
    using le by (auto intro: order_trans)
  with l w show ?case
    unfolding l_def [symmetric] by (auto simp: not_msg_less)
qed

lemma list_heap_laws:
  "heap_laws list_heap msg_less (\<lambda>h. fst h = msg_less) (\<lambda>h. mset (snd h))"
proof -
  have "case heap_Pop list_heap h of
      None \<Rightarrow> mset (snd h) = {#}
    | Some (x, h') \<Rightarrow> fst h' = msg_less \<and> mset (snd h) = add_mset x (mset (snd h')) \<and>
        (\<forall>y\<in>#mset (snd h'). \<not> msg_less y x)" if "fst h = msg_less" for h :: "_ \<times> 'a message list"
  proof (cases "snd h")
    case (Cons x xs)
    with that least_of_least [of x xs] show ?thesis
      by (auto simp: list_heap_def Let_def dest: notin_set_remove1 in_diffD)
  qed (simp add: list_heap_def)
  then show ?thesis
    by (simp add: heap_laws_def) (simp add: list_heap_def)
qed

section \<open>Properties\<close>

text \<open>
  C16: On any heap that behaves as documented, every sequence of fewer than 2^64 calls on a new
  priority mailbox gets the answers of the specification: Push is refused exactly on a closed or
  full mailbox (a maximum of 0 or less meaning none), Pop returns the earliest of the waiting
  messages with the least priority value, Size and IsEmpty count the waiting messages, and
  after an accepted Push exactly one signal is pending until it is received.
\<close>

theorem mailbox_refines_spec:
  assumes "heap_laws ops msg_less ok elems" "length cs < 2 ^ 64"
  shows "fst (history (mb_do ops) cs (NewPriority ops n)) = fst (history (mb_spec_do n) cs mb_spec_new)"
  using history_sim [OF assms(1) new_sim [OF assms(1)], of cs n] assms(2) by simp

theorem mailbox_refines_spec_witness:
  "fst (history (mb_do list_heap) [MPush ''a'' 2, MPush ''b'' 1, MPush ''c'' 1, MTryWait, MTryWait, MPop, MPop]
     (NewPriority list_heap 2)) =
   [MBool True, MBool True, MBool False, MBool True, MBool False, MMsg (Some ''b''), MMsg (Some ''a'')]"
proof -
  have "length [MPush ''a'' 2, MPush ''b'' 1, MPush ''c'' 1, MTryWait, MTryWait, MPop, MPop] < 2 ^ 64"
    by simp
  from mailbox_refines_spec [OF list_heap_laws this] show ?thesis
    by (simp add: mb_spec_new_def take_best_def best_def)
qed

text \<open>
  C38: Messages put into a mailbox with room for them come out stably sorted: by priority, and
  in order of arrival within the same priority; none is lost, duplicated or altered.
\<close>

theorem mailbox_sorts_stably:
  assumes "heap_laws ops msg_less ok elems" "2 * length xs < 2 ^ 64" "n \<le> 0 \<or> int (length xs) \<le> n"
  shows "fst (history (mb_do ops)
      (map (\<lambda>x. MPush (fst x) (snd x)) xs @ replicate (length xs) MPop) (NewPriority ops n)) =
    replicate (length xs) (MBool True) @ map (\<lambda>x. MMsg (Some (fst x))) (sort_key snd xs)"
proof -
  have "fst (history (mb_do ops) (map (\<lambda>x. MPush (fst x) (snd x)) xs @ replicate (length xs) MPop) (NewPriority ops n)) =
    fst (history (mb_spec_do n) (map (\<lambda>x. MPush (fst x) (snd x)) xs @ replicate (length xs) MPop) mb_spec_new)"
    using assms(2) by (intro history_sim [OF assms(1) new_sim [OF assms(1)]]) simp
  then show ?thesis
    using fill_spec [of n mb_spec_new xs] assms(3)
    by (simp add: history_append mb_spec_new_def case_prod_beta drain_spec)
qed

theorem mailbox_sorts_stably_witness:
  "fst (history (mb_do list_heap)
      ([MPush ''a'' (priority_value NormalPriority), MPush ''b'' (priority_value SystemPriority),
        MPush ''c'' (priority_value NormalPriority)] @ [MPop, MPop, MPop]) (NewPriority list_heap 3)) =
   [MBool True, MBool True, MBool True, MMsg (Some ''b''), MMsg (Some ''a''), MMsg (Some ''c'')]"
  using mailbox_sorts_stably [OF list_heap_laws, of "[(''a'', 2), (''b'', 0), (''c'', 2)]" 3]
  by (simp add: sort_key_def)

end
