(* ===== verification/Actor_Config.thy ===== *)
theory Actor_Config
  imports Behavior
begin

text \<open>
  \<open>pkg/actor/goactor.go\<close>, the sequential part: the \<open>GoActor\<close> record, its options, New, and
  the accessors. What the actor's goroutine and its callers do is in \<open>Actor_Loop\<close>.
\<close>

section \<open>States\<close>

datatype actor_state =
    Initialized
  | Started
  | Stopping
  | Done
  | StoppedWithError
  | Canceled
  | Panicked

fun state_code :: "actor_state \<Rightarrow> 64 word" where
  "state_code Initialized = 0"
| "state_code Started = 1"
| "state_code Stopping = 2"
| "state_code Done = 3"
| "state_code StoppedWithError = 4"
| "state_code Canceled = 5"
| "state_code Panicked = 6"

lemma state_code_inject [simp]: "state_code s = state_code t \<longleftrightarrow> s = t"
  by (cases s; cases t) auto

section \<open>The actor\<close>

text \<open>
  User objects (providers, hooks, middleware and handlers passed to Become) are addresses. A
  handler is the one Start builds from the configured middleware, or one of user code.
\<close>

datatype handler_id = Built "nat list" | UserHandler nat

datatype hooks_impl = NoopHooks | UserHooks nat

text \<open>
  The fields of \<open>GoActor\<close>. The channels \<open>done\<close>, \<open>ready\<close> and \<open>stop\<close> only ever get closed, so
  their state is one flag each. \<open>behavior\<close> is the stack inside \<open>actorCtx\<close>.
\<close>

record 'm goactor =
  receiveTimeout :: int
  inputBufSize :: int
  ga_state :: actor_state
  input :: "'m chan"
  done_closed :: bool
  ready_closed :: bool
  stop_closed :: bool
  hooks :: "hooks_impl option"
  provider :: "nat option"
  name :: string
  middleware :: "nat list"
  handler :: "handler_id option"
  actorCtx :: "handler_id go_actor_context option"

type_synonym 'm actor_option = "'m goactor \<Rightarrow> 'm goactor"

definition WithInputBufferSize :: "int \<Rightarrow> 'm actor_option" where
  "WithInputBufferSize n = (\<lambda>a. a\<lparr>inputBufSize := n\<rparr>)"

definition WithReceiveTimeout :: "int \<Rightarrow> 'm actor_option" where
  "WithReceiveTimeout t = (\<lambda>a. a\<lparr>receiveTimeout := t\<rparr>)"

definition WithProvider :: "nat option \<Rightarrow> 'm actor_option" where
  "WithProvider p = (\<lambda>a. a\<lparr>provider := p\<rparr>)"

definition WithName :: "string \<Rightarrow> 'm actor_option" where
  "WithName n = (\<lambda>a. a\<lparr>name := n\<rparr>)"

definition WithHooks :: "hooks_impl option \<Rightarrow> 'm actor_option" where
  "WithHooks h = (\<lambda>a. a\<lparr>hooks := h\<rparr>)"

definition WithMiddleware :: "nat list \<Rightarrow> 'm actor_option" where
  "WithMiddleware ms = (\<lambda>a. a\<lparr>middleware := middleware a @ ms\<rparr>)"

lemmas option_defs = WithInputBufferSize_def WithReceiveTimeout_def WithProvider_def
  WithName_def WithHooks_def WithMiddleware_def

declare option_defs [op_defs]

text \<open>A Duration is a number of nanoseconds; the zero value of every field not named is set.\<close>

definition second :: int where "second = 1000000000"

definition default_actor :: "'m goactor" where
  "default_actor =
     \<lparr>receiveTimeout = 5 * second, inputBufSize = 1, ga_state = Initialized, input = make_chan 0,
      done_closed = False, ready_closed = False, stop_closed = False, hooks = None,
      provider = None, name = [], middleware = [], handler = None, actorCtx = None\<rparr>"

text \<open>New returns an actor or an error; \<open>make\<close> of a channel of negative size panics.\<close>

datatype 'm new_result = NewActor "'m goactor" | NewError gerror | NewPanics gopanic

definition New :: "'m actor_option list \<Rightarrow> 'm new_result" where
  "New opts =
     (let a = fold (\<lambda>opt a. opt a) opts default_actor
      in if provider a = None then NewError (ActorErr ErrActorNilProvider)
         else
           (let a1 = (if hooks a = None then a\<lparr>hooks := Some NoopHooks\<rparr> else a)
            in if inputBufSize a1 < 0
               then NewPanics (PanicError (RuntimeErr MakeSizeOutOfRange))
               else NewActor (a1\<lparr>input := make_chan (nat (inputBufSize a1)),
                 done_closed := False, ready_closed := False, stop_closed := False,
                 ga_state := Initialized\<rparr>)))"

definition State :: "('m, 'x) goactor_scheme \<Rightarrow> 64 word" where
  "State ga = state_code (ga_state ga)"

definition CheckState :: "64 word \<Rightarrow> ('m, 'x) goactor_scheme \<Rightarrow> gerror option" where
  "CheckState st ga =
     (let current = state_code (ga_state ga)
      in if current \<noteq> st then Some (StateMismatch st current) else None)"

definition InputBufferSize :: "('m, 'x) goactor_scheme \<Rightarrow> int" where
  "InputBufferSize ga = inputBufSize ga"

definition Name :: "('m, 'x) goactor_scheme \<Rightarrow> string" where
  "Name ga = name ga"

text \<open>An actor New can have built: not started, empty channels, hooks and provider set.\<close>

definition fresh_actor :: "'m goactor \<Rightarrow> bool" where
  "fresh_actor ga \<longleftrightarrow>
     ga_state ga = Initialized \<and> provider ga \<noteq> None \<and> hooks ga \<noteq> None \<and> 0 \<le> inputBufSize ga \<and>
     input ga = make_chan (nat (inputBufSize ga)) \<and>
     \<not> done_closed ga \<and> \<not> ready_closed ga \<and> \<not> stop_closed ga"

lemma New_fresh: "New opts = NewActor ga \<Longrightarrow> fresh_actor ga"
  by (auto simp: New_def Let_def fresh_actor_def split: if_splits)

section \<open>Options\<close>

text \<open>The options of the package, as data, to speak of lists of them.\<close>

datatype config_opt =
    OptBuffer int | OptTimeout int | OptProvider "nat option" | OptName string
  | OptHooks "hooks_impl option" | OptMiddleware "nat list"

fun opt_of :: "config_opt \<Rightarrow> 'm actor_option" where
  "opt_of (OptBuffer n) = WithInputBufferSize n"
| "opt_of (OptTimeout t) = WithReceiveTimeout t"
| "opt_of (OptProvider p) = WithProvider p"
| "opt_of (OptName n) = WithName n"
| "opt_of (OptHooks h) = WithHooks h"
| "opt_of (OptMiddleware ms) = WithMiddleware ms"

text \<open>The last setting of a kind, and all middleware in order.\<close>

fun last_setting :: "(config_opt \<Rightarrow> 'a option) \<Rightarrow> 'a \<Rightarrow> config_opt list \<Rightarrow> 'a" where
  "last_setting f d [] = d"
| "last_setting f d (c # cs) = last_setting f (case f c of None \<Rightarrow> d | Some x \<Rightarrow> x) cs"

fun buffer_setting :: "config_opt \<Rightarrow> int option" where
  "buffer_setting (OptBuffer n) = Some n"
| "buffer_setting c = None"

fun timeout_setting :: "config_opt \<Rightarrow> int option" where
  "timeout_setting (OptTimeout t) = Some t"
| "timeout_setting c = None"

fun provider_setting :: "config_opt \<Rightarrow> nat option option" where
  "provider_setting (OptProvider p) = Some p"
| "provider_setting c = None"

fun name_setting :: "config_opt \<Rightarrow> string option" where
  "name_setting (OptName n) = Some n"
| "name_setting c = None"

fun middleware_setting :: "config_opt \<Rightarrow> nat list" where
  "middleware_setting (OptMiddleware ms) = ms"
| "middleware_setting c = []"

definition configured :: "config_opt list \<Rightarrow> 'm goactor" where
  "configured cs = fold (\<lambda>opt a. opt a) (map opt_of cs) default_actor"

lemma fold_option_fields:
  fixes a :: "'m goactor"
  shows "inputBufSize (fold (\<lambda>opt a. opt a) (map opt_of cs) a) = last_setting buffer_setting (inputBufSize a) cs \<and>
    receiveTimeout (fold (\<lambda>opt a. opt a) (map opt_of cs) a) = last_setting timeout_setting (receiveTimeout a) cs \<and>
    provider (fold (\<lambda>opt a. opt a) (map opt_of cs) a) = last_setting provider_setting (provider a) cs \<and>
    name (fold (\<lambda>opt a. opt a) (map opt_of cs) a) = last_setting name_setting (name a) cs \<and>
    middleware (fold (\<lambda>opt a. opt a) (map opt_of cs) a) = middleware a @ concat (map middleware_setting cs)"
proof (induction cs arbitrary: a)
  case Nil
  then show ?case by simp
next
  case (Cons c cs)
  from Cons [of "opt_of c a"] show ?case by (cases c) (simp_all add: option_defs)
qed

lemma configured_fields:
  "inputBufSize (configured cs) = last_setting buffer_setting 1 cs"
  "receiveTimeout (configured cs) = last_setting timeout_setting (5 * second) cs"
  "provider (configured cs) = last_setting provider_setting None cs"
  "name (configured cs) = last_setting name_setting [] cs"
  "middleware (configured cs) = concat (map middleware_setting cs)"
  by (simp_all add: configured_def fold_option_fields) (simp_all add: default_actor_def)

lemma New_configured:
  "New (map opt_of cs) =
     (let a = configured cs in
      if provider a = None then NewError (ActorErr ErrActorNilProvider)
      else if inputBufSize a < 0 then NewPanics (PanicError (RuntimeErr MakeSizeOutOfRange))
      else NewActor (a\<lparr>hooks := Some (case hooks a of None \<Rightarrow> NoopHooks | Some h \<Rightarrow> h),
        input := make_chan (nat (inputBufSize a)), done_closed := False, ready_closed := False,
        stop_closed := False, ga_state := Initialized\<rparr>))"
  by (auto simp: New_def Let_def configured_def split: option.splits)

section \<open>Properties\<close>

text \<open>
  New applies its options in order, the last setting of a kind winning and the
  middleware of all WithMiddleware options concatenated: without a provider it fails with
  ErrActorNilProvider, with a negative buffer size it panics, and otherwise it returns an
  actor in state Initialized with open, empty channels whose input buffer has the configured
  size (1 by default), the configured timeout (5 s by default), name and middleware, and
  hooks that are never nil.
\<close>

theorem new_actor_configuration:
  "case New (map opt_of cs) of
     NewError e \<Rightarrow> e = ActorErr ErrActorNilProvider \<and> last_setting provider_setting None cs = None
   | NewPanics p \<Rightarrow> last_setting provider_setting None cs \<noteq> None \<and>
       last_setting buffer_setting 1 cs < 0
   | NewActor ga \<Rightarrow> provider ga = last_setting provider_setting None cs \<and> fresh_actor ga \<and>
       InputBufferSize ga = last_setting buffer_setting 1 cs \<and>
       receiveTimeout ga = last_setting timeout_setting (5 * second) cs \<and>
       Name ga = last_setting name_setting [] cs \<and>
       middleware ga = concat (map middleware_setting cs)"
  by (auto simp: New_configured Let_def configured_fields fresh_actor_def InputBufferSize_def Name_def)

end
