(* ===== verification/Actor_Loop.thy ===== *)
theory Actor_Loop
  imports Actor_Config
begin

text \<open>
  \<open>pkg/actor/goactor.go\<close>, the concurrent part, as a labelled machine. Its state is the
  \<open>GoActor\<close> record together with the program counters of the goroutines that use it: calls
  of Start (each with the goroutine it spawns), Receive, Stop and WaitReady, numbered by
  \<open>nat\<close>. One step is one atomic action of the source: an atomic load, store or
  compare-and-swap, a channel operation or the choice of a ready case of a select, a close, a
  call of user code (hook or handler). User code may do anything its interface allows: the
  label says whether it panicked and which behavior changes a handler made.
\<close>

section \<open>Program counters\<close>

datatype 'e start_pc =
    SIdle
  | SProvide
  | SHook 'e
  | SGo 'e
  | SRet "gerror option"
  | SPanicked gopanic

text \<open>
  The goroutine of Start: \<open>LSpawned\<close> before the store of Started, \<open>LStored\<close> before
  \<open>close(ga.ready)\<close>, \<open>LAfterStart\<close> before the AfterStart hook, \<open>LSelect\<close> at the outer select,
  \<open>LGot m\<close> at the inner one, \<open>LRun m\<close> in the handler, \<open>LRecover v\<close> in catchPanic after the
  handler, \<open>LHandleCtx e\<close> in handleCtxErr, \<open>LBeforeStop\<close> before the BeforeStop hook, \<open>LExit\<close>
  before the deferred \<open>close(ga.done)\<close>.
\<close>

datatype 'm loop_pc =
    NoLoop
  | LSpawned
  | LStored
  | LAfterStart
  | LSelect
  | LGot 'm
  | LRun 'm
  | LRecover gopanic
  | LHandleCtx gerror
  | LBeforeStop
  | LExit
  | LEnded

datatype 'm recv_pc = RIdle | RSelect 'm | RRet "gerror option"

datatype stop_pc =
    TIdle
  | TFailed
  | TClose
  | TWait
  | TAfter
  | TRet "gerror option"
  | TPanicked gopanic

datatype wait_pc = WIdle | WRet "gerror option"

datatype 'e hook_call =
    BeforeStart 'e
  | AfterStart
  | BeforeStop 'e
  | AfterStop
  | OnError gerror

section \<open>The state\<close>

text \<open>
  \<open>start_ctx i\<close> is the error of the context given to the Start call \<open>i\<close> (\<open>None\<close>: not done),
  \<open>call_ctx j\<close> that of the Receive or WaitReady call \<open>j\<close>. The last fields record history:
  hooks called, messages accepted by Receive (nil returned), taken from the channel, handed to
  a handler. \<open>crash\<close> is a panic no goroutine of the library recovers: it ends the process.
\<close>

record ('m, 'e) actor_sys = "'m goactor" +
  start_ctx :: "nat \<Rightarrow> gerror option"
  call_ctx :: "nat \<Rightarrow> gerror option"
  starts :: "nat \<Rightarrow> 'e start_pc"
  loops :: "nat \<Rightarrow> 'm loop_pc"
  entity_of :: "nat \<Rightarrow> 'e option"
  recvs :: "nat \<Rightarrow> 'm recv_pc"
  stops :: "nat \<Rightarrow> stop_pc"
  waits :: "nat \<Rightarrow> wait_pc"
  hook_calls :: "'e hook_call list"
  accepted :: "'m list"
  taken :: "'m list"
  executed :: "(handler_id \<times> 'm) list"
  crash :: "gopanic option"

definition sys_of :: "'m goactor \<Rightarrow> ('m, 'e) actor_sys" where
  "sys_of ga = goactor.extend ga
     \<lparr>start_ctx = (\<lambda>_. None), call_ctx = (\<lambda>_. None), starts = (\<lambda>_. SIdle), loops = (\<lambda>_. NoLoop),
      entity_of = (\<lambda>_. None), recvs = (\<lambda>_. RIdle), stops = (\<lambda>_. TIdle), waits = (\<lambda>_. WIdle),
      hook_calls = [], accepted = [], taken = [], executed = [], crash = None\<rparr>"

section \<open>Labels\<close>

text \<open>What a hook did: it returned, or it panicked, and what OnError did then in catchPanic.\<close>

datatype hook_result = HookOk | HookPanics gopanic "gopanic option"

text \<open>What \<open>provider.Provide()\<close> and \<open>entity.IsProvidable()\<close> gave.\<close>

datatype 'e provided = NilEntity | NotProvidable 'e | Providable 'e | ProvidePanics gopanic

datatype ('m, 'e) label =
    CtxDone nat gerror
  | CallCtxDone nat gerror
  | StartCheck nat
  | StartProvide nat "'e provided"
  | StartHook nat hook_result
  | StartGo nat
  | LoopStore nat
  | LoopReady nat
  | LoopAfterStart nat hook_result
  | LoopCtx nat
  | LoopStop nat
  | LoopTake nat
  | LoopMeet nat nat
  | LoopRun nat
  | LoopReturn nat "handler_id bop list" "gopanic option"
  | LoopRecover nat "gopanic option"
  | LoopHandleCtx nat "gopanic option"
  | LoopBeforeStop nat hook_result
  | LoopExit nat
  | RecvCall nat "'m option"
  | RecvSend nat
  | RecvStop nat
  | RecvCtx nat
  | RecvTimer nat
  | StopCAS nat
  | StopFail nat
  | StopClose nat
  | StopDone nat
  | StopTimer nat "gopanic option"
  | StopAfter nat hook_result
  | WaitOk nat
  | WaitCtx nat
  | WaitTimer nat

section \<open>Helpers of the source\<close>

definition close_panic :: gopanic where
  "close_panic = PanicError (RuntimeErr CloseOfClosedChannel)"

definition index_panic :: gopanic where
  "index_panic = PanicError (RuntimeErr IndexOutOfRange)"

fun panic_error :: "gopanic \<Rightarrow> gerror" where
  "panic_error (PanicError e) = e"
| "panic_error (PanicValue n) = PanicText n"

definition call_hook :: "'e hook_call \<Rightarrow> ('m, 'e) actor_sys \<Rightarrow> ('m, 'e) actor_sys" where
  "call_hook c s = s\<lparr>hook_calls := hook_calls s @ [c]\<rparr>"

text \<open>The no-op hooks never panic; hooks of user code may.\<close>

definition hook_may :: "gopanic option \<Rightarrow> ('m, 'e) actor_sys \<Rightarrow> bool" where
  "hook_may p s \<longleftrightarrow> p = None \<or> hooks s \<noteq> Some NoopHooks"

definition hook_allowed :: "hook_result \<Rightarrow> ('m, 'e) actor_sys \<Rightarrow> bool" where
  "hook_allowed r s \<longleftrightarrow> r = HookOk \<or> hooks s \<noteq> Some NoopHooks"

text \<open>
  catchPanic on a recovered value \<open>v\<close>: the store of Panicked, then OnError with the joined
  error; a panic of OnError itself goes on to the caller.
\<close>

definition catchPanic :: "gopanic \<Rightarrow> ('m, 'e) actor_sys \<Rightarrow> ('m, 'e) actor_sys" where
  "catchPanic v s =
     call_hook (OnError (Joined [ActorErr ErrActorPanic, panic_error v])) (s\<lparr>ga_state := Panicked\<rparr>)"

text \<open>\<open>func() { defer ga.catchPanic(); <hook c> }()\<close>: the state after it, and what escapes.\<close>

fun guarded_hook ::
  "'e hook_call \<Rightarrow> hook_result \<Rightarrow> ('m, 'e) actor_sys \<Rightarrow> ('m, 'e) actor_sys \<times> gopanic option" where
  "guarded_hook c HookOk s = (call_hook c s, None)"
| "guarded_hook c (HookPanics v q) s = (catchPanic v (call_hook c s), q)"

definition handleCtxErr :: "gerror option \<Rightarrow> ('m, 'e) actor_sys \<Rightarrow> ('m, 'e) actor_sys" where
  "handleCtxErr err s =
     (case err of
        None \<Rightarrow> s
      | Some e \<Rightarrow>
          if errors_is e CtxCanceled
          then call_hook (OnError (ActorErr ErrActorContextCanceled)) (s\<lparr>ga_state := Canceled\<rparr>)
          else if errors_is e CtxDeadlineExceeded
          then call_hook (OnError (ActorErr ErrActorContextDeadlineExceeded))
            (s\<lparr>ga_state := StoppedWithError\<rparr>)
          else call_hook (OnError e) (s\<lparr>ga_state := StoppedWithError\<rparr>))"

definition set_start :: "nat \<Rightarrow> 'e start_pc \<Rightarrow> ('m, 'e) actor_sys \<Rightarrow> ('m, 'e) actor_sys" where
  "set_start i pc s = s\<lparr>starts := (starts s)(i := pc)\<rparr>"

definition set_loop :: "nat \<Rightarrow> 'm loop_pc \<Rightarrow> ('m, 'e) actor_sys \<Rightarrow> ('m, 'e) actor_sys" where
  "set_loop i pc s = s\<lparr>loops := (loops s)(i := pc)\<rparr>"

definition set_recv :: "nat \<Rightarrow> 'm recv_pc \<Rightarrow> ('m, 'e) actor_sys \<Rightarrow> ('m, 'e) actor_sys" where
  "set_recv j pc s = s\<lparr>recvs := (recvs s)(j := pc)\<rparr>"

definition set_stop :: "nat \<Rightarrow> stop_pc \<Rightarrow> ('m, 'e) actor_sys \<Rightarrow> ('m, 'e) actor_sys" where
  "set_stop k pc s = s\<lparr>stops := (stops s)(k := pc)\<rparr>"

definition set_wait :: "nat \<Rightarrow> wait_pc \<Rightarrow> ('m, 'e) actor_sys \<Rightarrow> ('m, 'e) actor_sys" where
  "set_wait w pc s = s\<lparr>waits := (waits s)(w := pc)\<rparr>"

text \<open>A panic that escapes a goroutine's last frame ends the process; else it goes on at \<open>pc\<close>.\<close>

definition loop_goes_on ::
  "nat \<Rightarrow> 'm loop_pc \<Rightarrow> ('m, 'e) actor_sys \<times> gopanic option \<Rightarrow> ('m, 'e) actor_sys" where
  "loop_goes_on i pc r =
     (case r of (s, None) \<Rightarrow> set_loop i pc s | (s, Some v) \<Rightarrow> s\<lparr>crash := Some v\<rparr>)"

section \<open>Start\<close>

text \<open>
  The four parts of Start: CheckState; Provide and its checks with buildHandler and the new
  behavior stack; the BeforeStart hook; the go statement.
\<close>

definition start_check :: "nat \<Rightarrow> ('m, 'e) actor_sys \<Rightarrow> ('m, 'e) actor_sys option" where
  "start_check i s =
     (case starts s i of
        SIdle \<Rightarrow>
          Some (case CheckState (state_code Initialized) s of
                  Some err \<Rightarrow> set_start i (SRet (Some err)) s
                | None \<Rightarrow> set_start i SProvide s)
      | _ \<Rightarrow> None)"

definition start_provide :: "nat \<Rightarrow> 'e provided \<Rightarrow> ('m, 'e) actor_sys \<Rightarrow> ('m, 'e) actor_sys option" where
  "start_provide i pv s =
     (case starts s i of
        SProvide \<Rightarrow>
          Some (case pv of
                  ProvidePanics v \<Rightarrow> set_start i (SPanicked v) s
                | NilEntity \<Rightarrow> set_start i (SRet (Some (ActorErr ErrActorNilEntity))) s
                | NotProvidable e \<Rightarrow> set_start i (SRet (Some (ActorErr ErrActorNilEntity))) s
                | Providable e \<Rightarrow>
                    (let h = Built (middleware s)
                     in set_start i (SHook e)
                          (s\<lparr>handler := Some h,
                            actorCtx := Some \<lparr>ac_behavior = newBehaviorStack h, ac_name = name s\<rparr>\<rparr>)))
      | _ \<Rightarrow> None)"

definition start_hook :: "nat \<Rightarrow> hook_result \<Rightarrow> ('m, 'e) actor_sys \<Rightarrow> ('m, 'e) actor_sys option" where
  "start_hook i r s =
     (case starts s i of
        SHook e \<Rightarrow>
          if hook_allowed r s
          then Some (case guarded_hook (BeforeStart e) r s of
                       (s', None) \<Rightarrow> set_start i (SGo e) s'
                     | (s', Some v) \<Rightarrow> set_start i (SPanicked v) s')
          else None
      | _ \<Rightarrow> None)"

definition start_go :: "nat \<Rightarrow> ('m, 'e) actor_sys \<Rightarrow> ('m, 'e) actor_sys option" where
  "start_go i s =
     (case starts s i of
        SGo e \<Rightarrow>
          Some (set_start i (SRet None)
            (set_loop i LSpawned (s\<lparr>entity_of := (entity_of s)(i := Some e)\<rparr>)))
      | _ \<Rightarrow> None)"

section \<open>The goroutine\<close>

definition loop_store :: "nat \<Rightarrow> ('m, 'e) actor_sys \<Rightarrow> ('m, 'e) actor_sys option" where
  "loop_store i s =
     (if loops s i = LSpawned then Some (set_loop i LStored (s\<lparr>ga_state := Started\<rparr>)) else None)"

definition loop_ready :: "nat \<Rightarrow> ('m, 'e) actor_sys \<Rightarrow> ('m, 'e) actor_sys option" where
  "loop_ready i s =
     (if loops s i = LStored
      then Some (if ready_closed s then s\<lparr>crash := Some close_panic\<rparr>
                 else set_loop i LAfterStart (s\<lparr>ready_closed := True\<rparr>))
      else None)"

definition loop_after_start :: "nat \<Rightarrow> hook_result \<Rightarrow> ('m, 'e) actor_sys \<Rightarrow> ('m, 'e) actor_sys option" where
  "loop_after_start i r s =
     (if loops s i = LAfterStart \<and> hook_allowed r s
      then Some (loop_goes_on i LSelect (guarded_hook AfterStart r s)) else None)"

text \<open>At either select the context or the stop channel may be chosen when it is ready.\<close>

definition at_select :: "'m loop_pc \<Rightarrow> bool" where
  "at_select pc \<longleftrightarrow> (case pc of LSelect \<Rightarrow> True | LGot m \<Rightarrow> True | _ \<Rightarrow> False)"

definition loop_ctx :: "nat \<Rightarrow> ('m, 'e) actor_sys \<Rightarrow> ('m, 'e) actor_sys option" where
  "loop_ctx i s =
     (if at_select (loops s i) then map_option (\<lambda>e. set_loop i (LHandleCtx e) s) (start_ctx s i)
      else None)"

definition loop_stop :: "nat \<Rightarrow> ('m, 'e) actor_sys \<Rightarrow> ('m, 'e) actor_sys option" where
  "loop_stop i s =
     (if at_select (loops s i) \<and> stop_closed s then Some (set_loop i LBeforeStop s) else None)"

definition loop_take :: "nat \<Rightarrow> ('m, 'e) actor_sys \<Rightarrow> ('m, 'e) actor_sys option" where
  "loop_take i s =
     (if loops s i = LSelect
      then (case chan_recv (input s) of
              Received m c \<Rightarrow> Some (set_loop i (LGot m) (s\<lparr>input := c, taken := taken s @ [m]\<rparr>))
            | _ \<Rightarrow> None)
      else None)"

text \<open>With an unbuffered channel the receiver meets a waiting sender \<open>j\<close>.\<close>

definition loop_meet :: "nat \<Rightarrow> nat \<Rightarrow> ('m, 'e) actor_sys \<Rightarrow> ('m, 'e) actor_sys option" where
  "loop_meet i j s =
     (if loops s i = LSelect \<and> ccap (input s) = 0
      then (case recvs s j of
              RSelect m \<Rightarrow>
                Some (set_loop i (LGot m) (set_recv j (RRet None)
                  (s\<lparr>accepted := accepted s @ [m], taken := taken s @ [m]\<rparr>)))
            | _ \<Rightarrow> None)
      else None)"

text \<open>The default case of the inner select: no other case is ready; the current behavior runs.\<close>

definition loop_run :: "nat \<Rightarrow> ('m, 'e) actor_sys \<Rightarrow> ('m, 'e) actor_sys option" where
  "loop_run i s =
     (case loops s i of
        LGot m \<Rightarrow>
          if start_ctx s i = None \<and> \<not> stop_closed s
          then Some (case Option.bind (actorCtx s) (\<lambda>ac. Current (ac_behavior ac)) of
                       None \<Rightarrow> set_loop i (LRecover index_panic) s
                     | Some h \<Rightarrow> set_loop i (LRun m) (s\<lparr>executed := executed s @ [(h, m)]\<rparr>))
          else None
      | _ \<Rightarrow> None)"

text \<open>The handler made the behavior calls \<open>ps\<close> and then returned, or panicked.\<close>

definition loop_return ::
  "nat \<Rightarrow> handler_id bop list \<Rightarrow> gopanic option \<Rightarrow> ('m, 'e) actor_sys \<Rightarrow> ('m, 'e) actor_sys option" where
  "loop_return i ps p s =
     (case loops s i of
        LRun m \<Rightarrow>
          Some (case Option.bind (actorCtx s) (apply_bops ps) of
                  None \<Rightarrow> set_loop i (LRecover index_panic) s
                | Some (rs, ac) \<Rightarrow>
                    set_loop i (case p of None \<Rightarrow> LSelect | Some v \<Rightarrow> LRecover v)
                      (s\<lparr>actorCtx := Some ac\<rparr>))
      | _ \<Rightarrow> None)"

definition loop_recover :: "nat \<Rightarrow> gopanic option \<Rightarrow> ('m, 'e) actor_sys \<Rightarrow> ('m, 'e) actor_sys option" where
  "loop_recover i q s =
     (case loops s i of
        LRecover v \<Rightarrow>
          if hook_may q s then Some (loop_goes_on i LSelect (catchPanic v s, q)) else None
      | _ \<Rightarrow> None)"

definition loop_handle_ctx :: "nat \<Rightarrow> gopanic option \<Rightarrow> ('m, 'e) actor_sys \<Rightarrow> ('m, 'e) actor_sys option" where
  "loop_handle_ctx i q s =
     (case loops s i of
        LHandleCtx e \<Rightarrow>
          if hook_may q s then Some (loop_goes_on i LExit (handleCtxErr (Some e) s, q)) else None
      | _ \<Rightarrow> None)"

definition loop_before_stop :: "nat \<Rightarrow> hook_result \<Rightarrow> ('m, 'e) actor_sys \<Rightarrow> ('m, 'e) actor_sys option" where
  "loop_before_stop i r s =
     (if loops s i = LBeforeStop \<and> hook_allowed r s
      then map_option (\<lambda>e. loop_goes_on i LExit (guarded_hook (BeforeStop e) r s)) (entity_of s i)
      else None)"

definition loop_exit :: "nat \<Rightarrow> ('m, 'e) actor_sys \<Rightarrow> ('m, 'e) actor_sys option" where
  "loop_exit i s =
     (if loops s i = LExit
      then Some (if done_closed s then s\<lparr>crash := Some close_panic\<rparr>
                 else set_loop i LEnded (s\<lparr>done_closed := True\<rparr>))
      else None)"

section \<open>Receive\<close>

definition recv_call :: "nat \<Rightarrow> 'm option \<Rightarrow> ('m, 'e) actor_sys \<Rightarrow> ('m, 'e) actor_sys option" where
  "recv_call j e s =
     (case recvs s j of
        RIdle \<Rightarrow>
          Some (case e of
                  None \<Rightarrow> set_recv j (RRet (Some (ActorErr ErrActorReceiveNil))) s
                | Some m \<Rightarrow>
                    (case ga_state s of
                       Started \<Rightarrow> set_recv j (RSelect m) s
                     | Initialized \<Rightarrow> set_recv j (RRet (Some (ActorErr ErrActorNotStarted))) s
                     | _ \<Rightarrow> set_recv j (RRet (Some (ActorErr ErrActorReceiveOnStopped))) s))
      | _ \<Rightarrow> None)"

text \<open>The cases of the select in processExecutable and processExecutableWithTimeout.\<close>

definition recv_send :: "nat \<Rightarrow> ('m, 'e) actor_sys \<Rightarrow> ('m, 'e) actor_sys option" where
  "recv_send j s =
     (case recvs s j of
        RSelect m \<Rightarrow>
          (case chan_send m (input s) of
             Sent c \<Rightarrow> Some (set_recv j (RRet None) (s\<lparr>input := c, accepted := accepted s @ [m]\<rparr>))
           | _ \<Rightarrow> None)
      | _ \<Rightarrow> None)"

definition recv_stop :: "nat \<Rightarrow> ('m, 'e) actor_sys \<Rightarrow> ('m, 'e) actor_sys option" where
  "recv_stop j s =
     (case recvs s j of
        RSelect m \<Rightarrow>
          if stop_closed s
          then Some (set_recv j (RRet (Some (ActorErr ErrActorReceiveOnStopped))) s) else None
      | _ \<Rightarrow> None)"

definition recv_ctx :: "nat \<Rightarrow> ('m, 'e) actor_sys \<Rightarrow> ('m, 'e) actor_sys option" where
  "recv_ctx j s =
     (case recvs s j of
        RSelect m \<Rightarrow> map_option (\<lambda>e. set_recv j (RRet (Some e)) s) (call_ctx s j)
      | _ \<Rightarrow> None)"

definition recv_timer :: "nat \<Rightarrow> ('m, 'e) actor_sys \<Rightarrow> ('m, 'e) actor_sys option" where
  "recv_timer j s =
     (case recvs s j of
        RSelect m \<Rightarrow>
          if receiveTimeout s = 0 then None
          else Some (set_recv j (RRet (Some (ActorErr ErrActorReceiveTimeout))) s)
      | _ \<Rightarrow> None)"

section \<open>Stop\<close>

definition stop_cas :: "nat \<Rightarrow> ('m, 'e) actor_sys \<Rightarrow> ('m, 'e) actor_sys option" where
  "stop_cas k s =
     (if stops s k = TIdle
      then Some (if ga_state s = Started then set_stop k TClose (s\<lparr>ga_state := Stopping\<rparr>)
                 else set_stop k TFailed s)
      else None)"

definition stop_fail :: "nat \<Rightarrow> ('m, 'e) actor_sys \<Rightarrow> ('m, 'e) actor_sys option" where
  "stop_fail k s =
     (if stops s k = TFailed
      then Some (set_stop k (TRet (Some (StateMismatch (state_code Started) (State s)))) s)
      else None)"

definition stop_close :: "nat \<Rightarrow> ('m, 'e) actor_sys \<Rightarrow> ('m, 'e) actor_sys option" where
  "stop_close k s =
     (if stops s k = TClose
      then Some (if stop_closed s then set_stop k (TPanicked close_panic) s
                 else set_stop k TWait (s\<lparr>stop_closed := True\<rparr>))
      else None)"

definition stop_done :: "nat \<Rightarrow> ('m, 'e) actor_sys \<Rightarrow> ('m, 'e) actor_sys option" where
  "stop_done k s =
     (if stops s k = TWait \<and> done_closed s then Some (set_stop k TAfter (s\<lparr>ga_state := Done\<rparr>))
      else None)"

definition stop_timer :: "nat \<Rightarrow> gopanic option \<Rightarrow> ('m, 'e) actor_sys \<Rightarrow> ('m, 'e) actor_sys option" where
  "stop_timer k q s =
     (if stops s k = TWait \<and> hook_may q s
      then Some (set_stop k (case q of None \<Rightarrow> TAfter | Some v \<Rightarrow> TPanicked v)
        (call_hook (OnError (ActorErr ErrActorGracefulStopTimeout)) (s\<lparr>ga_state := StoppedWithError\<rparr>)))
      else None)"

definition stop_after :: "nat \<Rightarrow> hook_result \<Rightarrow> ('m, 'e) actor_sys \<Rightarrow> ('m, 'e) actor_sys option" where
  "stop_after k r s =
     (if stops s k = TAfter \<and> hook_allowed r s
      then Some (case guarded_hook AfterStop r s of
                   (s', None) \<Rightarrow> set_stop k (TRet None) s'
                 | (s', Some v) \<Rightarrow> set_stop k (TPanicked v) s')
      else None)"

section \<open>WaitReady\<close>

definition wait_ok :: "nat \<Rightarrow> ('m, 'e) actor_sys \<Rightarrow> ('m, 'e) actor_sys option" where
  "wait_ok w s =
     (if waits s w = WIdle \<and> ready_closed s then Some (set_wait w (WRet None) s) else None)"

definition wait_ctx :: "nat \<Rightarrow> ('m, 'e) actor_sys \<Rightarrow> ('m, 'e) actor_sys option" where
  "wait_ctx w s =
     (if waits s w = WIdle then map_option (\<lambda>e. set_wait w (WRet (Some e)) s) (call_ctx s w)
      else None)"

definition wait_timer :: "nat \<Rightarrow> ('m, 'e) actor_sys \<Rightarrow> ('m, 'e) actor_sys option" where
  "wait_timer w s =
     (if waits s w = WIdle then Some (set_wait w (WRet (Some CtxDeadlineExceeded)) s) else None)"

section \<open>The machine\<close>

text \<open>A context becomes done once and keeps its error.\<close>

definition ctx_done :: "nat \<Rightarrow> gerror \<Rightarrow> ('m, 'e) actor_sys \<Rightarrow> ('m, 'e) actor_sys option" where
  "ctx_done i e s =
     (if start_ctx s i = None then Some (s\<lparr>start_ctx := (start_ctx s)(i := Some e)\<rparr>) else None)"

definition call_ctx_done :: "nat \<Rightarrow> gerror \<Rightarrow> ('m, 'e) actor_sys \<Rightarrow> ('m, 'e) actor_sys option" where
  "call_ctx_done j e s =
     (if call_ctx s j = None then Some (s\<lparr>call_ctx := (call_ctx s)(j := Some e)\<rparr>) else None)"

fun action :: "('m, 'e) label \<Rightarrow> ('m, 'e) actor_sys \<Rightarrow> ('m, 'e) actor_sys option" where
  "action (CtxDone i e) s = ctx_done i e s"
| "action (CallCtxDone j e) s = call_ctx_done j e s"
| "action (StartCheck i) s = start_check i s"
| "action (StartProvide i pv) s = start_provide i pv s"
| "action (StartHook i r) s = start_hook i r s"
| "action (StartGo i) s = start_go i s"
| "action (LoopStore i) s = loop_store i s"
| "action (LoopReady i) s = loop_ready i s"
| "action (LoopAfterStart i r) s = loop_after_start i r s"
| "action (LoopCtx i) s = loop_ctx i s"
| "action (LoopStop i) s = loop_stop i s"
| "action (LoopTake i) s = loop_take i s"
| "action (LoopMeet i j) s = loop_meet i j s"
| "action (LoopRun i) s = loop_run i s"
| "action (LoopReturn i ps p) s = loop_return i ps p s"
| "action (LoopRecover i q) s = loop_recover i q s"
| "action (LoopHandleCtx i q) s = loop_handle_ctx i q s"
| "action (LoopBeforeStop i r) s = loop_before_stop i r s"
| "action (LoopExit i) s = loop_exit i s"
| "action (RecvCall j e) s = recv_call j e s"
| "action (RecvSend j) s = recv_send j s"
| "action (RecvStop j) s = recv_stop j s"
| "action (RecvCtx j) s = recv_ctx j s"
| "action (RecvTimer j) s = recv_timer j s"
| "action (StopCAS k) s = stop_cas k s"
| "action (StopFail k) s = stop_fail k s"
| "action (StopClose k) s = stop_close k s"
| "action (StopDone k) s = stop_done k s"
| "action (StopTimer k q) s = stop_timer k q s"
| "action (StopAfter k r) s = stop_after k r s"
| "action (WaitOk w) s = wait_ok w s"
| "action (WaitCtx w) s = wait_ctx w s"
| "action (WaitTimer w) s = wait_timer w s"

text \<open>After a crash nothing moves.\<close>

definition actor_step :: "('m, 'e) label \<Rightarrow> ('m, 'e) actor_sys \<Rightarrow> ('m, 'e) actor_sys option" where
  "actor_step l s = (if crash s = None then action l s else None)"

lemmas action_defs = ctx_done_def call_ctx_done_def start_check_def start_provide_def
  start_hook_def start_go_def loop_store_def loop_ready_def loop_after_start_def loop_ctx_def
  loop_stop_def loop_take_def loop_meet_def loop_run_def loop_return_def loop_recover_def
  loop_handle_ctx_def loop_before_stop_def loop_exit_def recv_call_def recv_send_def
  recv_stop_def recv_ctx_def recv_timer_def stop_cas_def stop_fail_def stop_close_def
  stop_done_def stop_timer_def stop_after_def wait_ok_def wait_ctx_def wait_timer_def

lemmas helper_defs = set_start_def set_loop_def set_recv_def set_stop_def set_wait_def
  loop_goes_on_def call_hook_def catchPanic_def handleCtxErr_def

lemmas step_splits = option.split if_split start_pc.split loop_pc.split recv_pc.split
  stop_pc.split wait_pc.split hook_result.split provided.split recv_result.split
  send_result.split actor_state.split prod.split

end
