(* ===== verification/Actor_Safety.thy ===== *)
theory Actor_Safety
  imports Actor_Loop
begin

text \<open>
  What the machine of \<open>Actor_Loop\<close> never does, for an actor New built and one Start call (the
  labels of other Start calls are excluded by \<open>solo\<close>; \<open>Actor_Liveness\<close> shows what two concurrent
  ones do). The invariants are predicates on the few fields each speaks of: lifecycle flags
  (\<open>life_ok\<close>), Stop calls (\<open>stop_ok\<close>), the queue (\<open>queue_ok\<close>), the behavior stack
  (\<open>behavior_ok\<close>) and the reason the loop ends (\<open>exit_ok\<close>).
\<close>

section \<open>One Start call\<close>

fun solo :: "('m, 'e) label \<Rightarrow> bool" where
  "solo (CtxDone i e) \<longleftrightarrow> i = 0"
| "solo (StartCheck i) \<longleftrightarrow> i = 0"
| "solo (StartProvide i pv) \<longleftrightarrow> i = 0"
| "solo (StartHook i r) \<longleftrightarrow> i = 0"
| "solo (StartGo i) \<longleftrightarrow> i = 0"
| "solo (LoopStore i) \<longleftrightarrow> i = 0"
| "solo (LoopReady i) \<longleftrightarrow> i = 0"
| "solo (LoopAfterStart i r) \<longleftrightarrow> i = 0"
| "solo (LoopCtx i) \<longleftrightarrow> i = 0"
| "solo (LoopStop i) \<longleftrightarrow> i = 0"
| "solo (LoopTake i) \<longleftrightarrow> i = 0"
| "solo (LoopMeet i j) \<longleftrightarrow> i = 0"
| "solo (LoopRun i) \<longleftrightarrow> i = 0"
| "solo (LoopReturn i ps p) \<longleftrightarrow> i = 0"
| "solo (LoopRecover i q) \<longleftrightarrow> i = 0"
| "solo (LoopHandleCtx i q) \<longleftrightarrow> i = 0"
| "solo (LoopBeforeStop i r) \<longleftrightarrow> i = 0"
| "solo (LoopExit i) \<longleftrightarrow> i = 0"
| "solo l \<longleftrightarrow> True"

definition begun :: "'m loop_pc \<Rightarrow> bool" where "begun pc \<longleftrightarrow> pc \<noteq> NoLoop"
fun started :: "'m loop_pc \<Rightarrow> bool" where "started NoLoop \<longleftrightarrow> False" | "started LSpawned \<longleftrightarrow> False"| "started pc \<longleftrightarrow> True"
fun readied :: "'m loop_pc \<Rightarrow> bool" where "readied LStored \<longleftrightarrow> False" | "readied pc \<longleftrightarrow> started pc"
fun ended :: "'m loop_pc \<Rightarrow> bool" where "ended LEnded \<longleftrightarrow> True" | "ended pc \<longleftrightarrow> False"

definition life_ok :: "'e start_pc \<Rightarrow> 'm loop_pc \<Rightarrow> bool \<Rightarrow> bool \<Rightarrow> actor_state \<Rightarrow> bool" where
  "life_ok sp lp r d st \<longleftrightarrow>
     (sp = SRet None) = begun lp \<and> r = readied lp \<and> d = ended lp \<and> (st = Done \<longrightarrow> ended lp)"

fun past_cas :: "stop_pc \<Rightarrow> bool" where
  "past_cas TClose \<longleftrightarrow> True"
| "past_cas TWait \<longleftrightarrow> True"
| "past_cas TAfter \<longleftrightarrow> True"
| "past_cas (TRet err) \<longleftrightarrow> err = None"
| "past_cas (TPanicked v) \<longleftrightarrow> True"
| "past_cas pc \<longleftrightarrow> False"

definition stop_ok :: "actor_state \<Rightarrow> bool \<Rightarrow> (nat \<Rightarrow> stop_pc) \<Rightarrow> bool \<Rightarrow> bool" where
  "stop_ok st b tf sc \<longleftrightarrow>
  (\<forall>k. past_cas (tf k) \<longrightarrow> st \<noteq> Started \<and> b) \<and>
  (\<forall>k k'. past_cas (tf k) \<longrightarrow> past_cas (tf k') \<longrightarrow> k = k') \<and>
  (sc \<longleftrightarrow> (\<exists>k. past_cas (tf k) \<and> tf k \<noteq> TClose)) \<and>
  (\<not> b \<longrightarrow> st = Initialized \<or> st = Panicked) \<and> (b \<longrightarrow> st \<noteq> Initialized)"

lemma stop_ok_move:
  assumes "stop_ok st b tf sc" "past_cas (tf k) = past_cas pc" "tf k \<noteq> TClose" "pc \<noteq> TClose"
  shows "stop_ok st b (tf(k := pc)) sc"
proof -
  have "past_cas ((tf(k := pc)) j) = past_cas (tf j)" and
    "((tf(k := pc)) j = TClose) = (tf j = TClose)" for j
    using assms(2-4) by auto
  then show ?thesis
    using assms(1) unfolding stop_ok_def by presburger
qed

lemma stop_ok_cas:
  assumes "stop_ok Started b tf sc"
  shows "stop_ok Stopping b (tf(k := TClose)) sc"
proof -
  from assms have "\<not> past_cas (tf j)" for j
    unfolding stop_ok_def by blast
  moreover from this assms have "b" "\<not> sc"
    unfolding stop_ok_def by auto
  ultimately show ?thesis
    unfolding stop_ok_def by auto
qed

lemma stop_ok_close:
  assumes "stop_ok st b tf sc" "tf k = TClose"
  shows "\<not> sc" "stop_ok st b (tf(k := TWait)) True"
proof -
  from assms have only: "past_cas (tf j) \<longleftrightarrow> j = k" for j
    unfolding stop_ok_def by (metis past_cas.simps(1))
  with assms show "\<not> sc"
    unfolding stop_ok_def by auto
  have "st \<noteq> Started \<and> b"
    using assms only unfolding stop_ok_def by blast
  with assms(1) only show "stop_ok st b (tf(k := TWait)) True"
    unfolding stop_ok_def by auto
qed

lemma stop_ok_state:
  "stop_ok st b tf sc \<Longrightarrow> st' \<noteq> Started \<Longrightarrow> st' \<noteq> Initialized \<Longrightarrow> b \<or> st' = Panicked \<Longrightarrow> stop_ok st' b tf sc"
  unfolding stop_ok_def by blast

lemma stop_ok_start:
  assumes "stop_ok st False tf sc"
  shows "stop_ok Started True tf sc"
  using assms unfolding stop_ok_def by auto

lemma guarded_hook_cases:
  "guarded_hook c r s =
     (case r of HookOk \<Rightarrow> (call_hook c s, None)
      | HookPanics v q \<Rightarrow> (catchPanic v (call_hook c s), q))"
  by (cases r) simp_all

definition behavior_ok :: "'e start_pc \<Rightarrow> 'm loop_pc \<Rightarrow> handler_id go_actor_context option \<Rightarrow> 'e option \<Rightarrow> bool" where
  "behavior_ok sp lp ac ent \<longleftrightarrow>
    (begun lp \<or> (\<exists>e. sp = SHook e \<or> sp = SGo e) \<longrightarrow> (\<exists>a. ac = Some a \<and> stack_wf (ac_behavior a))) \<and>
    (begun lp \<longrightarrow> ent \<noteq> None)"

fun hand_ok :: "'m loop_pc \<Rightarrow> 'm list \<Rightarrow> 'm list \<Rightarrow> bool" where
  "hand_ok (LGot m) tk xs \<longleftrightarrow> tk = xs @ [m]"
| "hand_ok (LHandleCtx e) tk xs \<longleftrightarrow> tk = xs \<or> (\<exists>m. tk = xs @ [m])"
| "hand_ok LBeforeStop tk xs \<longleftrightarrow> tk = xs \<or> (\<exists>m. tk = xs @ [m])"
| "hand_ok LExit tk xs \<longleftrightarrow> tk = xs \<or> (\<exists>m. tk = xs @ [m])"
| "hand_ok LEnded tk xs \<longleftrightarrow> tk = xs \<or> (\<exists>m. tk = xs @ [m])"
| "hand_ok pc tk xs \<longleftrightarrow> tk = xs"

definition queue_ok :: "'m list \<Rightarrow> 'm list \<Rightarrow> (handler_id \<times> 'm) list \<Rightarrow> 'm chan \<Rightarrow> 'm loop_pc \<Rightarrow> bool" where
  "queue_ok acc tk ex inp lp \<longleftrightarrow> acc = tk @ cbuf inp \<and> \<not> cclosed inp \<and> chan_wf inp \<and> hand_ok lp tk (map snd ex)"

lemma stop_ok_move_state:
  assumes "stop_ok st b tf sc" "past_cas (tf k) = past_cas pc" "tf k \<noteq> TClose" "pc \<noteq> TClose"
    "st' \<noteq> Started" "st' \<noteq> Initialized" "b \<or> st' = Panicked"
  shows "stop_ok st' b (tf(k := pc)) sc"
  using stop_ok_state [OF stop_ok_move [OF assms(1-4)] assms(5-7)] .

lemma stop_ok_past:
  assumes "stop_ok st b tf sc" "past_cas (tf k)" "past_cas pc" "tf k \<noteq> TClose" "pc \<noteq> TClose"
    "st' \<noteq> Started" "st' \<noteq> Initialized"
  shows "stop_ok st' b (tf(k := pc)) sc"
  using stop_ok_move_state [OF assms(1)] assms(2-7) assms(1) [unfolded stop_ok_def] by blast

definition life_inv where "life_inv s \<longleftrightarrow> life_ok (starts s 0) (loops s 0) (ready_closed s) (done_closed s) (ga_state s)"
definition stop_inv where "stop_inv s \<longleftrightarrow> stop_ok (ga_state s) (started (loops s 0)) (stops s) (stop_closed s)"
definition behavior_inv where "behavior_inv s \<longleftrightarrow> behavior_ok (starts s 0) (loops s 0) (actorCtx s) (entity_of s 0)"
definition queue_inv where "queue_inv s \<longleftrightarrow> queue_ok (accepted s) (taken s) (executed s) (input s) (loops s 0)"


fun exit_ok :: "'m loop_pc \<Rightarrow> gerror option \<Rightarrow> bool \<Rightarrow> bool" where
  "exit_ok (LHandleCtx e) ctx sc \<longleftrightarrow> ctx = Some e"
| "exit_ok LBeforeStop ctx sc \<longleftrightarrow> sc"
| "exit_ok LExit ctx sc \<longleftrightarrow> sc \<or> ctx \<noteq> None"
| "exit_ok LEnded ctx sc \<longleftrightarrow> sc \<or> ctx \<noteq> None"
| "exit_ok pc ctx sc \<longleftrightarrow> True"

definition exit_inv :: "('m, 'e) actor_sys \<Rightarrow> bool" where
  "exit_inv s \<longleftrightarrow> exit_ok (loops s 0) (start_ctx s 0) (stop_closed s)"

lemmas branch_simps = action_defs guarded_hook_cases at_select_def CheckState_def Let_def
  hook_allowed_def hook_may_def

lemma life_action:
  assumes "life_inv s" "solo l"
  shows "keeps life_inv (action l s)"
  using assms
  by (cases l; simp add: branch_simps helper_defs life_inv_def life_ok_def begun_def
        split: step_splits; (intro conjI impI allI)?; clarsimp)

lemma exit_action:
  assumes "exit_inv s" "solo l"
  shows "keeps exit_inv (action l s)"
  using assms
  by (cases l; simp add: branch_simps helper_defs exit_inv_def split: step_splits;
        (intro conjI impI allI)?; (cases "loops s 0"; clarsimp)?)

lemma current_behavior:
  assumes "behavior_inv s" "loops s 0 \<noteq> NoLoop"
  obtains h where "Option.bind (actorCtx s) (\<lambda>ac. Current (ac_behavior ac)) = Some h"
  using assms by (auto simp: behavior_inv_def behavior_ok_def begun_def Current_abs)

lemma queue_action:
  assumes "queue_inv s" "life_inv s" "behavior_inv s" "solo l"
  shows "keeps queue_inv (action l s)"
  using assms
  by (cases l; simp add: branch_simps helper_defs queue_inv_def queue_ok_def chan_recv_def
        chan_send_def chan_wf_def begun_def life_inv_def life_ok_def split: step_splits list.split;
      (intro conjI impI allI)?; clarsimp; (elim current_behavior; simp)?)

lemma new_stack_wf: "stack_wf (newBehaviorStack h)"
  by (simp add: stack_wf_def newBehaviorStack_def)

lemma apply_bops_wf:
  "apply_bops ps ac = Some (rs, ac') \<Longrightarrow> stack_wf (ac_behavior ac) \<Longrightarrow> stack_wf (ac_behavior ac')"
  using apply_bops_refines [of ac ps] by auto

lemma behavior_action:
  assumes "behavior_inv s" "solo l"
  shows "keeps behavior_inv (action l s)"
  using assms
  by (cases l; simp add: branch_simps helper_defs behavior_inv_def behavior_ok_def begun_def
        new_stack_wf split: step_splits;
      (intro conjI impI allI)?; clarsimp simp: new_stack_wf elim!: apply_bops_wf)

lemma stop_action:
  assumes "stop_inv s" "life_inv s" "solo l"
  shows "keeps stop_inv (action l s)"
  using assms
  apply (cases l; simp add: branch_simps helper_defs stop_inv_def life_inv_def life_ok_def
        begun_def split: step_splits; (intro conjI impI allI)?; clarsimp)
  apply (erule stop_ok_start | (drule stop_ok_close(1); simp; fail)
        | (erule stop_ok_close(2); simp; fail) | erule stop_ok_cas
        | (erule stop_ok_move; simp; fail) | (erule stop_ok_state; simp; fail)
        | (erule stop_ok_past; simp; fail))+
  done

text \<open>Every Receive call that returned nil has one accepted message.\<close>

definition recv_ok :: "(nat \<Rightarrow> 'm recv_pc) \<Rightarrow> 'm list \<Rightarrow> bool" where
  "recv_ok rf acc \<longleftrightarrow> finite {j. rf j = RRet None} \<and> card {j. rf j = RRet None} = length acc"

lemma recv_ok_accept:
  assumes "recv_ok rf acc" "rf j = RSelect m"
  shows "recv_ok (rf(j := RRet None)) (acc @ [m])"
proof -
  have "{i. (rf(j := RRet None)) i = RRet None} = insert j {i. rf i = RRet None}"
    by auto
  with assms show ?thesis
    by (simp add: recv_ok_def)
qed

lemma recv_ok_move:
  assumes "recv_ok rf acc" "rf j \<noteq> RRet None" "pc \<noteq> RRet None"
  shows "recv_ok (rf(j := pc)) acc"
proof -
  have "{i. (rf(j := pc)) i = RRet None} = {i. rf i = RRet None}"
    using assms(2,3) by auto
  with assms(1) show ?thesis
    by (simp add: recv_ok_def)
qed

definition recv_inv :: "('m, 'e) actor_sys \<Rightarrow> bool" where
  "recv_inv s \<longleftrightarrow> recv_ok (recvs s) (accepted s)"

lemma recv_action:
  assumes "recv_inv s"
  shows "keeps recv_inv (action l s)"
  using assms
  by (cases l; simp add: branch_simps helper_defs recv_inv_def split: step_splits;
      (intro conjI impI allI)?; clarsimp simp: recv_ok_accept recv_ok_move)

definition actor_inv :: "('m, 'e) actor_sys \<Rightarrow> bool" where
  "actor_inv s \<longleftrightarrow> life_inv s \<and> stop_inv s \<and> queue_inv s \<and> behavior_inv s \<and> exit_inv s \<and> recv_inv s"

lemma actor_inv_step:
  assumes l: "solo l" and "actor_inv s"
  shows "keeps actor_inv (actor_step l s)"
proof (cases "actor_step l s")
  case (Some t)
  then have t: "action l s = Some t"
    by (auto simp: actor_step_def split: if_splits)
  from assms(2) have "life_inv s" "stop_inv s" "queue_inv s" "behavior_inv s" "exit_inv s" "recv_inv s"
    by (simp_all add: actor_inv_def)
  with l show ?thesis
    using life_action [OF _ l, THEN keepsD, OF _ t] stop_action [OF _ _ l, THEN keepsD, OF _ _ t]
      queue_action [OF _ _ _ l, THEN keepsD, OF _ _ _ t]
      behavior_action [OF _ l, THEN keepsD, OF _ t] exit_action [OF _ l, THEN keepsD, OF _ t]
      recv_action [THEN keepsD, OF _ t]
    by (simp add: actor_inv_def Some)
qed simp

interpretation actor_machine: invariant_machine actor_step solo actor_inv
  by unfold_locales (rule actor_inv_step)

lemma sys_of_inv: "fresh_actor ga \<Longrightarrow> actor_inv (sys_of ga)"
  by (simp add: actor_inv_def life_inv_def life_ok_def stop_inv_def stop_ok_def queue_inv_def
      queue_ok_def behavior_inv_def behavior_ok_def exit_inv_def recv_inv_def recv_ok_def sys_of_def goactor.defs
      fresh_actor_def begun_def)

lemma run_inv:
  assumes "fresh_actor ga" "list_all solo ls" "runs actor_step ls (sys_of ga) = Some s"
  shows "actor_inv s"
  using actor_machine.runs_keeps [OF sys_of_inv [OF assms(1)] assms(2,3)] .

text \<open>What New configured stays as it is.\<close>

definition config_inv :: "'m goactor \<Rightarrow> ('m, 'e) actor_sys \<Rightarrow> bool" where
  "config_inv ga s \<longleftrightarrow>
     inputBufSize s = inputBufSize ga \<and> receiveTimeout s = receiveTimeout ga \<and>
     hooks s = hooks ga \<and> middleware s = middleware ga \<and> name s = name ga \<and>
     ccap (input s) = nat (inputBufSize ga)"

lemma config_step: "config_inv ga s \<Longrightarrow> keeps (config_inv ga) (actor_step l s)"
  by (cases l; simp add: actor_step_def branch_simps helper_defs config_inv_def chan_recv_def
      chan_send_def split: step_splits list.split)

interpretation config_machine: invariant_machine actor_step "\<lambda>_. True" "config_inv ga" for ga
  by unfold_locales (rule config_step)

lemma sys_of_config: "fresh_actor ga \<Longrightarrow> config_inv ga (sys_of ga)"
  by (simp add: config_inv_def sys_of_def goactor.defs fresh_actor_def)

lemma run_config:
  assumes "fresh_actor ga" "runs actor_step ls (sys_of ga) = Some s"
  shows "config_inv ga s"
  using config_machine.runs_keeps [OF sys_of_config [OF assms(1)] _ assms(2)] by (simp add: list_all_iff)

section \<open>Sample runs\<close>

text \<open>Start to the end on an entity \<open>e\<close> with hooks that return, from a fresh actor.\<close>

definition boot :: "'e \<Rightarrow> ('m, 'e) label list" where
  "boot e = [StartCheck 0, StartProvide 0 (Providable e), StartHook 0 HookOk, StartGo 0,
     LoopStore 0, LoopReady 0, LoopAfterStart 0 HookOk]"

definition booted :: "'m goactor \<Rightarrow> 'e \<Rightarrow> ('m, 'e) actor_sys" where
  "booted ga e = (sys_of ga)
     \<lparr>ga_state := Started, ready_closed := True, handler := Some (Built (middleware ga)),
      actorCtx := Some \<lparr>ac_behavior = newBehaviorStack (Built (middleware ga)), ac_name = name ga\<rparr>,
      starts := (\<lambda>_. SIdle)(0 := SRet None), loops := (\<lambda>_. NoLoop)(0 := LSelect),
      entity_of := (\<lambda>_. None)(0 := Some e), hook_calls := [BeforeStart e, AfterStart]\<rparr>"

lemmas run_simps = actor_step_def branch_simps helper_defs sys_of_def goactor.defs
  chan_recv_def chan_send_def

lemma boot_runs: "fresh_actor ga \<Longrightarrow> runs actor_step (boot e) (sys_of ga) = Some (booted ga e)"
  by (simp add: boot_def booted_def run_simps fresh_actor_def)

lemma boot_solo: "list_all solo (boot e)"
  by (simp add: boot_def)

text \<open>An actor with a buffer of two messages, and a run on it: two messages, the first handled.\<close>

definition sample_actor :: "nat goactor" where
  "sample_actor = default_actor\<lparr>provider := Some 0, hooks := Some NoopHooks, inputBufSize := 2,
     input := make_chan 2\<rparr>"

definition sample_labels :: "(nat, nat) label list" where
  "sample_labels = boot 7 @ [RecvCall 0 (Some 10), RecvSend 0, RecvCall 1 (Some 11), RecvSend 1,
     LoopTake 0, LoopRun 0, LoopReturn 0 [] None]"

definition sample_state :: "(nat, nat) actor_sys" where
  "sample_state = the (runs actor_step sample_labels (sys_of sample_actor))"

lemma sample_fresh: "fresh_actor sample_actor"
  by (simp add: fresh_actor_def sample_actor_def default_actor_def)

lemma sample_solo: "list_all solo sample_labels"
  by (simp add: sample_labels_def boot_solo)

lemma sample_runs: "runs actor_step sample_labels (sys_of sample_actor) = Some sample_state"
  unfolding sample_state_def sample_labels_def runs_append boot_runs [OF sample_fresh]
  by (simp add: run_simps booted_def sample_actor_def default_actor_def Current_def newBehaviorStack_def)

lemma sample_state_eq:
  "sample_state = (booted sample_actor 7)
     \<lparr>input := (make_chan 2)\<lparr>cbuf := [11]\<rparr>, recvs := (\<lambda>_. RIdle)(0 := RRet None, 1 := RRet None),
      accepted := [10, 11], taken := [10], executed := [(Built [], 10)]\<rparr>"
  unfolding sample_state_def sample_labels_def runs_append boot_runs [OF sample_fresh]
  by (simp add: run_simps booted_def sample_actor_def default_actor_def Current_def
      newBehaviorStack_def make_chan_def)

lemma sample_fields:
  "ga_state sample_state = Started" "crash sample_state = None" "stops sample_state k = TIdle"
  "executed sample_state = [(Built [], 10)]" "accepted sample_state = [10, 11]"
  by (simp_all add: sample_state_eq booted_def sys_of_def goactor.defs)

section \<open>Properties\<close>

text \<open>
  C4: Messages are handled in the order in which Receive accepted them, none twice: what the
  handlers got is a prefix of what was accepted, the rest is in the buffer, which never holds
  more than the configured size, except for one message the goroutine has taken out, which it
  drops only when the context is done or the stop channel is closed. The Receive calls that
  returned nil are as many as the accepted messages.
\<close>

theorem messages_in_order:
  assumes "fresh_actor ga" "list_all solo ls" "runs actor_step ls (sys_of ga) = Some s"
  shows "\<exists>hand. accepted s = map snd (executed s) @ hand @ cbuf (input s) \<and> length hand \<le> 1 \<and>
    (hand \<noteq> [] \<longrightarrow> (\<exists>m. loops s 0 = LGot m) \<or> start_ctx s 0 \<noteq> None \<or> stop_closed s) \<and>
    int (length (cbuf (input s))) \<le> InputBufferSize ga \<and>
    card {j. recvs s j = RRet None} = length (accepted s)"
proof -
  from run_inv [OF assms] have "queue_inv s" "exit_inv s" "recv_inv s"
    by (simp_all add: actor_inv_def)
  moreover have "ccap (input s) = nat (inputBufSize ga)"
    using run_config [OF assms(1,3)] by (simp add: config_inv_def)
  moreover have "0 \<le> inputBufSize ga"
    using assms(1) by (simp add: fresh_actor_def)
  ultimately show ?thesis
    by (cases "loops s 0")
      (auto simp: queue_inv_def queue_ok_def exit_inv_def recv_inv_def recv_ok_def chan_wf_def
        InputBufferSize_def)
qed

theorem messages_in_order_witness:
  "\<exists>hand. [10, 11] = map snd [(Built [], 10)] @ hand @ cbuf (input sample_state) \<and>
    length hand \<le> 1 \<and> card {j. recvs sample_state j = RRet None} = 2"
  using messages_in_order [OF sample_fresh sample_solo sample_runs] by (auto simp: sample_fields)

text \<open>
  C22: On an actor that New built and on which Start is called once (\<open>solo\<close>), the library never closes a closed
  channel: when the goroutine is about to close the ready or the done channel, or a Stop call the stop
  channel, that channel is open; and at most one Stop call ever gets past its compare-and-swap, after which
  the state is never Started again. Two Start calls at the same time can close ready twice, and the process
  ends (\<open>concurrent_starts_crash\<close>).
\<close>

theorem closes_open_channels_only:
  assumes "fresh_actor ga" "list_all solo ls" "runs actor_step ls (sys_of ga) = Some s"
  shows "(loops s 0 = LStored \<longrightarrow> \<not> ready_closed s) \<and> (loops s 0 = LExit \<longrightarrow> \<not> done_closed s) \<and>
    (stops s k = TClose \<longrightarrow> \<not> stop_closed s) \<and>
    (past_cas (stops s k) \<longrightarrow> State s \<noteq> state_code Started \<and> (past_cas (stops s k') \<longrightarrow> k = k'))"
proof -
  from run_inv [OF assms] have "life_inv s" and st: "stop_inv s"
    by (simp_all add: actor_inv_def)
  moreover have "\<not> stop_closed s" if "stops s k = TClose"
    using st that by (auto simp: stop_inv_def dest: stop_ok_close(1))
  moreover have "ga_state s \<noteq> Started" "past_cas (stops s k') \<Longrightarrow> k = k'" if "past_cas (stops s k)"
    using st that by (auto simp: stop_inv_def stop_ok_def)
  ultimately show ?thesis
    by (auto simp: life_inv_def life_ok_def State_def simp del: state_code.simps)
qed

theorem closes_open_channels_only_witness:
  "past_cas (stops (the (actor_step (StopCAS 3) sample_state)) 3) \<and>
   State (the (actor_step (StopCAS 3) sample_state)) \<noteq> state_code Started"
proof -
  have step: "actor_step (StopCAS 3) sample_state = Some (the (actor_step (StopCAS 3) sample_state))"
    by (simp add: actor_step_def stop_cas_def sample_fields)
  have past: "past_cas (stops (the (actor_step (StopCAS 3) sample_state)) 3)"
    by (simp add: actor_step_def stop_cas_def sample_fields set_stop_def)
  from step have "runs actor_step (sample_labels @ [StopCAS 3]) (sys_of sample_actor)
    = Some (the (actor_step (StopCAS 3) sample_state))"
    using runs_snoc [OF sample_runs] by metis
  from closes_open_channels_only [OF sample_fresh _ this] past show ?thesis
    by (simp add: sample_solo)
qed

section \<open>The life cycle\<close>

inductive lifecycle :: "actor_state \<Rightarrow> actor_state \<Rightarrow> bool" where
  "st = Initialized \<or> st = Panicked \<Longrightarrow> lifecycle st Started"
| "lifecycle Started Stopping"
| "st \<noteq> Initialized \<Longrightarrow> st \<noteq> Started \<Longrightarrow> lifecycle st Done"
| "st \<noteq> Initialized \<Longrightarrow> lifecycle st StoppedWithError"
| "st \<noteq> Initialized \<Longrightarrow> st \<noteq> Done \<Longrightarrow> lifecycle st Canceled"
| "lifecycle st Panicked"

inductive_simps lifecycle_to:
  "lifecycle st Initialized" "lifecycle st Started" "lifecycle st Stopping" "lifecycle st Done"
  "lifecycle st StoppedWithError" "lifecycle st Canceled" "lifecycle st Panicked"

lemma stop_ok_wait: "stop_ok st b tf sc \<Longrightarrow> tf k = TWait \<Longrightarrow> st \<noteq> Initialized \<and> st \<noteq> Started"
  unfolding stop_ok_def by (metis past_cas.simps(2))

lemma stop_ok_begun: "stop_ok st b tf sc \<Longrightarrow> b \<Longrightarrow> st \<noteq> Initialized"
  unfolding stop_ok_def by blast

lemma stop_ok_idle: "stop_ok st b tf sc \<Longrightarrow> \<not> b \<Longrightarrow> st = Initialized \<or> st = Panicked"
  unfolding stop_ok_def by blast

lemma lifecycle_action:
  assumes "stop_inv s" "life_inv s" "solo l"
  shows "keeps (\<lambda>t. ga_state t = ga_state s \<or> lifecycle (ga_state s) (ga_state t)) (action l s)"
  using assms
  apply (cases l; simp add: branch_simps helper_defs stop_inv_def life_inv_def life_ok_def
        lifecycle_to begun_def split: step_splits; (intro conjI impI allI)?; clarsimp)
  apply ((drule stop_ok_begun stop_ok_wait stop_ok_idle; simp add: lifecycle_to; fail) | simp add: lifecycle_to)+
  done


text \<open>
  C6: The state of an actor moves only along these edges; it never returns to Initialized,
  is Done only after the goroutine has closed the done channel, and Stopping is entered from
  Started only.
\<close>

theorem lifecycle_edges:
  assumes "fresh_actor ga" "list_all solo (ls @ [l])" "runs actor_step ls (sys_of ga) = Some s"
    "actor_step l s = Some t"
  shows "(ga_state t = ga_state s \<or> lifecycle (ga_state s) (ga_state t)) \<and>
    (ga_state t = Done \<longrightarrow> done_closed t)"
proof -
  from assms(2) have ls: "list_all solo ls" and l: "solo l"
    by simp_all
  from run_inv [OF assms(1) ls assms(3)] have "life_inv s" "stop_inv s"
    by (simp_all add: actor_inv_def)
  moreover from assms(4) have t: "action l s = Some t"
    by (simp add: actor_step_def split: if_splits)
  ultimately show ?thesis
    using lifecycle_action [OF _ _ l, THEN keepsD, OF _ _ t] life_action [OF _ l, THEN keepsD, OF _ t]
    by (simp add: life_inv_def life_ok_def)
qed

theorem lifecycle_edges_witness:
  "lifecycle Started (ga_state (the (actor_step (StopCAS 0) sample_state)))"
proof -
  have step: "actor_step (StopCAS 0) sample_state = Some (the (actor_step (StopCAS 0) sample_state))"
    by (simp add: actor_step_def stop_cas_def sample_fields)
  have "ga_state (the (actor_step (StopCAS 0) sample_state)) \<noteq> Started"
    by (simp add: actor_step_def stop_cas_def sample_fields set_stop_def)
  with lifecycle_edges [OF sample_fresh _ sample_runs step] show ?thesis
    by (simp add: sample_solo sample_fields)
qed

end
