(* ===== verification/Actor_Liveness.thy ===== *)
theory Actor_Liveness
  imports Actor_Safety
begin

text \<open>
  What the machine of \<open>Actor_Loop\<close> does in the end. Shutdown: once the stop channel is closed
  or the context done, a rank of the goroutine's program counter bounds the steps it can still
  take. Progress: which calls can wait, and for what. And the two ways an actor can be left
  behind: after a handler panic, and a sender after the actor's context is done.
\<close>

section \<open>Shutdown\<close>

fun loop_label :: "('m, 'e) label \<Rightarrow> bool" where
  "loop_label (LoopStore i) \<longleftrightarrow> True"
| "loop_label (LoopReady i) \<longleftrightarrow> True"
| "loop_label (LoopAfterStart i r) \<longleftrightarrow> True"
| "loop_label (LoopCtx i) \<longleftrightarrow> True"
| "loop_label (LoopStop i) \<longleftrightarrow> True"
| "loop_label (LoopTake i) \<longleftrightarrow> True"
| "loop_label (LoopMeet i j) \<longleftrightarrow> True"
| "loop_label (LoopRun i) \<longleftrightarrow> True"
| "loop_label (LoopReturn i ps p) \<longleftrightarrow> True"
| "loop_label (LoopRecover i q) \<longleftrightarrow> True"
| "loop_label (LoopHandleCtx i q) \<longleftrightarrow> True"
| "loop_label (LoopBeforeStop i r) \<longleftrightarrow> True"
| "loop_label (LoopExit i) \<longleftrightarrow> True"
| "loop_label l \<longleftrightarrow> False"

fun pc_rank :: "'m loop_pc \<Rightarrow> nat" where
  "pc_rank NoLoop = 10"
| "pc_rank LSpawned = 9"
| "pc_rank LStored = 8"
| "pc_rank LAfterStart = 7"
| "pc_rank (LRun m) = 6"
| "pc_rank (LRecover v) = 5"
| "pc_rank LSelect = 4"
| "pc_rank (LGot m) = 3"
| "pc_rank (LHandleCtx e) = 2"
| "pc_rank LBeforeStop = 2"
| "pc_rank LExit = 1"
| "pc_rank LEnded = 0"

definition shutting_down :: "('m, 'e) actor_sys \<Rightarrow> bool" where
  "shutting_down s \<longleftrightarrow> stop_closed s \<or> start_ctx s 0 \<noteq> None"

text \<open>The steps the goroutine has left: none after a crash.\<close>

definition steps_left :: "('m, 'e) actor_sys \<Rightarrow> nat" where
  "steps_left s = (if crash s = None then pc_rank (loops s 0) else 0)"

lemma shutdown_action:
  assumes "shutting_down s" "life_inv s" "solo l" "crash s = None"
  shows "keeps (\<lambda>t. shutting_down t \<and> executed t = executed s \<and>
    (if loop_label l then 1 else 0) + steps_left t \<le> steps_left s) (action l s)"
  using assms
  by (cases l; simp add: branch_simps helper_defs shutting_down_def steps_left_def
        life_inv_def life_ok_def begun_def
        split: step_splits; (intro conjI impI allI)?; clarsimp split: loop_pc.splits)

lemma shutdown_runs:
  assumes "runs actor_step ls s = Some t" "list_all solo ls" "shutting_down s" "life_inv s"
  shows "shutting_down t \<and> executed t = executed s \<and>
    length (filter loop_label ls) + steps_left t \<le> steps_left s"
  using assms
proof (induction ls arbitrary: s)
  case Nil
  then show ?case by simp
next
  case (Cons l ls)
  then obtain u where u: "actor_step l s = Some u" "runs actor_step ls u = Some t"
    by (auto split: option.splits)
  then have a: "action l s = Some u" "crash s = None"
    by (auto simp: actor_step_def split: if_splits)
  from Cons.prems have l: "solo l" "list_all solo ls"
    by simp_all
  note 1 = shutdown_action [OF Cons.prems(3,4) l(1) a(2), THEN keepsD, OF a(1)]
  note 2 = life_action [OF Cons.prems(4) l(1), THEN keepsD, OF a(1)]
  from Cons.IH [OF u(2) l(2) _ 2] 1 show ?case
    by auto
qed

section \<open>Progress\<close>

text \<open>A label the goroutine can take, user code returning; at a select the first ready case.\<close>

definition select_label :: "('m, 'e) actor_sys \<Rightarrow> ('m, 'e) label \<Rightarrow> ('m, 'e) label" where
  "select_label s l =
     (if start_ctx s 0 \<noteq> None then LoopCtx 0 else if stop_closed s then LoopStop 0 else l)"

definition next_label :: "('m, 'e) actor_sys \<Rightarrow> ('m, 'e) label" where
  "next_label s =
     (case loops s 0 of
        LStored \<Rightarrow> LoopReady 0
      | LAfterStart \<Rightarrow> LoopAfterStart 0 HookOk
      | LSelect \<Rightarrow> select_label s (LoopTake 0)
      | LGot m \<Rightarrow> select_label s (LoopRun 0)
      | LRun m \<Rightarrow> LoopReturn 0 [] None
      | LRecover v \<Rightarrow> LoopRecover 0 None
      | LHandleCtx e \<Rightarrow> LoopHandleCtx 0 None
      | LBeforeStop \<Rightarrow> LoopBeforeStop 0 HookOk
      | LExit \<Rightarrow> LoopExit 0
      | _ \<Rightarrow> LoopStore 0)"

lemma next_label_enabled:
  assumes "behavior_inv s" "crash s = None" "loops s 0 \<noteq> NoLoop" "loops s 0 \<noteq> LEnded"
    "loops s 0 = LSelect \<Longrightarrow> shutting_down s \<or> cbuf (input s) \<noteq> []"
  shows "loop_label (next_label s) \<and> solo (next_label s) \<and> actor_step (next_label s) s \<noteq> None"
proof -
  have "entity_of s 0 \<noteq> None"
    using assms(1,3) by (simp add: behavior_inv_def behavior_ok_def begun_def)
  with assms(2-5) show ?thesis
    by (cases "loops s 0"; cases "cbuf (input s)";
        auto simp: next_label_def select_label_def actor_step_def branch_simps shutting_down_def
          chan_recv_def)
qed

section \<open>Left behind\<close>

fun serving :: "'m loop_pc \<Rightarrow> bool" where
  "serving LSelect \<longleftrightarrow> True"
| "serving (LGot m) \<longleftrightarrow> True"
| "serving (LRun m) \<longleftrightarrow> True"
| "serving (LRecover v) \<longleftrightarrow> True"
| "serving pc \<longleftrightarrow> False"

text \<open>Panicked with the loop alive, and nobody able to end it but the context.\<close>

definition zombie :: "('m, 'e) actor_sys \<Rightarrow> bool" where
  "zombie s \<longleftrightarrow> ga_state s = Panicked \<and> starts s 0 = SRet None \<and> serving (loops s 0) \<and> start_ctx s 0 = None \<and>
     \<not> stop_closed s \<and> \<not> done_closed s \<and> (\<forall>k. \<not> past_cas (stops s k))"

definition quiet :: "('m, 'e) label \<Rightarrow> bool" where
  "quiet l \<longleftrightarrow> solo l \<and> (\<forall>e. l \<noteq> CtxDone 0 e)"

text \<open>What the Stop calls \<open>K\<close> and the Receive calls \<open>J\<close> can have got.\<close>

definition turned_away :: "nat set \<Rightarrow> nat set \<Rightarrow> ('m, 'e) actor_sys \<Rightarrow> bool" where
  "turned_away K J s \<longleftrightarrow>
     (\<forall>k\<in>K. stops s k \<in> {TIdle, TFailed, TRet (Some (StateMismatch 1 6))}) \<and>
     (\<forall>j\<in>J. recvs s j \<in> {RIdle, RRet (Some (ActorErr ErrActorReceiveNil)),
        RRet (Some (ActorErr ErrActorReceiveOnStopped))})"

lemma zombie_step:
  assumes "quiet l" "zombie s \<and> turned_away K J s"
  shows "keeps (\<lambda>t. zombie t \<and> turned_away K J t) (actor_step l s)"
proof -
  from assms(2) have "stops s k \<noteq> TClose" "stops s k \<noteq> TWait" "stops s k \<noteq> TAfter" for k
    unfolding zombie_def by (metis past_cas.simps(1-3))+
  with assms show ?thesis
    by (cases l; simp add: actor_step_def branch_simps helper_defs zombie_def quiet_def State_def
          turned_away_def split: step_splits; (intro conjI impI allI)?; fastforce?)
qed

lemma panic_makes_zombie:
  assumes "actor_inv s" "loops s 0 = LRecover v" "start_ctx s 0 = None" "\<forall>k. \<not> past_cas (stops s k)"
    "actor_step (LoopRecover 0 None) s = Some s'"
  shows "zombie s' \<and> turned_away {k. stops s k = TIdle} {j. recvs s j = RIdle} s'"
proof -
  from assms(1) have "life_inv s" "stop_inv s"
    by (simp_all add: actor_inv_def)
  with assms(2-5) show ?thesis
    by (auto simp: actor_step_def loop_recover_def helper_defs hook_may_def zombie_def life_inv_def
        life_ok_def stop_inv_def stop_ok_def begun_def turned_away_def split: if_splits)
qed

interpretation zombie_machine: invariant_machine actor_step quiet "\<lambda>s. zombie s \<and> turned_away K J s"
  for K J
  by unfold_locales (rule zombie_step)

text \<open>The goroutine is gone: the state cannot be Started.\<close>

definition gone_inv :: "('m, 'e) actor_sys \<Rightarrow> bool" where
  "gone_inv s \<longleftrightarrow> actor_inv s \<and> (loops s 0 = LExit \<or> loops s 0 = LEnded \<longrightarrow> ga_state s \<noteq> Started)"

lemma stop_ok_closed: "stop_ok st b tf sc \<Longrightarrow> sc \<Longrightarrow> st \<noteq> Started"
  unfolding stop_ok_def by blast

lemma gone_step:
  assumes l: "solo l" and inv: "gone_inv s"
  shows "keeps gone_inv (actor_step l s)"
proof -
  from inv have "stop_inv s" "exit_inv s" "actor_inv s"
    by (simp_all add: gone_inv_def actor_inv_def)
  then have "loops s 0 = LBeforeStop \<Longrightarrow> ga_state s \<noteq> Started"
    by (auto simp: stop_inv_def exit_inv_def dest: stop_ok_closed)
  with l inv have "keeps (\<lambda>t. loops t 0 = LExit \<or> loops t 0 = LEnded \<longrightarrow> ga_state t \<noteq> Started)
    (actor_step l s)"
    by (cases l; simp add: actor_step_def branch_simps helper_defs gone_inv_def split: step_splits;
        (intro conjI impI allI)?; clarsimp)
  with actor_inv_step [OF l \<open>actor_inv s\<close>] show ?thesis
    by (simp add: keeps_def gone_inv_def split: option.splits)
qed

interpretation gone_machine: invariant_machine actor_step solo gone_inv
  by unfold_locales (rule gone_step)

definition left_waiting :: "nat \<Rightarrow> 'm \<Rightarrow> ('m, 'e) actor_sys \<Rightarrow> bool" where
  "left_waiting j m s \<longleftrightarrow>
     loops s 0 = LEnded \<and> starts s 0 = SRet None \<and> ga_state s \<noteq> Started \<and> done_closed s \<and>
     \<not> stop_closed s \<and> (\<forall>k. \<not> past_cas (stops s k)) \<and> receiveTimeout s = 0 \<and>
     call_ctx s j = None \<and> length (cbuf (input s)) = ccap (input s) \<and> \<not> cclosed (input s) \<and>
     recvs s j = RSelect m"

definition patient :: "nat \<Rightarrow> ('m, 'e) label \<Rightarrow> bool" where
  "patient j l \<longleftrightarrow> solo l \<and> (\<forall>e. l \<noteq> CallCtxDone j e)"

lemma left_waiting_step:
  assumes "patient j l" "left_waiting j m s"
  shows "keeps (left_waiting j m) (actor_step l s)"
proof -
  from assms(2) have "stops s k \<noteq> TClose" "stops s k \<noteq> TWait" "stops s k \<noteq> TAfter" for k
    unfolding left_waiting_def by (metis past_cas.simps(1-3))+
  with assms show ?thesis
    by (cases l; simp add: actor_step_def branch_simps helper_defs left_waiting_def patient_def
          chan_send_def split: step_splits; (intro conjI impI allI)?; fastforce?)
qed

interpretation waiting_machine: invariant_machine actor_step "patient j" "left_waiting j m" for j m
  by unfold_locales (rule left_waiting_step)

section \<open>Runs for the witnesses\<close>

lemmas eval_simps = sample_state_eq booted_def run_simps sample_actor_def default_actor_def
  Current_def newBehaviorStack_def

definition panic_labels :: "(nat, nat) label list" where
  "panic_labels = boot 7 @ [RecvCall 0 (Some 10), RecvSend 0, LoopTake 0, LoopRun 0,
     LoopReturn 0 [] (Some (PanicValue 3))]"

definition patient_actor :: "nat goactor" where
  "patient_actor = sample_actor\<lparr>receiveTimeout := 0, inputBufSize := 1, input := make_chan 1\<rparr>"

lemma patient_fresh: "fresh_actor patient_actor"
  by (simp add: patient_actor_def fresh_actor_def sample_actor_def default_actor_def)

definition cancel_labels :: "(nat, nat) label list" where
  "cancel_labels = boot 7 @ [RecvCall 0 (Some 10), RecvSend 0, RecvCall 1 (Some 11),
     CtxDone 0 CtxCanceled, LoopCtx 0, LoopHandleCtx 0 None, LoopExit 0]"

lemma shutdown_sample:
  "\<exists>s t. runs actor_step (sample_labels @ [StopCAS 0, StopClose 0]) (sys_of sample_actor) = Some s \<and>
     shutting_down s \<and>
     runs actor_step [LoopStop 0, LoopBeforeStop 0 HookOk, LoopExit 0, StopDone 0] s = Some t"
  unfolding runs_append sample_runs by (simp add: eval_simps shutting_down_def)

lemma waiting_sample:
  "\<exists>s. runs actor_step (sample_labels @ [RecvCall 2 (Some 12)]) (sys_of sample_actor) = Some s \<and>
     crash s = None \<and> recvs s 2 = RSelect 12"
  unfolding runs_append sample_runs by (simp add: eval_simps)

lemma panic_sample:
  "\<exists>s s' t. runs actor_step panic_labels (sys_of sample_actor) = Some s \<and>
     loops s 0 = LRecover (PanicValue 3) \<and> start_ctx s 0 = None \<and> stops s = (\<lambda>_. TIdle) \<and>
     recvs s 5 = RIdle \<and> actor_step (LoopRecover 0 None) s = Some s' \<and>
     runs actor_step [StopCAS 0, StopFail 0, RecvCall 5 (Some 1)] s' = Some t \<and>
     stops t 0 \<noteq> TIdle \<and> recvs t 5 \<noteq> RIdle"
  unfolding runs_append panic_labels_def boot_runs [OF sample_fresh] by (simp add: eval_simps)

lemma cancel_sample:
  "\<exists>s t. runs actor_step cancel_labels (sys_of patient_actor) = Some s \<and> loops s 0 = LEnded \<and>
     stops s = (\<lambda>_. TIdle) \<and> recvs s 1 = RSelect 11 \<and> call_ctx s 1 = None \<and>
     length (cbuf (input s)) = ccap (input s) \<and>
     runs actor_step [StopCAS 0, StopFail 0, RecvCall 2 (Some 1)] s = Some t"
  unfolding runs_append cancel_labels_def boot_runs [OF patient_fresh]
  by (simp add: eval_simps patient_actor_def)

section \<open>Properties\<close>

text \<open>
  C8: Shutdown: once the stop channel is closed or the context done, no handler is started any
  more, and the goroutine takes at most ten more steps (the handler that is running and the
  hooks included) whatever the callers do meanwhile.
\<close>

theorem shutdown_is_bounded:
  assumes "fresh_actor ga" "list_all solo (ls @ ks)" "runs actor_step ls (sys_of ga) = Some s"
    "shutting_down s" "runs actor_step ks s = Some t"
  shows "executed t = executed s \<and>
    length (filter loop_label ks) + steps_left t \<le> steps_left s \<and> steps_left s \<le> 10"
proof -
  have "life_inv s"
    using run_inv [OF assms(1) _ assms(3)] assms(2) by (simp add: actor_inv_def)
  moreover have "pc_rank pc \<le> 10" for pc :: "'a loop_pc"
    by (cases pc) simp_all
  ultimately show ?thesis
    using shutdown_runs [OF assms(5) _ assms(4)] assms(2) by (simp add: steps_left_def)
qed

theorem shutdown_is_bounded_witness:
  "\<exists>s t. runs actor_step (sample_labels @ [StopCAS 0, StopClose 0]) (sys_of sample_actor) = Some s \<and>
     runs actor_step [LoopStop 0, LoopBeforeStop 0 HookOk, LoopExit 0, StopDone 0] s = Some t \<and>
     executed t = executed s \<and> 3 + steps_left t \<le> steps_left s"
proof -
  obtain s t where s: "runs actor_step (sample_labels @ [StopCAS 0, StopClose 0]) (sys_of sample_actor) = Some s"
    "shutting_down s"
    and t: "runs actor_step [LoopStop 0, LoopBeforeStop 0 HookOk, LoopExit 0, StopDone 0] s = Some t"
    using shutdown_sample by blast
  from shutdown_is_bounded [OF sample_fresh _ s t] have "executed t = executed s" "3 + steps_left t \<le> steps_left s"
    by (simp_all add: sample_solo)
  with s t show ?thesis by blast
qed

text \<open>
  C21: The goroutine never blocks, user code returning, except at its outer select with an
  empty buffer, the stop channel open and the context not done; in particular a shutdown
  always goes on until the done channel is closed.
\<close>

theorem goroutine_progress:
  assumes "fresh_actor ga" "list_all solo ls" "runs actor_step ls (sys_of ga) = Some s"
    "crash s = None" "loops s 0 \<noteq> NoLoop"
  shows "(loops s 0 = LEnded \<and> done_closed s) \<or>
    (loops s 0 = LSelect \<and> cbuf (input s) = [] \<and> \<not> shutting_down s) \<or>
    (\<exists>l. loop_label l \<and> solo l \<and> actor_step l s \<noteq> None)"
proof -
  from run_inv [OF assms(1-3)] have "behavior_inv s" "life_inv s"
    by (simp_all add: actor_inv_def)
  then show ?thesis
    using next_label_enabled [OF \<open>behavior_inv s\<close> assms(4,5)]
    by (cases "loops s 0 = LEnded") (auto simp: life_inv_def life_ok_def)
qed

theorem goroutine_progress_witness:
  "\<exists>l. loop_label l \<and> solo l \<and> actor_step l sample_state \<noteq> None"
  using goroutine_progress [OF sample_fresh sample_solo sample_runs]
  by (simp add: sample_state_eq booted_def sys_of_def goactor.defs)

text \<open>
  A Receive call that waits can return by itself exactly when a timeout is configured, its
  own context is done, the stop channel is closed, or the buffer has room.
\<close>

theorem waiting_receive_can_return:
  assumes "fresh_actor ga" "list_all solo ls" "runs actor_step ls (sys_of ga) = Some s"
    "crash s = None" "recvs s j = RSelect m"
  shows "(\<exists>l \<in> {RecvSend j, RecvStop j, RecvCtx j, RecvTimer j}. actor_step l s \<noteq> None) \<longleftrightarrow>
    receiveTimeout ga \<noteq> 0 \<or> call_ctx s j \<noteq> None \<or> stop_closed s \<or>
    int (length (cbuf (input s))) < InputBufferSize ga"
proof -
  have "queue_inv s" "config_inv ga s" "0 \<le> inputBufSize ga"
    using run_inv [OF assms(1-3)] run_config [OF assms(1,3)] assms(1)
    by (simp_all add: actor_inv_def fresh_actor_def)
  with assms(4,5) show ?thesis
    by (auto simp: actor_step_def branch_simps queue_inv_def queue_ok_def config_inv_def
        chan_send_def InputBufferSize_def nat_less_iff zless_nat_eq_int_zless)
qed

theorem waiting_receive_can_return_witness:
  "\<exists>s. runs actor_step (sample_labels @ [RecvCall 2 (Some 12)]) (sys_of sample_actor) = Some s \<and>
     (\<exists>l \<in> {RecvSend 2, RecvStop 2, RecvCtx 2, RecvTimer 2}. actor_step l s \<noteq> None)"
proof -
  obtain s where s: "runs actor_step (sample_labels @ [RecvCall 2 (Some 12)]) (sys_of sample_actor) = Some s"
    "crash s = None" "recvs s 2 = RSelect 12"
    using waiting_sample by blast
  from waiting_receive_can_return [OF sample_fresh _ s] s(1) show ?thesis
    by (simp add: sample_solo sample_actor_def default_actor_def second_def)
qed

text \<open>
  A handler panic does not end the actor: its goroutine stays in the loop, and as long as
  its context is not done the done channel stays open and the state Panicked, while Stop fails
  with a state mismatch and Receive refuses every message: nothing but the context can end it.
\<close>

theorem handler_panic_lingers:
  assumes "fresh_actor ga" "list_all solo ls" "runs actor_step ls (sys_of ga) = Some s"
    "loops s 0 = LRecover v" "start_ctx s 0 = None" "\<forall>k. \<not> past_cas (stops s k)"
    "actor_step (LoopRecover 0 None) s = Some s'" "list_all quiet ks" "runs actor_step ks s' = Some t"
  shows "State t = state_code Panicked \<and> \<not> done_closed t \<and> serving (loops t 0) \<and>
    turned_away {k. stops s k = TIdle} {j. recvs s j = RIdle} t"
proof -
  have "zombie s' \<and> turned_away {k. stops s k = TIdle} {j. recvs s j = RIdle} s'"
    using panic_makes_zombie [OF run_inv [OF assms(1-3)] assms(4-7)] .
  from zombie_machine.runs_keeps [OF this assms(8,9)] show ?thesis
    by (simp add: zombie_def State_def)
qed

theorem handler_panic_lingers_witness:
  "\<exists>t. runs actor_step (panic_labels @ [LoopRecover 0 None, StopCAS 0, StopFail 0, RecvCall 5 (Some 1)])
     (sys_of sample_actor) = Some t \<and> State t = 6 \<and> \<not> done_closed t \<and>
     stops t 0 \<noteq> TIdle \<and> turned_away {0} {5} t"
proof -
  obtain s s' t where s: "runs actor_step panic_labels (sys_of sample_actor) = Some s"
    "loops s 0 = LRecover (PanicValue 3)" "start_ctx s 0 = None" "stops s = (\<lambda>_. TIdle)" "recvs s 5 = RIdle"
    and s': "actor_step (LoopRecover 0 None) s = Some s'"
    and t: "runs actor_step [StopCAS 0, StopFail 0, RecvCall 5 (Some 1)] s' = Some t" "stops t 0 \<noteq> TIdle"
    using panic_sample by blast
  have "list_all solo panic_labels" "\<forall>k. \<not> past_cas (stops s k)"
    by (simp_all add: panic_labels_def boot_solo s(4))
  from handler_panic_lingers [OF sample_fresh this(1) s(1-3) this(2) s' _ t(1)]
  have "State t = 6 \<and> \<not> done_closed t \<and> turned_away {0} {5} t"
    using s(4,5) by (auto simp: quiet_def turned_away_def)
  with s(1) s' t show ?thesis
    by (auto simp: runs_append)
qed

text \<open>
  With receive timeout 0, a sender that waits for room in a full buffer is never woken
  once the goroutine has ended because its context was done: unless the sender's own context
  becomes done, it waits forever, although the done channel is closed.
\<close>

theorem sender_left_waiting:
  assumes "fresh_actor ga" "list_all solo ls" "runs actor_step ls (sys_of ga) = Some s"
    "receiveTimeout ga = 0" "loops s 0 = LEnded" "\<forall>k. \<not> past_cas (stops s k)"
    "recvs s j = RSelect m" "call_ctx s j = None" "length (cbuf (input s)) = ccap (input s)"
    "list_all (patient j) ks" "runs actor_step ks s = Some t"
  shows "recvs t j = RSelect m \<and> done_closed t"
proof -
  from sys_of_inv [OF assms(1)] assms(1) have "gone_inv (sys_of ga)"
    by (simp add: gone_inv_def sys_of_def goactor.defs)
  from gone_machine.runs_keeps [OF this assms(2,3)]
  have inv: "actor_inv s" "ga_state s \<noteq> Started"
    using assms(5) by (simp_all add: gone_inv_def)
  moreover have "receiveTimeout s = 0"
    using run_config [OF assms(1,3)] assms(4) by (simp add: config_inv_def)
  ultimately have "left_waiting j m s"
    using assms(5-9) by (auto simp: left_waiting_def actor_inv_def life_inv_def life_ok_def begun_def
        stop_inv_def stop_ok_def queue_inv_def queue_ok_def)
  from waiting_machine.runs_keeps [OF this assms(10,11)] show ?thesis
    by (simp add: left_waiting_def)
qed

theorem sender_left_waiting_witness:
  "\<exists>s t. runs actor_step cancel_labels (sys_of patient_actor) = Some s \<and>
     runs actor_step [StopCAS 0, StopFail 0, RecvCall 2 (Some 1)] s = Some t \<and>
     recvs t 1 = RSelect 11 \<and> done_closed t"
proof -
  obtain s t where s: "runs actor_step cancel_labels (sys_of patient_actor) = Some s" "loops s 0 = LEnded"
    "stops s = (\<lambda>_. TIdle)" "recvs s 1 = RSelect 11" "call_ctx s 1 = None"
    "length (cbuf (input s)) = ccap (input s)"
    and t: "runs actor_step [StopCAS 0, StopFail 0, RecvCall 2 (Some 1)] s = Some t"
    using cancel_sample by blast
  have "list_all solo cancel_labels" "receiveTimeout patient_actor = 0" "\<forall>k. \<not> past_cas (stops s k)"
    by (simp_all add: cancel_labels_def boot_solo patient_actor_def s(3))
  from sender_left_waiting [OF patient_fresh this(1) s(1) this(2) s(2) this(3) s(4-6) _ t] s(1) t
  show ?thesis
    by (simp add: patient_def)
qed

text \<open>The two calls, step by step.\<close>

definition double_start :: "'e \<Rightarrow> 'e \<Rightarrow> ('m, 'e) label list" where
  "double_start e e' =
     [StartCheck 0, StartCheck 1, StartProvide 0 (Providable e), StartProvide 1 (Providable e'),
      StartHook 0 HookOk, StartHook 1 HookOk, StartGo 0, StartGo 1,
      LoopStore 0, LoopReady 0, LoopStore 1, LoopReady 1]"

text \<open>
  Two Start calls on one new actor can both pass the state check: each spawns a goroutine,
  and the second to close the ready channel panics, which ends the process.
\<close>

theorem concurrent_starts_crash:
  assumes "fresh_actor ga"
  shows "\<exists>s. runs actor_step (double_start e e') (sys_of ga) = Some s \<and> crash s = Some close_panic \<and>
    starts s 0 = SRet None \<and> starts s 1 = SRet None"
  using assms by (simp add: double_start_def run_simps fresh_actor_def)

theorem concurrent_starts_crash_witness:
  "\<exists>s. runs actor_step (double_start (1::nat) 2) (sys_of sample_actor) = Some s \<and>
     crash s = Some close_panic"
  using concurrent_starts_crash [OF sample_fresh, of "1::nat" 2] by auto

end
