(* ===== verification/Actor_StartNew.thy ===== *)
theory Actor_StartNew
  imports Actor_Liveness
begin

text \<open>
  \<open>pkg/actor/startnew.go\<close>: New, Start, WaitReady and, if the wait fails, Stop, made by one
  caller on the machine of \<open>Actor_Loop\<close> (its Start, WaitReady and Stop calls have number 0).
  \<open>startnew_admits\<close> is the order of the calls; everything else interleaves freely.
\<close>

text \<open>WaitReady gets the context of Start: it sees it done when the actor does.\<close>

fun startnew_admits :: "('m, 'e) label \<Rightarrow> ('m, 'e) actor_sys \<Rightarrow> bool" where
  "startnew_admits (WaitOk w) s \<longleftrightarrow> w = 0 \<longrightarrow> starts s 0 = SRet None"
| "startnew_admits (WaitCtx w) s \<longleftrightarrow> w = 0 \<longrightarrow> starts s 0 = SRet None \<and> call_ctx s 0 = start_ctx s 0"
| "startnew_admits (WaitTimer w) s \<longleftrightarrow> w = 0 \<longrightarrow> starts s 0 = SRet None"
| "startnew_admits (StopCAS k) s \<longleftrightarrow> k = 0 \<longrightarrow> (\<exists>e. waits s 0 = WRet (Some e))"
| "startnew_admits l s \<longleftrightarrow> True"

definition StartNew_step :: "('m, 'e) label \<Rightarrow> ('m, 'e) actor_sys \<Rightarrow> ('m, 'e) actor_sys option" where
  "StartNew_step l s = (if startnew_admits l s then actor_step l s else None)"

text \<open>What the caller of StartNew has, once it has returned; the error of Stop is ignored.\<close>

datatype startnew_out = OutActor | OutError gerror | OutPanic gopanic

definition StartNew_out :: "('m, 'e) actor_sys \<Rightarrow> startnew_out option" where
  "StartNew_out s =
     (case starts s 0 of
        SRet (Some startErr) \<Rightarrow> Some (OutError startErr)
      | SPanicked v \<Rightarrow> Some (OutPanic v)
      | SRet None \<Rightarrow>
          (case waits s 0 of
             WIdle \<Rightarrow> None
           | WRet None \<Rightarrow> Some OutActor
           | WRet (Some readyErr) \<Rightarrow>
               (case stops s 0 of
                  TRet _ \<Rightarrow> Some (OutError readyErr)
                | TPanicked v \<Rightarrow> Some (OutPanic v)
                | _ \<Rightarrow> None))
      | _ \<Rightarrow> None)"

text \<open>The whole call: New fails, or the rest runs on the actor it built.\<close>

definition StartNew ::
  "'m actor_option list \<Rightarrow> ('m, 'e) label list \<Rightarrow> startnew_out option \<times> ('m, 'e) actor_sys option" where
  "StartNew opts ls =
     (case New opts of
        NewError e \<Rightarrow> (Some (OutError e), None)
      | NewPanics v \<Rightarrow> (Some (OutPanic v), None)
      | NewActor ga \<Rightarrow>
          (case runs StartNew_step ls (sys_of ga) of
             None \<Rightarrow> (None, None)
           | Some s \<Rightarrow> (StartNew_out s, Some s)))"

lemma StartNew_runs:
  "runs StartNew_step ls s = Some t \<Longrightarrow> runs actor_step ls s = Some t"
  by (induction ls arbitrary: s) (auto simp: StartNew_step_def split: option.splits if_splits)

definition wait_inv :: "('m, 'e) actor_sys \<Rightarrow> bool" where
  "wait_inv s \<longleftrightarrow> (\<forall>w. waits s w = WRet None \<longrightarrow> ready_closed s)"

lemma wait_step: "wait_inv s \<Longrightarrow> keeps wait_inv (actor_step l s)"
  by (cases l; simp add: actor_step_def branch_simps helper_defs wait_inv_def split: step_splits;
      (intro conjI impI allI)?; fastforce?)

interpretation wait_machine: invariant_machine actor_step "\<lambda>_. True" wait_inv
  by unfold_locales (rule wait_step)

section \<open>Properties\<close>

text \<open>
  C32: When StartNew returns an actor, New accepted the options and the actor's goroutine has
  stored Started and closed the ready channel: the actor has left Initialized for good.
\<close>

theorem startnew_returns_ready_actor:
  assumes "list_all solo ls" "StartNew opts ls = (Some OutActor, s)"
  shows "\<exists>ga t. New opts = NewActor ga \<and> s = Some t \<and> ready_closed t \<and> readied (loops t 0) \<and>
    State t \<noteq> state_code Initialized"
proof -
  from assms(2) obtain ga t where ga: "New opts = NewActor ga" and s: "s = Some t"
    and t: "runs StartNew_step ls (sys_of ga) = Some t" and out: "StartNew_out t = Some OutActor"
    by (auto simp: StartNew_def split: new_result.splits option.splits dest!: sym [of "Some _"])
  from t have run: "runs actor_step ls (sys_of ga) = Some t"
    by (rule StartNew_runs)
  have "wait_inv t"
    using wait_machine.runs_keeps [OF _ _ run]
    by (simp add: wait_inv_def sys_of_def goactor.defs list_all_iff)
  moreover have "life_inv t" "stop_inv t"
    using run_inv [OF New_fresh [OF ga] assms(1) run] by (simp_all add: actor_inv_def)
  moreover have "started pc" if "readied pc" for pc :: "'a loop_pc"
    using that by (cases pc) simp_all
  moreover from out have "waits t 0 = WRet None"
    by (auto simp: StartNew_out_def
        split: start_pc.splits wait_pc.splits option.splits stop_pc.splits)
  ultimately show ?thesis
    using ga s by (auto simp: wait_inv_def life_inv_def life_ok_def stop_inv_def stop_ok_def
        State_def simp del: state_code.simps)
qed

definition sample_options :: "nat actor_option list" where
  "sample_options = [WithProvider (Some 0), WithInputBufferSize 2]"

lemma sample_new: "New sample_options =
  NewActor (default_actor\<lparr>provider := Some 0, hooks := Some NoopHooks, inputBufSize := 2, input := make_chan 2\<rparr>)"
  by (simp add: New_def sample_options_def option_defs default_actor_def)

theorem startnew_returns_ready_actor_witness:
  "\<exists>t. StartNew sample_options (boot (7::nat) @ [WaitOk 0]) = (Some OutActor, Some t) \<and> ready_closed t"
proof -
  have "\<exists>t. StartNew sample_options (boot (7::nat) @ [WaitOk 0]) = (Some OutActor, Some t)"
    by (simp add: StartNew_def sample_new boot_def StartNew_step_def StartNew_out_def run_simps default_actor_def)
  moreover have "list_all solo (boot 7 @ [WaitOk 0])"
    by (simp add: boot_solo)
  ultimately show ?thesis
    using startnew_returns_ready_actor by blast
qed

text \<open>
  A StartNew that times out can leave a running actor behind: when the goroutine has not
  stored Started yet, the best-effort Stop fails on the state, StartNew returns the error, and
  the actor then starts and serves with nobody holding a reference to it.
\<close>

definition late_start :: "'e \<Rightarrow> ('m, 'e) label list" where
  "late_start e =
     [StartCheck 0, StartProvide 0 (Providable e), StartHook 0 HookOk, StartGo 0,
      WaitTimer 0, StopCAS 0, StopFail 0, LoopStore 0, LoopReady 0, LoopAfterStart 0 HookOk]"

theorem startnew_timeout_leaks_actor:
  assumes "New opts = NewActor ga"
  shows "\<exists>s. StartNew opts (late_start e) = (Some (OutError CtxDeadlineExceeded), Some s) \<and>
    State s = state_code Started \<and> loops s 0 = LSelect \<and> \<not> stop_closed s \<and> \<not> done_closed s"
  using New_fresh [OF assms] assms
  by (simp add: StartNew_def StartNew_step_def StartNew_out_def late_start_def run_simps fresh_actor_def
      State_def)

theorem startnew_timeout_leaks_actor_witness:
  "\<exists>s. StartNew sample_options (late_start (7::nat)) = (Some (OutError CtxDeadlineExceeded), Some s) \<and>
    State s = 1 \<and> \<not> done_closed s"
  using startnew_timeout_leaks_actor [OF sample_new, of 7] by auto

text \<open>
  A graceful Stop closes the done channel before it stores Done: in between an observer
  that was woken by done, as a supervisor is, still reads Stopping.
\<close>

definition graceful_stop :: "('m, 'e) label list" where
  "graceful_stop = [StopCAS 0, StopClose 0, LoopStop 0, LoopBeforeStop 0 HookOk, LoopExit 0]"

theorem stopping_visible_after_done:
  assumes "fresh_actor ga"
  shows "\<exists>s. runs actor_step (boot e @ graceful_stop) (sys_of ga) = Some s \<and> crash s = None \<and>
    done_closed s \<and> stops s 0 = TWait \<and> State s = state_code Stopping"
  unfolding runs_append boot_runs [OF assms]
  using assms by (simp add: graceful_stop_def booted_def run_simps fresh_actor_def State_def)

theorem stopping_visible_after_done_witness:
  "\<exists>s. runs actor_step (boot (7::nat) @ graceful_stop) (sys_of sample_actor) = Some s \<and>
    done_closed s \<and> State s = 2"
  using stopping_visible_after_done [OF sample_fresh, of 7] by auto

end
