(* ===== verification/Actor_Hooks.thy ===== *)
theory Actor_Hooks
  imports Actor_Safety "HOL-Library.Sublist"
begin

text \<open>
  The order of the lifecycle hooks on the machine of \<open>Actor_Loop\<close>. The goroutine calls BeforeStart,
  AfterStart and BeforeStop in this order; AfterStop belongs to the Stop call, which calls it after
  the others unless it times out.
\<close>

fun is_error :: "'e hook_call \<Rightarrow> bool" where
  "is_error (OnError e) \<longleftrightarrow> True"
| "is_error h \<longleftrightarrow> False"

definition loop_hooks :: "'e hook_call list \<Rightarrow> 'e hook_call list" where
  "loop_hooks hs = filter (\<lambda>h. \<not> is_error h \<and> h \<noteq> AfterStop) hs"

definition stop_hooks :: "'e hook_call list \<Rightarrow> nat" where
  "stop_hooks hs = length (filter (\<lambda>h. h = AfterStop) hs)"

text \<open>What the goroutine has called, by where Start and it are; \<open>e\<close> is the entity.\<close>

fun called_by :: "'e \<Rightarrow> 'm loop_pc \<Rightarrow> 'e hook_call list \<Rightarrow> bool" where
  "called_by e LSpawned hs \<longleftrightarrow> hs = [BeforeStart e]"
| "called_by e LStored hs \<longleftrightarrow> hs = [BeforeStart e]"
| "called_by e LAfterStart hs \<longleftrightarrow> hs = [BeforeStart e]"
| "called_by e LExit hs \<longleftrightarrow> hs = [BeforeStart e, AfterStart] \<or> hs = [BeforeStart e, AfterStart, BeforeStop e]"
| "called_by e LEnded hs \<longleftrightarrow> hs = [BeforeStart e, AfterStart] \<or> hs = [BeforeStart e, AfterStart, BeforeStop e]"
| "called_by e pc hs \<longleftrightarrow> hs = [BeforeStart e, AfterStart]"

fun called_by_start :: "'e start_pc \<Rightarrow> 'e hook_call list \<Rightarrow> bool" where
  "called_by_start SIdle hs \<longleftrightarrow> hs = []"
| "called_by_start SProvide hs \<longleftrightarrow> hs = []"
| "called_by_start (SHook e) hs \<longleftrightarrow> hs = []"
| "called_by_start (SGo e) hs \<longleftrightarrow> hs = [BeforeStart e]"
| "called_by_start sp hs \<longleftrightarrow> True"

definition due :: "'e start_pc \<Rightarrow> 'm loop_pc \<Rightarrow> 'e option \<Rightarrow> 'e hook_call list \<Rightarrow> bool" where
  "due sp lp ent hs \<longleftrightarrow>
     (if lp = NoLoop then called_by_start sp hs else \<exists>e. ent = Some e \<and> called_by e lp hs)"

definition in_order :: "'e hook_call list \<Rightarrow> bool" where
  "in_order hs \<longleftrightarrow> (\<exists>e. prefix hs [BeforeStart e, AfterStart, BeforeStop e])"

lemma in_order_simps [simp]: "in_order []" "in_order [BeforeStart e]" "in_order [BeforeStart e, AfterStart]"
  "in_order [BeforeStart e, AfterStart, BeforeStop e]"
  by (auto simp: in_order_def)

definition order_ok ::
  "gopanic option \<Rightarrow> 'e start_pc \<Rightarrow> 'm loop_pc \<Rightarrow> 'e option \<Rightarrow> 'e hook_call list \<Rightarrow> bool" where
  "order_ok cr sp lp ent hs \<longleftrightarrow> in_order hs \<and> (cr = None \<longrightarrow> due sp lp ent hs)"

definition order_inv :: "('m, 'e) actor_sys \<Rightarrow> bool" where
  "order_inv s \<longleftrightarrow> order_ok (crash s) (starts s 0) (loops s 0) (entity_of s 0) (loop_hooks (hook_calls s))"

lemma loop_hooks_snoc [simp]:
  "loop_hooks [] = []"
  "loop_hooks (hs @ [h]) = (if is_error h \<or> h = AfterStop then loop_hooks hs else loop_hooks hs @ [h])"
  by (auto simp: loop_hooks_def)

lemma stop_hooks_snoc [simp]:
  "stop_hooks [] = 0"
  "stop_hooks (hs @ [h]) = (if h = AfterStop then Suc (stop_hooks hs) else stop_hooks hs)"
  by (auto simp: stop_hooks_def)

lemma loop_hooks_two [simp]:
  "loop_hooks (hs @ [h, OnError e]) = loop_hooks (hs @ [h])" "stop_hooks (hs @ [h, OnError e]) = stop_hooks (hs @ [h])"
  by (simp_all add: loop_hooks_def stop_hooks_def)

text \<open>The labels that call a hook of the goroutine, or move Start on.\<close>

fun hook_frame :: "('m, 'e) label \<Rightarrow> bool" where
  "hook_frame (StartCheck i) \<longleftrightarrow> False"
| "hook_frame (StartProvide i pv) \<longleftrightarrow> False"
| "hook_frame (StartHook i r) \<longleftrightarrow> False"
| "hook_frame (StartGo i) \<longleftrightarrow> False"
| "hook_frame (LoopAfterStart i r) \<longleftrightarrow> False"
| "hook_frame (LoopBeforeStop i r) \<longleftrightarrow> False"
| "hook_frame l \<longleftrightarrow> solo l"

lemma frame_order: "hook_frame l \<Longrightarrow> order_inv s \<Longrightarrow> crash s = None \<Longrightarrow> keeps order_inv (action l s)"
  by (cases l; simp add: branch_simps helper_defs order_inv_def order_ok_def due_def split: step_splits; auto)

lemma other_order:
  assumes "\<not> hook_frame l" "order_inv s" "life_inv s" "crash s = None" "solo l"
  shows "keeps order_inv (action l s)"
  using assms
  by (cases l; simp add: branch_simps helper_defs order_inv_def order_ok_def due_def life_inv_def life_ok_def begun_def split: step_splits;
     auto)

lemma order_step:
  assumes "order_inv s" "actor_inv s" "solo l"
  shows "keeps order_inv (actor_step l s)"
  using frame_order [of l s] other_order [of l s] assms
  by (cases "hook_frame l"; auto simp: actor_step_def actor_inv_def keeps_def split: option.split)

section \<open>AfterStop\<close>

text \<open>A Stop call that has called AfterStop has returned; only one gets that far.\<close>

fun stop_over :: "stop_pc \<Rightarrow> bool" where
  "stop_over (TRet err) \<longleftrightarrow> err = None"
| "stop_over (TPanicked v) \<longleftrightarrow> True"
| "stop_over pc \<longleftrightarrow> False"

definition after_ok :: "(nat \<Rightarrow> stop_pc) \<Rightarrow> nat \<Rightarrow> bool" where
  "after_ok tf n \<longleftrightarrow> n = 0 \<or> n = 1 \<and> (\<exists>k. stop_over (tf k))"

definition after_inv :: "('m, 'e) actor_sys \<Rightarrow> bool" where
  "after_inv s \<longleftrightarrow> after_ok (stops s) (stop_hooks (hook_calls s))"

lemma stop_over_past: "stop_over pc \<Longrightarrow> past_cas pc"
  by (cases pc) auto

lemma after_ok_move:
  assumes "after_ok tf n" "\<not> stop_over (tf k)"
  shows "after_ok (tf(k := pc)) n"
proof -
  have "stop_over ((tf(k := pc)) j)" if "stop_over (tf j)" for j
    using assms(2) that by auto
  then show ?thesis
    using assms(1) unfolding after_ok_def by blast
qed

lemma after_ok_call:
  assumes "after_ok tf n" "stop_ok st b tf sc" "tf k = TAfter" "stop_over pc"
  shows "after_ok (tf(k := pc)) (Suc n)"
proof -
  have "\<not> stop_over (tf j)" for j
  proof
    assume "stop_over (tf j)"
    moreover from this have "j = k"
      using assms(2,3) stop_over_past [of "tf j"] unfolding stop_ok_def by (metis past_cas.simps(3))
    ultimately show False
      using assms(3) by simp
  qed
  then have "n = 0"
    using assms(1) by (auto simp: after_ok_def)
  with assms(4) show ?thesis
    by (auto simp: after_ok_def intro: exI [of _ k])
qed

lemma after_step:
  assumes "after_inv s" "actor_inv s"
  shows "keeps after_inv (actor_step l s)"
proof -
  have "stop_inv s"
    using assms(2) by (simp add: actor_inv_def)
  with assms(1) show ?thesis
    by (cases l; simp add: actor_step_def branch_simps helper_defs after_inv_def stop_inv_def split: step_splits;
        auto intro: after_ok_move after_ok_call)
qed

text \<open>Unless a Stop call times out, AfterStop comes last.\<close>

fun in_time :: "('m, 'e) label \<Rightarrow> bool" where
  "in_time (StopTimer k q) \<longleftrightarrow> False"
| "in_time l \<longleftrightarrow> solo l"

definition own_hooks :: "'e hook_call list \<Rightarrow> 'e hook_call list" where
  "own_hooks hs = filter (\<lambda>h. \<not> is_error h) hs"

lemma own_hooks_snoc [simp]:
  "own_hooks [] = []"
  "own_hooks (hs @ [h]) = (if is_error h then own_hooks hs else own_hooks hs @ [h])"
  "own_hooks (hs @ [h, OnError e]) = own_hooks (hs @ [h])"
  by (auto simp: own_hooks_def)

definition last_ok :: "(nat \<Rightarrow> stop_pc) \<Rightarrow> bool \<Rightarrow> 'e hook_call list \<Rightarrow> bool" where
  "last_ok tf d hs \<longleftrightarrow>
     (\<forall>k. tf k = TAfter \<longrightarrow> d) \<and> (stop_hooks hs \<noteq> 0 \<longrightarrow> d) \<and>
     own_hooks hs = loop_hooks hs @ replicate (stop_hooks hs) AfterStop"

definition last_inv :: "('m, 'e) actor_sys \<Rightarrow> bool" where
  "last_inv s \<longleftrightarrow> last_ok (stops s) (done_closed s) (hook_calls s)"

lemma replicate_snoc: "replicate n x @ [x] = x # replicate n x"
  by (induction n) auto

lemma last_ok_two [simp]: "last_ok tf d (hs @ [h, OnError e]) = last_ok tf d (hs @ [h])"
  by (simp add: last_ok_def)

lemma last_moves:
  "last_ok tf d hs \<Longrightarrow> pc \<noteq> TAfter \<or> d \<Longrightarrow> last_ok (tf(k := pc)) d hs"
  "last_ok tf d hs \<Longrightarrow> last_ok tf True hs"
  "last_ok tf d hs \<Longrightarrow> \<not> d \<Longrightarrow> h \<noteq> AfterStop \<Longrightarrow> last_ok tf d (hs @ [h])"
  "last_ok tf d hs \<Longrightarrow> is_error h \<Longrightarrow> last_ok tf d (hs @ [h])"
  "last_ok tf d hs \<Longrightarrow> tf k = TAfter \<Longrightarrow> last_ok tf d (hs @ [AfterStop])"
  by (auto simp: last_ok_def replicate_snoc)

lemma last_after: "last_ok tf d hs \<Longrightarrow> tf k = TAfter \<Longrightarrow> pc \<noteq> TAfter \<Longrightarrow> last_ok (tf(k := pc)) d (hs @ [AfterStop])"
  by (rule last_moves(1) [OF last_moves(5)]) auto

fun stop_frame :: "('m, 'e) label \<Rightarrow> bool" where
  "stop_frame (StopAfter k r) \<longleftrightarrow> False"
| "stop_frame (StopDone k) \<longleftrightarrow> False"
| "stop_frame l \<longleftrightarrow> hook_frame l \<and> in_time l"

lemma stop_frame_last: "stop_frame l \<Longrightarrow> last_inv s \<Longrightarrow> crash s = None \<Longrightarrow> keeps last_inv (action l s)"
  by (cases l; simp add: branch_simps helper_defs last_inv_def last_moves split: step_splits)

lemma hook_last:
  assumes "\<not> stop_frame l" "last_inv s" "life_inv s" "crash s = None" "in_time l"
  shows "keeps last_inv (action l s)"
  using assms
  by (cases l; simp add: branch_simps helper_defs last_inv_def life_inv_def split: step_splits;
      auto simp: life_ok_def begun_def intro: last_moves last_after)

lemma last_step:
  assumes "last_inv s" "actor_inv s" "in_time l"
  shows "keeps last_inv (actor_step l s)"
  using stop_frame_last [of l s] hook_last [of l s] assms
  by (cases "stop_frame l"; auto simp: actor_step_def actor_inv_def keeps_def split: option.split)

interpretation hooks_machine: invariant_machine actor_step solo "\<lambda>s. actor_inv s \<and> order_inv s \<and> after_inv s"
proof unfold_locales
  fix l :: "('m, 'e) label" and s :: "('m, 'e) actor_sys"
  assume "solo l" "actor_inv s \<and> order_inv s \<and> after_inv s"
  then show "keeps (\<lambda>s. actor_inv s \<and> order_inv s \<and> after_inv s) (actor_step l s)"
    using actor_inv_step [of l s] order_step [of s l] after_step [of s l] by (simp add: keeps_conj)
qed

interpretation last_machine: invariant_machine actor_step in_time "\<lambda>s. actor_inv s \<and> last_inv s"
proof unfold_locales
  fix l :: "('m, 'e) label" and s :: "('m, 'e) actor_sys"
  assume l: "in_time l" "actor_inv s \<and> last_inv s"
  from l(1) have "solo l"
    by (cases l) simp_all
  with l show "keeps (\<lambda>s. actor_inv s \<and> last_inv s) (actor_step l s)"
    using actor_inv_step [of l s] last_step [of s l] by (simp add: keeps_conj)
qed

section \<open>Properties\<close>

text \<open>
  C7: The lifecycle hooks come in order and at most once: the goroutine's are BeforeStart,
  AfterStart and BeforeStop or the first of these, the first and the last with the entity; AfterStop is called
  at most once, and, unless a Stop call times out, after all others.
\<close>

theorem hooks_in_order:
  assumes "fresh_actor ga" "list_all solo ls" "runs actor_step ls (sys_of ga) = Some s"
  shows "in_order (loop_hooks (hook_calls s)) \<and> stop_hooks (hook_calls s) \<le> 1 \<and>
    (list_all in_time ls \<longrightarrow>
      own_hooks (hook_calls s) = loop_hooks (hook_calls s) @ replicate (stop_hooks (hook_calls s)) AfterStop)"
proof -
  have new: "actor_inv (sys_of ga)"
    using sys_of_inv [OF assms(1)] .
  have "order_inv (sys_of ga)" "after_inv (sys_of ga)" "last_inv (sys_of ga)"
    using assms(1) by (simp_all add: order_inv_def order_ok_def due_def after_inv_def after_ok_def last_inv_def last_ok_def sys_of_def
        goactor.defs fresh_actor_def)
  with new hooks_machine.runs_keeps [OF _ assms(2,3)] last_machine.runs_keeps [OF _ _ assms(3)]
  have "order_inv s" "after_inv s" "list_all in_time ls \<Longrightarrow> last_inv s"
    by blast+
  then show ?thesis
    by (auto simp: order_inv_def order_ok_def after_inv_def after_ok_def last_inv_def last_ok_def)
qed

definition stopped_run :: "(nat, nat) label list" where
  "stopped_run = boot 7 @ [StopCAS 0, StopClose 0, LoopStop 0, LoopBeforeStop 0 HookOk, LoopExit 0, StopDone 0, StopAfter 0 HookOk]"

theorem hooks_in_order_witness:
  "\<exists>s. runs actor_step stopped_run (sys_of sample_actor) = Some s \<and>
     own_hooks (hook_calls s) = [BeforeStart 7, AfterStart, BeforeStop 7] @ replicate 1 AfterStop"
proof -
  obtain s where s: "runs actor_step stopped_run (sys_of sample_actor) = Some s"
    "loop_hooks (hook_calls s) = [BeforeStart 7, AfterStart, BeforeStop 7]" "stop_hooks (hook_calls s) = 1"
    unfolding stopped_run_def runs_append boot_runs [OF sample_fresh]
    by (simp add: run_simps booted_def sample_actor_def default_actor_def loop_hooks_def stop_hooks_def)
  have "list_all solo stopped_run" "list_all in_time stopped_run"
    by (simp_all add: stopped_run_def boot_def)
  with hooks_in_order [OF sample_fresh _ s(1)] s show ?thesis
    by simp
qed

text \<open>
  A Stop that times out calls AfterStop while the goroutine is still in a handler; BeforeStop comes
  after it.
\<close>

theorem late_before_stop:
  "\<exists>s. runs actor_step (boot 7 @ [RecvCall 0 (Some 5), RecvSend 0, LoopTake 0, LoopRun 0, StopCAS 0, StopClose 0,
       StopTimer 0 None, StopAfter 0 HookOk, LoopReturn 0 [] None, LoopStop 0, LoopBeforeStop 0 HookOk])
       (sys_of sample_actor) = Some s \<and>
     own_hooks (hook_calls s) = [BeforeStart 7, AfterStart, AfterStop, BeforeStop 7]"
  unfolding runs_append boot_runs [OF sample_fresh]
  by (simp add: run_simps booted_def sample_actor_def default_actor_def own_hooks_def Current_def newBehaviorStack_def make_chan_def)

end
