(* ===== verification/System.thy ===== *)
theory System
  imports Go_Runtime "HOL-Library.AList"
begin

text \<open>
  \<open>pkg/system/system.go\<close>, \<open>dispatch.go\<close> and \<open>event.go\<close>, with the references of
  \<open>pkg/actorref/actorref.go\<close>: the registry of an \<open>ActorSystem\<close>, operation by operation. Each
  operation runs under the system's lock; \<open>System_Stop\<close> has the ones that release it.

  An actor is an address (\<open>nat\<close>); an entity type parameter is a number too, and a command is
  known by the type whose entities it executes on. A Go map is an association list with distinct
  keys: only lookup, insertion, deletion and size are used.
\<close>

section \<open>References\<close>

record ref =
  ref_type :: nat
  ref_actor :: nat

text \<open>\<open>actorref.New[T]\<close>.\<close>

definition New_ref :: "nat \<Rightarrow> nat option \<Rightarrow> gerror + ref" where
  "New_ref T a =
     (case a of None \<Rightarrow> Inl (RefErr ErrActorRefNilActor) | Some x \<Rightarrow> Inr \<lparr>ref_type = T, ref_actor = x\<rparr>)"

text \<open>Receive, Stop and State of the actors: parameters, given by the actors' own models.\<close>

record ('c, 'w) actor_api =
  api_Receive :: "nat \<Rightarrow> 'c \<Rightarrow> 'w \<Rightarrow> gerror option \<times> 'w"
  api_Stop :: "nat \<Rightarrow> int \<Rightarrow> 'w \<Rightarrow> gerror option \<times> 'w"
  api_State :: "nat \<Rightarrow> 'w \<Rightarrow> 64 word"

definition ref_Send :: "('c, 'w) actor_api \<Rightarrow> ref \<Rightarrow> 'c \<Rightarrow> 'w \<Rightarrow> gerror option \<times> 'w" where
  "ref_Send api r c w = api_Receive api (ref_actor r) c w"

definition ref_Stop :: "('c, 'w) actor_api \<Rightarrow> ref \<Rightarrow> int \<Rightarrow> 'w \<Rightarrow> gerror option \<times> 'w" where
  "ref_Stop api r timeout w = api_Stop api (ref_actor r) timeout w"

definition ref_State :: "('c, 'w) actor_api \<Rightarrow> ref \<Rightarrow> 'w \<Rightarrow> 64 word" where
  "ref_State api r w = api_State api (ref_actor r) w"

section \<open>The registry\<close>

text \<open>A value of type \<open>any\<close> holding a command: nil, or an \<open>Executable[T]\<close> for one \<open>T\<close>.\<close>

datatype 'c any_cmd = NilCmd | ExecutableOf nat 'c

text \<open>The dispatch closure Register makes captures the type and the reference.\<close>

record entry =
  managed :: ref
  dispatch :: ref

record actor_system =
  sys_actors :: "(string \<times> entry) list"
  order :: "string list"
  sys_stopped :: bool
  eventHandlers :: "nat list"

definition New_system :: actor_system where
  "New_system = \<lparr>sys_actors = [], order = [], sys_stopped = False, eventHandlers = []\<rparr>"

definition register ::
  "string \<Rightarrow> ref option \<Rightarrow> ref \<Rightarrow> 'x actor_system_scheme \<Rightarrow> gerror option \<times> 'x actor_system_scheme" where
  "register name m d s =
     (if sys_stopped s then (Some (SystemErr ErrSystemStopped), s)
      else if name = [] then (Some (SystemErr ErrActorNameEmpty), s)
      else
        (case m of
           None \<Rightarrow> (Some (SystemErr ErrActorNilRef), s)
         | Some r \<Rightarrow>
             (case map_of (sys_actors s) name of
                Some e \<Rightarrow> (Some (SystemErr ErrActorNameDuplicate), s)
              | None \<Rightarrow>
                  (None, s\<lparr>sys_actors := AList.update name \<lparr>managed = r, dispatch = d\<rparr> (sys_actors s),
                           order := order s @ [name]\<rparr>))))"

definition Register ::
  "string \<Rightarrow> ref option \<Rightarrow> 'x actor_system_scheme \<Rightarrow> gerror option \<times> 'x actor_system_scheme" where
  "Register name r s =
     (case r of
        None \<Rightarrow> (Some (SystemErr ErrActorNilRef), s)
      | Some x \<Rightarrow> register name (Some x) x s)"

text \<open>The closure: \<open>cmd.(actor.Executable[T])\<close>, then \<open>ref.Send\<close>.\<close>

definition dispatch_closure ::
  "('c, 'w) actor_api \<Rightarrow> ref \<Rightarrow> 'c any_cmd \<Rightarrow> 'w \<Rightarrow> gerror option \<times> 'w" where
  "dispatch_closure api r cmd w =
     (case cmd of
        NilCmd \<Rightarrow> (Some (SystemErr ErrCommandTypeMismatch), w)
      | ExecutableOf T c \<Rightarrow>
          if T \<noteq> ref_type r then (Some (SystemErr ErrCommandTypeMismatch), w) else ref_Send api r c w)"

text \<open>The part of send under the read lock, and the whole.\<close>

definition send_lookup :: "string \<Rightarrow> 'x actor_system_scheme \<Rightarrow> gerror + ref" where
  "send_lookup name s =
     (if sys_stopped s then Inl (SystemErr ErrSystemStopped)
      else
        (case map_of (sys_actors s) name of
           None \<Rightarrow> Inl (SystemErr ErrActorNotFound)
         | Some e \<Rightarrow> Inr (dispatch e)))"

definition Send ::
  "('c, 'w) actor_api \<Rightarrow> string \<Rightarrow> 'c any_cmd \<Rightarrow> 'x actor_system_scheme \<Rightarrow> 'w \<Rightarrow> gerror option \<times> 'w" where
  "Send api name cmd s w =
     (case send_lookup name s of Inl err \<Rightarrow> (Some err, w) | Inr fn \<Rightarrow> dispatch_closure api fn cmd w)"

definition Get :: "string \<Rightarrow> 'x actor_system_scheme \<Rightarrow> gerror + ref" where
  "Get name s =
     (if sys_stopped s then Inl (SystemErr ErrSystemStopped)
      else
        (case map_of (sys_actors s) name of
           None \<Rightarrow> Inl (SystemErr ErrActorNotFound)
         | Some e \<Rightarrow> Inr (managed e)))"

text \<open>The tombstone loop of Unregister: the first slot that holds the name becomes empty.\<close>

fun tombstone :: "string \<Rightarrow> string list \<Rightarrow> string list" where
  "tombstone name [] = []"
| "tombstone name (n # ns) = (if n = name then [] # ns else n # tombstone name ns)"

definition Unregister ::
  "string \<Rightarrow> 'x actor_system_scheme \<Rightarrow> gerror option \<times> 'x actor_system_scheme" where
  "Unregister name s =
     (if sys_stopped s then (Some (SystemErr ErrSystemStopped), s)
      else
        (case map_of (sys_actors s) name of
           None \<Rightarrow> (Some (SystemErr ErrActorNotFound), s)
         | Some e \<Rightarrow>
             (None, s\<lparr>sys_actors := AList.delete name (sys_actors s),
                      order := tombstone name (order s)\<rparr>)))"

definition Count :: "'x actor_system_scheme \<Rightarrow> nat" where
  "Count s = length (sys_actors s)"

section \<open>Events\<close>

datatype event_kind = EventActorStarted | EventActorStopped | EventSystemStopping

record event =
  Kind :: event_kind
  ActorName :: string

definition OnEvent :: "nat \<Rightarrow> 'x actor_system_scheme \<Rightarrow> 'x actor_system_scheme" where
  "OnEvent h s = s\<lparr>eventHandlers := eventHandlers s @ [h]\<rparr>"

text \<open>The calls emitEvent makes, on the handlers it copied.\<close>

definition emitEvent :: "event \<Rightarrow> 'x actor_system_scheme \<Rightarrow> (nat \<times> event) list" where
  "emitEvent ev s = map (\<lambda>h. (h, ev)) (eventHandlers s)"

text \<open>The part of StopAll under the lock: the list of actors to stop, in that order.\<close>

definition stop_list :: "'x actor_system_scheme \<Rightarrow> (string \<times> ref) list" where
  "stop_list s =
     List.map_filter
       (\<lambda>n. if n = [] then None else map_option (\<lambda>e. (n, managed e)) (map_of (sys_actors s) n))
       (rev (order s))"

definition stop_begin ::
  "'x actor_system_scheme \<Rightarrow> (gerror + (string \<times> ref) list) \<times> 'x actor_system_scheme" where
  "stop_begin s =
     (if sys_stopped s then (Inl (SystemErr ErrSystemStopped), s)
      else (Inr (stop_list s), s\<lparr>sys_stopped := True, sys_actors := [], order := []\<rparr>))"

lemmas system_defs = register_def Register_def send_lookup_def Send_def Get_def Unregister_def
  Count_def OnEvent_def emitEvent_def stop_begin_def

declare system_defs [op_defs]

section \<open>The specification\<close>

text \<open>
  The registered actors in the order of registration, and whether the system is closed. An
  empty name is never registered.
\<close>

record sys_spec =
  regs :: "(string \<times> ref) list"
  closed :: bool
  listeners :: "nat list"

datatype 'c sys_call =
    CallRegister string "ref option"
  | CallUnregister string
  | CallGet string
  | CallSend string "'c any_cmd"
  | CallCount
  | CallOnEvent nat
  | CallStopBegin

datatype sys_answer =
    AnsErr "gerror option"
  | AnsRef "gerror + ref"
  | AnsSend "gerror + ref"
  | AnsNat nat
  | AnsStops "gerror + (string \<times> ref) list"

text \<open>The answer of a Send is the reference whose Send is called, or the error.\<close>

definition send_target :: "string \<Rightarrow> 'c any_cmd \<Rightarrow> 'x actor_system_scheme \<Rightarrow> gerror + ref" where
  "send_target name cmd s =
     (case send_lookup name s of
        Inl err \<Rightarrow> Inl err
      | Inr r \<Rightarrow>
          (case cmd of
             NilCmd \<Rightarrow> Inl (SystemErr ErrCommandTypeMismatch)
           | ExecutableOf T c \<Rightarrow>
               if T = ref_type r then Inr r else Inl (SystemErr ErrCommandTypeMismatch)))"

fun sys_do :: "'c sys_call \<Rightarrow> 'x actor_system_scheme \<Rightarrow> sys_answer \<times> 'x actor_system_scheme" where
  "sys_do (CallRegister n r) s = apfst AnsErr (Register n r s)"
| "sys_do (CallUnregister n) s = apfst AnsErr (Unregister n s)"
| "sys_do (CallGet n) s = (AnsRef (Get n s), s)"
| "sys_do (CallSend n cmd) s = (AnsSend (send_target n cmd s), s)"
| "sys_do CallCount s = (AnsNat (Count s), s)"
| "sys_do (CallOnEvent h) s = (AnsErr None, OnEvent h s)"
| "sys_do CallStopBegin s = apfst AnsStops (stop_begin s)"

definition spec_find :: "string \<Rightarrow> sys_spec \<Rightarrow> gerror + ref" where
  "spec_find n s =
     (if closed s then Inl (SystemErr ErrSystemStopped)
      else (case map_of (regs s) n of None \<Rightarrow> Inl (SystemErr ErrActorNotFound) | Some r \<Rightarrow> Inr r))"

definition sys_spec_new :: sys_spec where
  "sys_spec_new = \<lparr>regs = [], closed = False, listeners = []\<rparr>"

fun sys_spec_do :: "'c sys_call \<Rightarrow> sys_spec \<Rightarrow> sys_answer \<times> sys_spec" where
  "sys_spec_do (CallRegister n None) s = (AnsErr (Some (SystemErr ErrActorNilRef)), s)"
| "sys_spec_do (CallRegister n (Some r)) s =
     (if closed s then (AnsErr (Some (SystemErr ErrSystemStopped)), s)
      else if n = [] then (AnsErr (Some (SystemErr ErrActorNameEmpty)), s)
      else if n \<in> fst ` set (regs s) then (AnsErr (Some (SystemErr ErrActorNameDuplicate)), s)
      else (AnsErr None, s\<lparr>regs := regs s @ [(n, r)]\<rparr>))"
| "sys_spec_do (CallUnregister n) s =
     (case spec_find n s of
        Inl err \<Rightarrow> (AnsErr (Some err), s)
      | Inr r \<Rightarrow> (AnsErr None, s\<lparr>regs := filter (\<lambda>x. fst x \<noteq> n) (regs s)\<rparr>))"
| "sys_spec_do (CallGet n) s = (AnsRef (spec_find n s), s)"
| "sys_spec_do (CallSend n cmd) s =
     (AnsSend (case spec_find n s of
        Inl err \<Rightarrow> Inl err
      | Inr r \<Rightarrow>
          if \<exists>c. cmd = ExecutableOf (ref_type r) c then Inr r
          else Inl (SystemErr ErrCommandTypeMismatch)), s)"
| "sys_spec_do CallCount s = (AnsNat (length (regs s)), s)"
| "sys_spec_do (CallOnEvent h) s = (AnsErr None, s\<lparr>listeners := listeners s @ [h]\<rparr>)"
| "sys_spec_do CallStopBegin s =
     (if closed s then (AnsStops (Inl (SystemErr ErrSystemStopped)), s)
      else (AnsStops (Inr (rev (regs s))), s\<lparr>regs := [], closed := True\<rparr>))"

section \<open>The simulation\<close>

definition sys_sim :: "'x actor_system_scheme \<Rightarrow> sys_spec \<Rightarrow> bool" where
  "sys_sim s t \<longleftrightarrow>
     sys_stopped s = closed t \<and> eventHandlers s = listeners t \<and>
     distinct (map fst (regs t)) \<and> [] \<notin> fst ` set (regs t) \<and>
     filter (\<lambda>n. n \<noteq> []) (order s) = map fst (regs t) \<and>
     distinct (map fst (sys_actors s)) \<and>
     map_of (sys_actors s) = map_option (\<lambda>r. \<lparr>managed = r, dispatch = r\<rparr>) \<circ> map_of (regs t)"

lemma length_map_of: "distinct (map fst xs) \<Longrightarrow> length xs = card (dom (map_of xs))"
  by (metis distinct_card dom_map_of_conv_image_fst length_map list.set_map)

lemma filter_tombstone:
  "n \<noteq> [] \<Longrightarrow> filter (\<lambda>x. x \<noteq> []) (tombstone n ns) = remove1 n (filter (\<lambda>x. x \<noteq> []) ns)"
  by (induction ns) auto

lemma keys_filter:
  "distinct (map fst xs) \<Longrightarrow> map fst (filter (\<lambda>x. fst x \<noteq> n) xs) = remove1 n (map fst xs)"
  by (simp add: distinct_remove1_removeAll removeAll_filter_not_eq filter_map comp_def eq_commute)

lemma map_filter_lookup:
  assumes "distinct (map fst rs)" "set xs \<subseteq> set rs" "[] \<notin> fst ` set rs"
  shows "List.map_filter
    (\<lambda>n. if n = [] then None else map_option (\<lambda>r. (n, r)) (map_of rs n)) (map fst xs) = xs"
  using assms(2)
proof (induction xs)
  case (Cons x xs)
  with assms(1) have "map_of rs (fst x) = Some (snd x)"
    by simp
  moreover have "fst x \<noteq> []"
    using Cons.prems assms(3) by (metis image_eqI list.set_intros(1) subset_iff)
  ultimately show ?case
    using Cons by (simp add: List.map_filter_simps)
qed (simp add: List.map_filter_simps)

lemma map_filter_skip:
  "f [] = None \<Longrightarrow> List.map_filter f xs = List.map_filter f (filter (\<lambda>n. n \<noteq> []) xs)"
  by (induction xs) (auto simp: List.map_filter_simps split: option.split)

lemma stop_list_sim:
  assumes "sys_sim s t"
  shows "stop_list s = rev (regs t)"
proof -
  let ?f = "\<lambda>n. if n = [] then None else map_option (\<lambda>r. (n, r)) (map_of (regs t) n)"
  have "stop_list s = List.map_filter ?f (rev (order s))"
    using assms by (simp add: stop_list_def sys_sim_def option.map_comp comp_def cong: if_cong)
  also have "\<dots> = List.map_filter ?f (map fst (rev (regs t)))"
  proof -
    have "filter (\<lambda>n. n \<noteq> []) (rev (order s)) = map fst (rev (regs t))"
      using assms by (simp add: sys_sim_def rev_filter [symmetric] rev_map)
    then show ?thesis
      by (subst map_filter_skip) simp_all
  qed
  also have "\<dots> = rev (regs t)"
    using assms by (intro map_filter_lookup) (auto simp: sys_sim_def)
  finally show ?thesis .
qed

lemma sim_lookup:
  assumes "sys_sim s t"
  shows "map_of (sys_actors s) n = map_option (\<lambda>r. \<lparr>managed = r, dispatch = r\<rparr>) (map_of (regs t) n)"
  using assms by (simp add: sys_sim_def)

lemma register_simulates:
  assumes "sys_sim s t" "n \<noteq> []" "n \<notin> fst ` set (regs t)"
  shows "sys_sim (s\<lparr>sys_actors := AList.update n \<lparr>managed = r, dispatch = r\<rparr> (sys_actors s),
    order := order s @ [n]\<rparr>) (t\<lparr>regs := regs t @ [(n, r)]\<rparr>)"
proof -
  have "map_of (regs t) n = None"
    using assms(3) by (simp add: map_of_eq_None_iff)
  with assms show ?thesis
    by (auto simp: sys_sim_def distinct_update update_conv' fun_eq_iff map_add_def split: option.splits)
qed

lemma map_of_filter_other:
  "map_of (filter (\<lambda>x. fst x \<noteq> n) xs) m = (if m = n then None else map_of xs m)"
  by (induction xs) auto

lemma unregister_simulates:
  assumes "sys_sim s t" "map_of (regs t) n = Some r"
  shows "sys_sim (s\<lparr>sys_actors := AList.delete n (sys_actors s), order := tombstone n (order s)\<rparr>)
    (t\<lparr>regs := filter (\<lambda>x. fst x \<noteq> n) (regs t)\<rparr>)"
proof -
  have "n \<noteq> []"
    using assms by (auto simp: sys_sim_def dest!: map_of_SomeD intro: rev_image_eqI)
  with assms show ?thesis
    by (auto simp: sys_sim_def distinct_delete delete_conv' fun_eq_iff filter_tombstone keys_filter map_of_filter_other)
qed

lemma count_simulates: "sys_sim s t \<Longrightarrow> length (sys_actors s) = length (regs t)"
  by (simp add: sys_sim_def length_map_of dom_map_option_comp)

lemma sys_do_simulates:
  assumes "sys_sim s t"
  shows "fst (sys_do c s) = fst (sys_spec_do c t) \<and> sys_sim (snd (sys_do c s)) (snd (sys_spec_do c t))"
proof (cases c)
  case (CallRegister n r)
  from assms have "sys_stopped s = closed t"
    by (simp add: sys_sim_def)
  moreover have "n \<in> fst ` set (regs t) \<longleftrightarrow> map_of (regs t) n \<noteq> None"
    by (simp add: map_of_eq_None_iff)
  ultimately show ?thesis
    using CallRegister assms sim_lookup [OF assms, of n] register_simulates [OF assms, of n]
    by (cases r; cases "map_of (regs t) n") (simp_all add: Register_def register_def)
next
  case (CallUnregister n)
  from assms have "sys_stopped s = closed t"
    by (simp add: sys_sim_def)
  with CallUnregister assms sim_lookup [OF assms] unregister_simulates [OF assms] show ?thesis
    by (auto simp: Unregister_def spec_find_def split: option.splits)
next
  case CallCount
  with assms count_simulates [OF assms] show ?thesis
    by (simp add: Count_def)
next
  case CallStopBegin
  with assms stop_list_sim [OF assms] show ?thesis
    by (auto simp: sys_sim_def stop_begin_def)
qed (use assms sim_lookup [OF assms] in \<open>auto simp: sys_sim_def system_defs send_target_def spec_find_def
    split: option.splits any_cmd.splits\<close>)

interpretation sys_refinement: call_refinement sys_do sys_spec_do sys_sim
  by unfold_locales (rule sys_do_simulates)

lemma new_system_sim: "sys_sim New_system sys_spec_new"
  by (simp add: sys_sim_def New_system_def sys_spec_new_def fun_eq_iff)

lemma send_lookup_sim: "sys_sim s t \<Longrightarrow> send_lookup name s = spec_find name t"
  using sim_lookup [of s t name] by (auto simp: send_lookup_def spec_find_def sys_sim_def split: option.splits)

section \<open>Properties\<close>

text \<open>
  C9: Every sequence of operations on a new system gets the answers of the specification, a
  list of the registered names in the order of registration: Register refuses, in this order, a
  nil reference, a stopped system, an empty and a duplicate name; Unregister, Get and Send find
  exactly the registered names; Count is their number; Send goes to the reference registered
  under the name and only with a command of its type; and the list of actors StopAll will stop
  is that of the registered ones in reverse order, after which every operation is refused.
\<close>

theorem system_refines_spec:
  "fst (history sys_do cs New_system) = fst (history sys_spec_do cs sys_spec_new)"
  by (rule sys_refinement.same_answers [OF new_system_sim])

text \<open>
  C33: After any operations on a system, Send runs Receive of an actor at most once, and only of
  the actor registered under the name, for the entity type the command executes on; in every
  other case it leaves the actors alone and returns the specific error.
\<close>

theorem send_reaches_registered_type:
  "Send api name cmd (snd (history sys_do cs New_system)) w =
     (case spec_find name (snd (history sys_spec_do cs sys_spec_new)) of
        Inl err \<Rightarrow> (Some err, w)
      | Inr r \<Rightarrow>
          (case cmd of
             NilCmd \<Rightarrow> (Some (SystemErr ErrCommandTypeMismatch), w)
           | ExecutableOf T c \<Rightarrow>
               if T = ref_type r then api_Receive api (ref_actor r) c w
               else (Some (SystemErr ErrCommandTypeMismatch), w)))"
proof -
  have sim: "sys_sim (snd (history sys_do cs New_system)) (snd (history sys_spec_do cs sys_spec_new))"
    using sys_refinement.history_simulates [OF new_system_sim] by blast
  from send_lookup_sim [OF sim, of name] show ?thesis
    by (auto simp: Send_def dispatch_closure_def ref_Send_def split: sum.splits any_cmd.splits)
qed

text \<open>
  C34: After any operations the registry is well-formed: no name is registered twice or empty,
  the slots of the registration order that are not tombstones hold each registered name once, as
  many as Count tells, and every entry dispatches to the actor it manages.
\<close>

theorem registry_well_formed:
  "let s = snd (history sys_do cs New_system) in
    distinct (map fst (sys_actors s)) \<and> [] \<notin> fst ` set (sys_actors s) \<and>
    distinct (filter (\<lambda>n. n \<noteq> []) (order s)) \<and> set (filter (\<lambda>n. n \<noteq> []) (order s)) = fst ` set (sys_actors s) \<and>
    Count s = length (filter (\<lambda>n. n \<noteq> []) (order s)) \<and>
    list_all (\<lambda>(n, e). managed e = dispatch e) (sys_actors s)"
proof -
  define s where "s = snd (history sys_do cs New_system)"
  obtain t where sim: "sys_sim s t"
    using sys_refinement.history_related [OF new_system_sim] unfolding s_def by blast
  have map: "map_of (sys_actors s) = map_option (\<lambda>r. \<lparr>managed = r, dispatch = r\<rparr>) \<circ> map_of (regs t)"
    and dist: "distinct (map fst (sys_actors s))"
    and ord: "filter (\<lambda>n. n \<noteq> []) (order s) = map fst (regs t)"
    using sim by (simp_all add: sys_sim_def)
  have "fst ` set (sys_actors s) = fst ` set (regs t)"
    using arg_cong [OF map, of dom] by (simp add: dom_map_option_comp dom_map_of_conv_image_fst)
  moreover have "managed e = dispatch e" if "(n, e) \<in> set (sys_actors s)" for n e
    using map_of_is_SomeI [OF dist that] map by auto
  ultimately show ?thesis
    using sim ord dist count_simulates [OF sim] unfolding Let_def s_def [symmetric]
    by (auto simp: sys_sim_def Count_def list_all_iff)
qed

end
