(* ===== verification/System_Stop.thy ===== *)
theory System_Stop
  imports System Actor_StartNew
begin

text \<open>
  The operations of an \<open>ActorSystem\<close> that release its lock: StopAll, which stops the actors one
  by one and emits events in between (\<open>pkg/system/system.go\<close>), as a machine in which other
  callers' operations interleave; and Spawn (\<open>pkg/system/spawn.go\<close>).
\<close>

section \<open>StopAll\<close>

datatype stop_action = Emit event | StopOne string ref

text \<open>What the outside sees: Stop called on an actor, with its result; a handler called.\<close>

datatype obs = ObsStop ref int "gerror option" | ObsEvent nat event | ObsRefused gerror

record sys_run = actor_system +
  todo :: "stop_action list option"
  stop_timeout :: int
  stop_errs :: "gerror list"
  stop_return :: "gerror option option"
  seen :: "obs list"

definition sys_run_new :: sys_run where
  "sys_run_new = actor_system.extend New_system
     \<lparr>todo = None, stop_timeout = 0, stop_errs = [], stop_return = None, seen = []\<rparr>"

datatype 'c sys_label = SysCall "'c sys_call" | StopAllCall int | StopAllStep "gerror option"

fun stop_actions :: "(string \<times> ref) list \<Rightarrow> stop_action list" where
  "stop_actions [] = []"
| "stop_actions ((n, r) # es) =
     StopOne n r # Emit \<lparr>Kind = EventActorStopped, ActorName = n\<rparr> # stop_actions es"

definition stop_all_call :: "int \<Rightarrow> sys_run \<Rightarrow> sys_run" where
  "stop_all_call timeout s =
     (case stop_begin s of
        (Inl err, s') \<Rightarrow> s'\<lparr>seen := seen s' @ [ObsRefused err]\<rparr>
      | (Inr entries, s') \<Rightarrow>
          s'\<lparr>todo := Some (Emit \<lparr>Kind = EventSystemStopping, ActorName = []\<rparr> # stop_actions entries),
             stop_timeout := timeout\<rparr>)"

definition stop_all_step :: "gerror option \<Rightarrow> sys_run \<Rightarrow> sys_run option" where
  "stop_all_step result s =
     (case todo s of
        None \<Rightarrow> None
      | Some [] \<Rightarrow>
          Some (s\<lparr>todo := None, stop_return := Some (errors_join (map Some (stop_errs s)))\<rparr>)
      | Some (Emit ev # as) \<Rightarrow>
          Some (s\<lparr>todo := Some as, seen := seen s @ map (\<lambda>(h, e). ObsEvent h e) (emitEvent ev s)\<rparr>)
      | Some (StopOne n r # as) \<Rightarrow>
          Some (s\<lparr>todo := Some as, seen := seen s @ [ObsStop r (stop_timeout s) result],
                 stop_errs := stop_errs s @ (case result of None \<Rightarrow> [] | Some e \<Rightarrow> [e])\<rparr>))"

fun sys_step :: "'c sys_label \<Rightarrow> sys_run \<Rightarrow> sys_run option" where
  "sys_step (SysCall c) s = (if c = CallStopBegin then None else Some (snd (sys_do c s)))"
| "sys_step (StopAllCall timeout) s = Some (stop_all_call timeout s)"
| "sys_step (StopAllStep result) s = stop_all_step result s"

fun stops_seen :: "obs list \<Rightarrow> (ref \<times> gerror option) list" where
  "stops_seen [] = []"
| "stops_seen (ObsStop r t e # os) = (r, e) # stops_seen os"
| "stops_seen (x # os) = stops_seen os"

fun stops_pending :: "stop_action list \<Rightarrow> ref list" where
  "stops_pending [] = []"
| "stops_pending (StopOne n r # as) = r # stops_pending as"
| "stops_pending (Emit ev # as) = stops_pending as"

lemma stops_seen_append [simp]: "stops_seen (xs @ ys) = stops_seen xs @ stops_seen ys"
  by (induction xs rule: stops_seen.induct) simp_all

lemma stops_seen_events [simp]: "stops_seen (map (\<lambda>(h, e). ObsEvent h e) xs) = []"
  by (induction xs) auto

lemma stops_pending_actions [simp]: "stops_pending (stop_actions es) = map snd es"
  by (induction es rule: stop_actions.induct) simp_all

text \<open>After the lock of StopAll: the actors stopped and to be stopped are \<open>rs\<close> in order.\<close>

definition stopping_inv :: "ref list \<Rightarrow> sys_run \<Rightarrow> bool" where
  "stopping_inv rs s \<longleftrightarrow>
     sys_stopped s \<and> stop_errs s = non_nil (map snd (stops_seen (seen s))) \<and>
     (case stop_return s of
        None \<Rightarrow> (\<exists>as. todo s = Some as \<and> map fst (stops_seen (seen s)) @ stops_pending as = rs)
      | Some ret \<Rightarrow> todo s = None \<and> map fst (stops_seen (seen s)) = rs \<and>
          ret = errors_join (map Some (stop_errs s)))"

lemma sys_do_stopped:
  assumes "sys_stopped s" "c \<noteq> CallStopBegin"
  shows "sys_stopped (snd (sys_do c s)) \<and> sys_run.more (snd (sys_do c s)) = sys_run.more s \<and>
    todo (snd (sys_do c s)) = todo s \<and> stop_errs (snd (sys_do c s)) = stop_errs s \<and>
    stop_return (snd (sys_do c s)) = stop_return s \<and> seen (snd (sys_do c s)) = seen s"
  using assms by (cases c) (auto simp: system_defs split: option.splits)

lemma stopping_step:
  assumes "stopping_inv rs s"
  shows "keeps (stopping_inv rs) (sys_step l s)"
proof (cases l)
  case (SysCall c)
  with assms sys_do_stopped [of s c] show ?thesis
    by (auto simp: stopping_inv_def split: option.splits)
next
  case (StopAllCall t)
  with assms show ?thesis
    by (auto simp: stopping_inv_def stop_all_call_def stop_begin_def split: option.splits)
next
  case (StopAllStep res)
  with assms show ?thesis
    by (auto simp: stopping_inv_def stop_all_step_def split: option.splits list.splits stop_action.splits)
qed

interpretation stopping_machine: invariant_machine sys_step "\<lambda>_. True" "stopping_inv rs" for rs
  by unfold_locales (rule stopping_step)

lemma runs_calls:
  "runs sys_step (map SysCall cs) s = Some t \<Longrightarrow> t = snd (history sys_do cs s)"
  by (induction cs arbitrary: s) (auto simp: case_prod_beta split: if_splits)

lemma sys_do_open: "c \<noteq> CallStopBegin \<Longrightarrow> sys_stopped (snd (sys_do c s)) = sys_stopped s"
  by (cases c) (auto simp: system_defs split: option.splits)

lemma runs_calls_open:
  "runs sys_step (map SysCall cs) s = Some t \<Longrightarrow> sys_stopped t = sys_stopped s"
  by (induction cs arbitrary: s) (auto simp: sys_do_open split: if_splits)

lemma sys_do_more: "sys_run.more (snd (sys_do c s)) = sys_run.more s \<and>
    todo (snd (sys_do c s)) = todo s \<and> stop_errs (snd (sys_do c s)) = stop_errs s \<and>
    stop_return (snd (sys_do c s)) = stop_return s \<and> seen (snd (sys_do c s)) = seen s"
  by (cases c) (auto simp: system_defs split: option.splits)

lemma history_more:
  "todo (snd (history sys_do cs s)) = todo s \<and> stop_errs (snd (history sys_do cs s)) = stop_errs s \<and>
   stop_return (snd (history sys_do cs s)) = stop_return s \<and> seen (snd (history sys_do cs s)) = seen s"
  by (induction cs arbitrary: s) (simp_all add: case_prod_beta sys_do_more)

section \<open>StopAll by itself\<close>

text \<open>The same call with nobody interfering, on actors whose Stop is that of \<open>api\<close>.\<close>

fun stop_each ::
  "('c, 'w) actor_api \<Rightarrow> int \<Rightarrow> (string \<times> ref) list \<Rightarrow> 'w \<Rightarrow> gerror option list \<times> 'w" where
  "stop_each api timeout [] w = ([], w)"
| "stop_each api timeout ((n, r) # es) w =
     (case ref_Stop api r timeout w of (err, w') \<Rightarrow> apfst (Cons err) (stop_each api timeout es w'))"

definition StopAll ::
  "('c, 'w) actor_api \<Rightarrow> int \<Rightarrow> 'x actor_system_scheme \<times> 'w \<Rightarrow>
     gerror option \<times> 'x actor_system_scheme \<times> 'w" where
  "StopAll api timeout sw =
     (case stop_begin (fst sw) of
        (Inl err, s') \<Rightarrow> (Some err, s', snd sw)
      | (Inr entries, s') \<Rightarrow>
          (case stop_each api timeout entries (snd sw) of
             (errs, w') \<Rightarrow> (errors_join errs, s', w')))"

definition steps_of :: "gerror option list \<Rightarrow> 'c sys_label list" where
  "steps_of errs = concat (map (\<lambda>e. [StopAllStep e, StopAllStep None]) errs)"

lemma stop_each_runs:
  fixes api :: "('c, 'w) actor_api"
  assumes "todo s = Some (stop_actions es)" "fst (stop_each api timeout es w) = errs"
  shows "\<exists>t. runs sys_step (steps_of errs @ [StopAllStep None] :: 'l sys_label list) s = Some t \<and>
    stop_return t = Some (errors_join (map Some (stop_errs s @ non_nil errs)))"
  using assms
proof (induction es arbitrary: s w errs)
  case Nil
  then show ?case
    by (auto simp: steps_of_def stop_all_step_def)
next
  case (Cons x es)
  obtain n r where x: "x = (n, r)" by (cases x)
  obtain err w' where st: "ref_Stop api r timeout w = (err, w')" by (cases "ref_Stop api r timeout w")
  define errs' where "errs' = fst (stop_each api timeout es w')"
  define s' where "s' = s\<lparr>todo := Some (stop_actions es),
    seen := (seen s @ [ObsStop r (stop_timeout s) err]) @
      map (\<lambda>(h, e). ObsEvent h e) (emitEvent \<lparr>Kind = EventActorStopped, ActorName = n\<rparr> s),
    stop_errs := stop_errs s @ (case err of None \<Rightarrow> [] | Some e \<Rightarrow> [e])\<rparr>"
  have errs: "errs = err # errs'"
    using Cons.prems(2) by (simp add: x st errs'_def)
  have "runs sys_step ([StopAllStep err, StopAllStep None] :: 'l sys_label list) s = Some s'"
    using Cons.prems(1) by (simp add: x stop_all_step_def s'_def emitEvent_def)
  moreover from Cons.IH [of s' w' errs'] obtain t where
    "runs sys_step (steps_of errs' @ [StopAllStep None] :: 'l sys_label list) s' = Some t"
    "stop_return t = Some (errors_join (map Some (stop_errs s' @ non_nil errs')))"
    by (auto simp: s'_def errs'_def)
  ultimately show ?case
    by (cases err) (auto simp: errs steps_of_def s'_def split: option.splits)
qed

section \<open>Spawn\<close>

text \<open>The options Spawn passes to StartNew: the caller's come last.\<close>

definition spawn_options :: "nat option \<Rightarrow> string \<Rightarrow> 'm actor_option list \<Rightarrow> 'm actor_option list" where
  "spawn_options prov nm opts = [WithProvider prov, WithName nm] @ opts"

datatype spawn_result = SpawnRef ref | SpawnError gerror | SpawnPanic gopanic

text \<open>What Spawn does besides: a best-effort Stop, or the handlers of EventActorStarted.\<close>

datatype spawn_effect = SpawnStop ref int | SpawnEvent nat event

text \<open>
  Spawn after StartNew has returned \<open>out\<close>, with the actor \<open>a\<close> if it did return one.
\<close>

definition Spawn ::
  "nat \<Rightarrow> startnew_out \<Rightarrow> nat \<Rightarrow> string \<Rightarrow> int \<Rightarrow> 'x actor_system_scheme \<Rightarrow>
     spawn_result \<times> 'x actor_system_scheme \<times> spawn_effect list" where
  "Spawn T out a nm readyTimeout s =
     (case out of
        OutPanic v \<Rightarrow> (SpawnPanic v, s, [])
      | OutError err \<Rightarrow> (SpawnError err, s, [])
      | OutActor \<Rightarrow>
          (case New_ref T (Some a) of
             Inl err \<Rightarrow> (SpawnError err, s, [SpawnStop \<lparr>ref_type = T, ref_actor = a\<rparr> readyTimeout])
           | Inr r \<Rightarrow>
               (case Register nm (Some r) s of
                  (Some regErr, s') \<Rightarrow> (SpawnError regErr, s', [SpawnStop r readyTimeout])
                | (None, s') \<Rightarrow>
                    (SpawnRef r, s', map (\<lambda>(h, e). SpawnEvent h e)
                       (emitEvent \<lparr>Kind = EventActorStarted, ActorName = nm\<rparr> s')))))"

section \<open>Properties\<close>

text \<open>
  C13: StopAll stops exactly the actors registered when it took the lock, each once, in reverse
  order of registration, whatever other callers do to the system meanwhile; the error it returns
  joins the errors of all the stops and is nil exactly when every Stop returned nil.
\<close>

theorem stop_all_lifo:
  assumes "runs sys_step (map SysCall cs @ StopAllCall timeout # ls) sys_run_new = Some s"
    "stop_return s = Some ret"
  shows "map fst (stops_seen (seen s)) = map snd (rev (regs (snd (history sys_spec_do cs sys_spec_new)))) \<and>
    ret = errors_join (map snd (stops_seen (seen s)))"
proof -
  let ?s = "snd (history sys_do cs sys_run_new)" and ?t = "snd (history sys_spec_do cs sys_spec_new)"
  from assms(1) obtain u where u: "runs sys_step (map SysCall cs) sys_run_new = Some u"
    and "runs sys_step ls (stop_all_call timeout u) = Some s"
    by (auto simp: runs_append split: option.splits)
  with runs_calls [OF u] have run: "runs sys_step ls (stop_all_call timeout ?s) = Some s"
    by simp
  have "sys_sim sys_run_new sys_spec_new"
    using new_system_sim by (simp add: sys_sim_def sys_run_new_def actor_system.defs)
  then have sim: "sys_sim ?s ?t"
    using sys_refinement.history_simulates by blast
  have new: "todo ?s = None \<and> stop_errs ?s = [] \<and> stop_return ?s = None \<and> seen ?s = []"
    by (simp add: history_more) (simp add: sys_run_new_def actor_system.defs)
  have "\<not> sys_stopped ?s"
    using runs_calls_open [OF u] runs_calls [OF u]
    by (simp add: sys_run_new_def actor_system.defs New_system_def)
  with sim new stop_list_sim [OF sim] have "stopping_inv (map snd (rev (regs ?t))) (stop_all_call timeout ?s)"
    by (simp add: stopping_inv_def stop_all_call_def stop_begin_def)
  from stopping_machine.runs_keeps [OF this _ run] assms(2) show ?thesis
    by (simp add: stopping_inv_def list_all_iff errors_join_def)
qed

definition two_workers :: "nat sys_call list" where
  "two_workers = [CallRegister ''a'' (Some \<lparr>ref_type = 1, ref_actor = 10\<rparr>),
     CallRegister ''b'' (Some \<lparr>ref_type = 1, ref_actor = 11\<rparr>)]"

theorem stop_all_lifo_witness:
  "\<exists>s. runs sys_step (map SysCall two_workers @ StopAllCall 5 # StopAllStep None #
      SysCall (CallRegister ''c'' (Some \<lparr>ref_type = 1, ref_actor = 12\<rparr>)) #
      [StopAllStep (Some (UserError 1)), StopAllStep None, StopAllStep None, StopAllStep None, StopAllStep None])
     sys_run_new = Some s \<and> map (ref_actor \<circ> fst) (stops_seen (seen s)) = [11, 10]"
proof -
  let ?ls = "StopAllStep None #
      SysCall (CallRegister ''c'' (Some \<lparr>ref_type = 1, ref_actor = 12\<rparr>)) #
      [StopAllStep (Some (UserError 1)), StopAllStep None, StopAllStep None, StopAllStep None, StopAllStep None]"
  obtain s ret where s: "runs sys_step (map SysCall two_workers @ StopAllCall 5 # ?ls) sys_run_new = Some s"
    "stop_return s = Some ret"
    by (simp add: two_workers_def sys_run_new_def actor_system.defs New_system_def system_defs
        stop_all_call_def stop_list_def List.map_filter_simps stop_all_step_def)
  from stop_all_lifo [OF s] have "map ref_actor (map fst (stops_seen (seen s))) = [11, 10]"
    by (simp add: two_workers_def sys_spec_new_def)
  with s(1) show ?thesis
    by (auto simp: comp_def)
qed

text \<open>
  StopAll returns: on a system that is not stopped, the steps of StopAll alone, each Stop
  having the result it has on its actor, reach its return with the error of \<open>StopAll\<close>, in two
  steps for each actor and two more.
\<close>

theorem stop_all_returns:
  assumes "\<not> sys_stopped s" "stop_errs s = []" "stop_return s = None"
  shows "\<exists>(ls :: 'd sys_label list) t. list_all (\<lambda>l. \<exists>e. l = StopAllStep e) ls \<and> length ls = 2 * length (stop_list s) + 2 \<and>
    runs sys_step (StopAllCall timeout # ls) s = Some t \<and>
    stop_return t = Some (fst (StopAll api timeout (s, w)))"
proof -
  let ?errs = "fst (stop_each api timeout (stop_list s) w)"
  let ?s = "s\<lparr>sys_stopped := True, sys_actors := [], order := [], stop_timeout := timeout,
    todo := Some (stop_actions (stop_list s)),
    seen := seen s @ map (\<lambda>(h, e). ObsEvent h e) (emitEvent \<lparr>Kind = EventSystemStopping, ActorName = []\<rparr> s)\<rparr>"
  have len: "length (fst (stop_each api timeout es w)) = length es" for es w
    by (induction es arbitrary: w) (auto simp: case_prod_beta)
  obtain t where t: "runs sys_step (steps_of ?errs @ [StopAllStep None] :: 'd sys_label list) ?s = Some t"
    "stop_return t = Some (errors_join (map Some (stop_errs ?s @ non_nil ?errs)))"
    using stop_each_runs [of ?s "stop_list s" api timeout w ?errs] by auto
  have "runs sys_step (StopAllCall timeout # StopAllStep None # steps_of ?errs @ [StopAllStep None] :: 'd sys_label list) s = Some t"
    using t(1) assms(1) by (simp add: stop_all_call_def stop_begin_def stop_all_step_def emitEvent_def)
  moreover have "stop_return t = Some (fst (StopAll api timeout (s, w)))"
    using t(2) assms by (simp add: StopAll_def stop_begin_def case_prod_beta errors_join_def)
  moreover have "length (steps_of es :: 'd sys_label list) = 2 * length es" for es
    by (induction es) (simp_all add: steps_of_def)
  moreover have "list_all (\<lambda>l. \<exists>e. l = StopAllStep e) (steps_of es :: 'd sys_label list)" for es
    by (induction es) (simp_all add: steps_of_def)
  ultimately show ?thesis
    by (intro exI [of _ "StopAllStep None # steps_of ?errs @ [StopAllStep None]"] exI [of _ t])
      (simp add: len)
qed

theorem stop_all_returns_witness:
  "\<exists>ls t. length ls = 6 \<and>
    runs sys_step (StopAllCall 5 # ls) (snd (history sys_do two_workers sys_run_new)) = Some t \<and>
    stop_return t = Some (Some (Joined [UserError 11, UserError 10]))"
proof -
  let ?s = "snd (history sys_do two_workers sys_run_new)"
  let ?api = "\<lparr>api_Receive = \<lambda>a (c::nat) w. (None, w), api_Stop = \<lambda>a t (w::unit). (Some (UserError a), w),
    api_State = \<lambda>a w. 1\<rparr>"
  have "\<not> sys_stopped ?s" "stop_errs ?s = []" "stop_return ?s = None" and len: "length (stop_list ?s) = 2"
    and out: "fst (StopAll ?api 5 (?s, ())) = Some (Joined [UserError 11, UserError 10])"
    by (simp_all add: two_workers_def sys_run_new_def actor_system.defs New_system_def system_defs
        stop_list_def List.map_filter_simps StopAll_def ref_Stop_def errors_join_def)
  from stop_all_returns [OF this(1-3), of 5 ?api "()"] show ?thesis
    unfolding len out by auto
qed

lemma update_fresh: "map_of al k = None \<Longrightarrow> AList.update k v al = al @ [(k, v)]"
  by (induction al) (auto split: if_splits)

text \<open>
  Spawn is all or nothing: it returns a reference exactly when StartNew returned an actor
  and its name could be registered; then the actor is found under that name and every handler
  got EventActorStarted. Otherwise the registry is as before, and an actor that was started is
  told to stop.
\<close>

theorem spawn_all_or_nothing:
  "case Spawn T out a nm timeout s of
     (SpawnRef r, s', fx) \<Rightarrow> out = OutActor \<and> r = \<lparr>ref_type = T, ref_actor = a\<rparr> \<and>
       Get nm s' = Inr r \<and> Count s' = Count s + 1 \<and>
       fx = map (\<lambda>h. SpawnEvent h \<lparr>Kind = EventActorStarted, ActorName = nm\<rparr>) (eventHandlers s)
   | (SpawnError e, s', fx) \<Rightarrow> s' = s \<and>
       (out = OutError e \<and> fx = [] \<or>
        out = OutActor \<and> fx = [SpawnStop \<lparr>ref_type = T, ref_actor = a\<rparr> timeout] \<and>
        (e = SystemErr ErrSystemStopped \<and> sys_stopped s \<or> e = SystemErr ErrActorNameEmpty \<and> nm = [] \<or>
         e = SystemErr ErrActorNameDuplicate \<and> Get nm s \<noteq> Inl (SystemErr ErrActorNotFound)))
   | (SpawnPanic v, s', fx) \<Rightarrow> s' = s \<and> fx = [] \<and> out = OutPanic v"
  by (cases out)
    (auto simp: Spawn_def New_ref_def Register_def register_def Get_def Count_def emitEvent_def update_fresh
      comp_def split: option.splits)

end
