(* ===== verification/Supervisor.thy ===== *)
theory Supervisor
  imports Go_Runtime Actor_Config "HOL-Library.AList"
begin

text \<open>
  \<open>pkg/supervision/supervisor.go\<close> and \<open>strategy.go\<close>, the operations under the supervisor's
  lock: its children, its policy and the restart budget. The goroutines that watch and restart
  children are in \<open>Supervisor_Monitor\<close>.
\<close>

section \<open>The state\<close>

text \<open>
  A child spec, a child reference and a callback are addresses. \<open>version\<close> is the counter that
  invalidates monitors. A \<open>*child\<close> is never removed, so the pointer is its index in \<open>children\<close>.
\<close>

datatype strategy = OneForOne | AllForOne | OtherStrategy int

record restart_policy =
  Strategy :: strategy
  MaxRestarts :: int
  WithinDuration :: int

record child =
  c_name :: string
  c_spec :: nat
  c_ref :: "nat option"
  version :: "64 word"

record supervisor =
  policy :: restart_policy
  children :: "child list"
  names :: "(string \<times> nat) list"
  restarts :: "int list"
  sup_stopped :: bool
  watchers :: "nat list"
  restartErrorHandlers :: "nat list"
  stopTimeout :: int

definition DefaultRestartPolicy :: restart_policy where
  "DefaultRestartPolicy =
     \<lparr>Strategy = OneForOne, MaxRestarts = 3, WithinDuration = 5 * second\<rparr>"

type_synonym sup_option = "supervisor \<Rightarrow> supervisor"

definition WithPolicy :: "restart_policy \<Rightarrow> sup_option" where
  "WithPolicy p = (\<lambda>s. s\<lparr>policy := p\<rparr>)"

definition WithStopTimeout :: "int \<Rightarrow> sup_option" where
  "WithStopTimeout t = (\<lambda>s. s\<lparr>stopTimeout := t\<rparr>)"

definition NewSupervisor :: "sup_option list \<Rightarrow> supervisor" where
  "NewSupervisor opts = fold (\<lambda>opt s. opt s) opts
     \<lparr>policy = DefaultRestartPolicy, children = [], names = [], restarts = [], sup_stopped = False,
      watchers = [], restartErrorHandlers = [], stopTimeout = 5 * second\<rparr>"

section \<open>Operations\<close>

definition Watch :: "nat \<Rightarrow> 'x supervisor_scheme \<Rightarrow> 'x supervisor_scheme" where
  "Watch cb s = s\<lparr>watchers := watchers s @ [cb]\<rparr>"

definition OnRestartError :: "nat \<Rightarrow> 'x supervisor_scheme \<Rightarrow> 'x supervisor_scheme" where
  "OnRestartError cb s = s\<lparr>restartErrorHandlers := restartErrorHandlers s @ [cb]\<rparr>"

definition Add ::
  "string \<Rightarrow> nat option \<Rightarrow> 'x supervisor_scheme \<Rightarrow> gerror option \<times> 'x supervisor_scheme" where
  "Add nm sp s =
     (if sup_stopped s then (Some (SupErr ErrSupervisorStopped), s)
      else if nm = [] then (Some (SupErr ErrChildNameEmpty), s)
      else
        (case sp of
           None \<Rightarrow> (Some (SupErr ErrNilChildSpec), s)
         | Some x \<Rightarrow>
             (case map_of (names s) nm of
                Some i \<Rightarrow> (Some (SupErr ErrChildNameDuplicate), s)
              | None \<Rightarrow>
                  (None, s\<lparr>children := children s @ [\<lparr>c_name = nm, c_spec = x, c_ref = None, version = 0\<rparr>],
                           names := AList.update nm (length (children s)) (names s)\<rparr>))))"

definition Children :: "'x supervisor_scheme \<Rightarrow> string list" where
  "Children s = map c_name (children s)"

text \<open>\<open>st r\<close> is what State() of the child reference \<open>r\<close> returns.\<close>

definition ChildState :: "(nat \<Rightarrow> 64 word) \<Rightarrow> string \<Rightarrow> 'x supervisor_scheme \<Rightarrow> gerror + 64 word" where
  "ChildState st nm s =
     (case map_of (names s) nm of
        None \<Rightarrow> Inl (SupErr ErrChildNotFound)
      | Some i \<Rightarrow>
          (case c_ref (children s ! i) of
             None \<Rightarrow> Inr (state_code Initialized)
           | Some r \<Rightarrow> Inr (st r)))"

text \<open>The locked part of startChild: the new reference, and the version its monitor captures.\<close>

definition set_ref :: "nat \<Rightarrow> nat \<Rightarrow> 'x supervisor_scheme \<Rightarrow> 64 word \<times> 'x supervisor_scheme" where
  "set_ref i r s =
     (let c = (children s ! i)\<lparr>c_ref := Some r, version := version (children s ! i) + 1\<rparr>
      in (version c, s\<lparr>children := (children s)[i := c]\<rparr>))"

text \<open>The locked part of restartAll's first loop: the version moves on, the reference is read.\<close>

definition bump :: "nat \<Rightarrow> 'x supervisor_scheme \<Rightarrow> nat option \<times> 'x supervisor_scheme" where
  "bump i s =
     (let c = (children s ! i)\<lparr>version := version (children s ! i) + 1\<rparr>
      in (c_ref c, s\<lparr>children := (children s)[i := c]\<rparr>))"

section \<open>The restart budget\<close>

text \<open>The trimming loop: the number of leading restarts before the cutoff.\<close>

fun trim_index :: "int \<Rightarrow> int list \<Rightarrow> nat" where
  "trim_index cutoff [] = 0"
| "trim_index cutoff (t # ts) = (if t < cutoff then Suc (trim_index cutoff ts) else 0)"

text \<open>
  The accounting of handleTermination at time \<open>now\<close>: whether to restart, and the restarts kept.
\<close>

definition account :: "restart_policy \<Rightarrow> int \<Rightarrow> int list \<Rightarrow> bool \<times> int list" where
  "account p now rs =
     (if MaxRestarts p > 0
      then
        (let rs1 = rs @ [now];
             cutoff = now - WithinDuration p;
             rs2 = drop (trim_index cutoff rs1) rs1
         in (\<not> int (length rs2) > MaxRestarts p, rs2))
      else (True, rs))"

text \<open>\<open>stopped\<close>, the budget and the strategy: what to restart.\<close>

definition decide :: "int \<Rightarrow> 'x supervisor_scheme \<Rightarrow> strategy option \<times> 'x supervisor_scheme" where
  "decide now s =
     (if sup_stopped s then (None, s)
      else
        (case account (policy s) now (restarts s) of
           (allowed, rs) \<Rightarrow>
             (if allowed then Some (Strategy (policy s)) else None, s\<lparr>restarts := rs\<rparr>)))"

definition sup_stop_begin ::
  "'x supervisor_scheme \<Rightarrow> (gerror + nat list) \<times> 'x supervisor_scheme" where
  "sup_stop_begin s =
     (if sup_stopped s then (Inl (SupErr ErrSupervisorStopped), s)
      else (Inr (rev [0..<length (children s)]), s\<lparr>sup_stopped := True\<rparr>))"

lemmas sup_defs = Watch_def OnRestartError_def Add_def Children_def ChildState_def set_ref_def
  bump_def account_def decide_def sup_stop_begin_def

declare sup_defs [op_defs]

section \<open>Budget lemmas\<close>

lemma trim_index_dropWhile: "drop (trim_index cutoff ts) ts = dropWhile (\<lambda>t. t < cutoff) ts"
  by (induction ts) auto

lemma dropWhile_sorted: "sorted ts \<Longrightarrow> dropWhile (\<lambda>t. t < cutoff) ts = filter (\<lambda>t. cutoff \<le> t) ts"
  by (induction ts) (auto intro!: filter_True [symmetric])

text \<open>The decisions at the failure times \<open>ts\<close>, one after the other.\<close>

fun decisions :: "restart_policy \<Rightarrow> int list \<Rightarrow> int list \<Rightarrow> bool list" where
  "decisions p rs [] = []"
| "decisions p rs (t # ts) = (case account p t rs of (ok, rs') \<Rightarrow> ok # decisions p rs' ts)"

definition recent :: "int \<Rightarrow> int list \<Rightarrow> int list" where
  "recent cutoff ts = filter (\<lambda>t. cutoff \<le> t) ts"

text \<open>
  What the supervisor keeps after the failures \<open>past\<close>: those within the window before the last.
\<close>

lemma account_recent:
  assumes "MaxRestarts p > 0" "sorted (past @ [now])" "0 \<le> WithinDuration p"
    "rs = recent c past" "past \<noteq> [] \<Longrightarrow> c \<le> now - WithinDuration p"
  shows "account p now rs =
    (int (length (recent (now - WithinDuration p) (past @ [now]))) \<le> MaxRestarts p,
     recent (now - WithinDuration p) (past @ [now]))"
proof -
  have "sorted (rs @ [now])"
    using assms(2,4) by (auto simp: recent_def sorted_append sorted_wrt_filter)
  then have "drop (trim_index (now - WithinDuration p) (rs @ [now])) (rs @ [now]) =
    recent (now - WithinDuration p) (rs @ [now])"
    by (simp only: trim_index_dropWhile dropWhile_sorted recent_def)
  also have "\<dots> = recent (now - WithinDuration p) (past @ [now])"
    using assms(4,5) by (cases "past = []") (auto simp: recent_def intro!: filter_cong)
  finally have eq: "drop (trim_index (now - WithinDuration p) (rs @ [now])) (rs @ [now]) =
    recent (now - WithinDuration p) (past @ [now])" .
  show ?thesis
    using assms(1) unfolding account_def Let_def eq by (simp add: not_less)
qed

lemma decisions_recent:
  assumes "MaxRestarts p > 0" "0 \<le> WithinDuration p" "sorted (past @ ts)" "rs = recent c past"
    "past \<noteq> [] \<Longrightarrow> c \<le> last past - WithinDuration p"
  shows "decisions p rs ts =
    map (\<lambda>i. int (length (recent (ts ! i - WithinDuration p) (past @ take (Suc i) ts))) \<le> MaxRestarts p)
      [0..<length ts]"
  using assms(3-5)
proof (induction ts arbitrary: past rs c)
  case (Cons t ts)
  have c: "c \<le> t - WithinDuration p" if "past \<noteq> []"
    using Cons.prems(1) Cons.prems(3) [OF that] last_in_set [OF that] by (fastforce simp: sorted_append)
  have "sorted (past @ [t])" "sorted ((past @ [t]) @ ts)"
    using Cons.prems(1) by (auto simp: sorted_append)
  from account_recent [OF assms(1) this(1) assms(2) Cons.prems(2) c]
    Cons.IH [OF this(2), of "recent (t - WithinDuration p) (past @ [t])" "t - WithinDuration p"]
  show ?case
    by (simp add: map_upt_Suc del: upt_Suc)
qed simp

lemma decisions_nth:
  assumes "MaxRestarts p > 0" "0 \<le> WithinDuration p" "sorted ts" "i < length ts"
  shows "decisions p [] ts ! i \<longleftrightarrow>
    int (card {j. j \<le> i \<and> ts ! i - WithinDuration p \<le> ts ! j}) \<le> MaxRestarts p"
proof -
  have "decisions p [] ts ! i \<longleftrightarrow>
    int (length (recent (ts ! i - WithinDuration p) (take (Suc i) ts))) \<le> MaxRestarts p"
    using decisions_recent [OF assms(1,2), of "[]" ts "[]"] assms(3,4) by (simp add: recent_def)
  moreover have "{j. j < length (take (Suc i) ts) \<and> ts ! i - WithinDuration p \<le> take (Suc i) ts ! j} =
    {j. j \<le> i \<and> ts ! i - WithinDuration p \<le> ts ! j}"
    using assms(4) by auto
  ultimately show ?thesis
    unfolding recent_def length_filter_conv_card by simp
qed

section \<open>The registry of children\<close>

text \<open>
  Add, Children, ChildState and StopAll's lock, and the assignment of a reference when a child
  (by index) is started, against a list of names with the current reference of each.
\<close>

datatype sup_call = SAdd string "nat option" | SChildren | SState string | SStarted nat nat | SStopBegin

datatype sup_answer =
    SErr "gerror option"
  | SNames "string list"
  | SCode "gerror + 64 word"
  | SUnit
  | SStops "gerror + nat list"

fun sup_do :: "(nat \<Rightarrow> 64 word) \<Rightarrow> sup_call \<Rightarrow> 'x supervisor_scheme \<Rightarrow> sup_answer \<times> 'x supervisor_scheme" where
  "sup_do st (SAdd nm sp) s = apfst SErr (Add nm sp s)"
| "sup_do st SChildren s = (SNames (Children s), s)"
| "sup_do st (SState nm) s = (SCode (ChildState st nm s), s)"
| "sup_do st (SStarted i r) s = (SUnit, if i < length (children s) then snd (set_ref i r s) else s)"
| "sup_do st SStopBegin s = apfst SStops (sup_stop_begin s)"

record sup_spec =
  kids :: "(string \<times> nat option) list"
  halted :: bool

fun sup_spec_do :: "(nat \<Rightarrow> 64 word) \<Rightarrow> sup_call \<Rightarrow> sup_spec \<Rightarrow> sup_answer \<times> sup_spec" where
  "sup_spec_do st (SAdd nm sp) t =
     (if halted t then (SErr (Some (SupErr ErrSupervisorStopped)), t)
      else if nm = [] then (SErr (Some (SupErr ErrChildNameEmpty)), t)
      else if sp = None then (SErr (Some (SupErr ErrNilChildSpec)), t)
      else if nm \<in> fst ` set (kids t) then (SErr (Some (SupErr ErrChildNameDuplicate)), t)
      else (SErr None, t\<lparr>kids := kids t @ [(nm, None)]\<rparr>))"
| "sup_spec_do st SChildren t = (SNames (map fst (kids t)), t)"
| "sup_spec_do st (SState nm) t =
     (SCode (case map_of (kids t) nm of
        None \<Rightarrow> Inl (SupErr ErrChildNotFound)
      | Some None \<Rightarrow> Inr (state_code Initialized)
      | Some (Some r) \<Rightarrow> Inr (st r)), t)"
| "sup_spec_do st (SStarted i r) t =
     (SUnit, if i < length (kids t) then t\<lparr>kids := (kids t)[i := (fst (kids t ! i), Some r)]\<rparr> else t)"
| "sup_spec_do st SStopBegin t =
     (if halted t then (SStops (Inl (SupErr ErrSupervisorStopped)), t)
      else (SStops (Inr (rev [0..<length (kids t)])), t\<lparr>halted := True\<rparr>))"

definition kid_of :: "child \<Rightarrow> string \<times> nat option" where
  "kid_of c = (c_name c, c_ref c)"

fun index_of :: "string list \<Rightarrow> string \<Rightarrow> nat option" where
  "index_of [] nm = None"
| "index_of (n # ns) nm = (if n = nm then Some 0 else map_option Suc (index_of ns nm))"

definition sup_sim :: "'x supervisor_scheme \<Rightarrow> sup_spec \<Rightarrow> bool" where
  "sup_sim s t \<longleftrightarrow>
     kids t = map kid_of (children s) \<and> sup_stopped s = halted t \<and>
     map_of (names s) = index_of (map fst (kids t))"

lemma index_of_None: "index_of ns nm = None \<longleftrightarrow> nm \<notin> set ns"
  by (induction ns) auto

lemma index_of_snoc: "nm \<notin> set ns \<Longrightarrow> index_of (ns @ [nm]) k = (if k = nm then Some (length ns) else index_of ns k)"
  by (induction ns) auto

lemma index_of_lookup:
  "map_of ks nm = (case index_of (map fst ks) nm of None \<Rightarrow> None | Some i \<Rightarrow> Some (snd (ks ! i)))"
  by (induction ks) (auto split: option.splits)

lemma index_of_bound: "index_of ns nm = Some i \<Longrightarrow> i < length ns"
  by (induction ns arbitrary: i) (auto split: if_splits)

lemma sup_do_simulates:
  assumes "sup_sim s t"
  shows "fst (sup_do st c s) = fst (sup_spec_do st c t) \<and> sup_sim (snd (sup_do st c s)) (snd (sup_spec_do st c t))"
proof (cases c)
  case (SAdd nm sp)
  have "nm \<in> fst ` set (kids t) \<longleftrightarrow> map_of (names s) nm \<noteq> None"
    using assms by (simp add: sup_sim_def index_of_None image_image)
  moreover have "nm \<notin> c_name ` set (children s)" if "map_of (names s) nm = None"
    using assms that by (simp add: sup_sim_def index_of_None image_image kid_of_def)
  moreover have "sup_stopped s = halted t"
    using assms by (simp add: sup_sim_def)
  ultimately show ?thesis
    using SAdd assms by (cases "map_of (names s) nm"; cases sp)
      (auto simp: sup_sim_def Add_def kid_of_def comp_def update_conv' fun_eq_iff index_of_snoc)
next
  case (SState nm)
  with assms index_of_lookup [of "kids t" nm] index_of_bound [of "map fst (kids t)" nm] show ?thesis
    by (auto simp: sup_sim_def ChildState_def kid_of_def split: option.splits)
next
  case (SStarted i r)
  with assms show ?thesis
    by (auto simp: sup_sim_def set_ref_def Let_def kid_of_def map_update comp_def)
      (metis (no_types, lifting) list_update_id map_update nth_map comp_apply fst_conv)+
qed (use assms in \<open>auto simp: sup_sim_def sup_stop_begin_def Children_def kid_of_def comp_def\<close>)

interpretation sup_refinement: call_refinement "sup_do st" "sup_spec_do st" sup_sim for st
  by unfold_locales (rule sup_do_simulates)

section \<open>Properties\<close>

text \<open>
  C27: On a new supervisor, Add, Children, ChildState and StopAll's lock answer as the
  specification, a list of the children in the order in which they were added: Add refuses, in
  this order, a stopped supervisor, an empty name, a nil spec and a duplicate name; ChildState
  is Initialized until the child was started, then the state of its latest reference; StopAll
  takes the children in reverse order, once.
\<close>

theorem supervisor_refines_spec:
  "fst (history (sup_do st) cs (NewSupervisor [WithPolicy p, WithStopTimeout t])) =
   fst (history (sup_spec_do st) cs \<lparr>kids = [], halted = False\<rparr>)"
  by (rule sup_refinement.same_answers)
    (simp add: sup_sim_def NewSupervisor_def WithPolicy_def WithStopTimeout_def fun_eq_iff)

text \<open>
  C29: With a positive MaxRestarts the supervisor restarts after a failure exactly when the
  failures of its children within WithinDuration up to and including this one, restarted or not,
  are at most MaxRestarts: trimming the list at each failure loses none that still counts.
\<close>

theorem restart_budget_exact:
  assumes "MaxRestarts p > 0" "0 \<le> WithinDuration p" "sorted ts" "i < length ts"
  shows "decisions p [] ts ! i \<longleftrightarrow>
    int (card {j. j \<le> i \<and> ts ! i - WithinDuration p \<le> ts ! j}) \<le> MaxRestarts p"
  by (rule decisions_nth [OF assms])

definition sample_policy :: restart_policy where
  "sample_policy = \<lparr>Strategy = OneForOne, MaxRestarts = 2, WithinDuration = 5\<rparr>"

theorem restart_budget_exact_witness:
  "\<not> decisions sample_policy [] [0, 1, 3, 7] ! 2 \<and> decisions sample_policy [] [0, 1, 3, 7] ! 3"
proof -
  let ?ts = "[0, 1, 3, 7] :: int list"
  have "{j. j \<le> 2 \<and> ?ts ! 2 - 5 \<le> ?ts ! j} = {0, 1, 2}" "{j. j \<le> 3 \<and> ?ts ! 3 - 5 \<le> ?ts ! j} = {2, 3}"
    by (auto simp: le_Suc_eq numeral_eq_Suc)
  with restart_budget_exact [of sample_policy ?ts 2] restart_budget_exact [of sample_policy ?ts 3] show ?thesis
    by (simp add: sample_policy_def)
qed

text \<open>
  In no period as long as WithinDuration does the supervisor restart more than MaxRestarts
  times.
\<close>

theorem restart_rate_bounded:
  assumes "MaxRestarts p > 0" "0 \<le> WithinDuration p" "sorted ts"
  shows "int (card {i. i < length ts \<and> decisions p [] ts ! i \<and> x \<le> ts ! i \<and> ts ! i \<le> x + WithinDuration p})
    \<le> MaxRestarts p"
proof -
  define S where "S = {i. i < length ts \<and> decisions p [] ts ! i \<and> x \<le> ts ! i \<and> ts ! i \<le> x + WithinDuration p}"
  have fin: "finite S"
    by (simp add: S_def)
  have "int (card S) \<le> MaxRestarts p"
  proof (cases "S = {}")
    case False
    define m where "m = Max S"
    then have m: "m \<in> S" and le: "\<forall>i\<in>S. i \<le> m"
      using fin False by simp_all
    then have "S \<subseteq> {j. j \<le> m \<and> ts ! m - WithinDuration p \<le> ts ! j}"
      by (auto simp: S_def)
    then have "card S \<le> card {j. j \<le> m \<and> ts ! m - WithinDuration p \<le> ts ! j}"
      by (intro card_mono) simp_all
    moreover have "int (card {j. j \<le> m \<and> ts ! m - WithinDuration p \<le> ts ! j}) \<le> MaxRestarts p"
      using decisions_nth [OF assms, of m] m by (simp add: S_def)
    ultimately show ?thesis
      by linarith
  qed (use assms(1) in simp)
  then show ?thesis
    by (simp add: S_def)
qed

theorem restart_rate_bounded_witness:
  "int (card {i. i < length [0, 1, 3, 7 :: int] \<and> decisions sample_policy [] [0, 1, 3, 7] ! i \<and>
     1 \<le> [0, 1, 3, 7 :: int] ! i \<and> [0, 1, 3, 7] ! i \<le> 1 + WithinDuration sample_policy}) \<le> MaxRestarts sample_policy"
proof -
  have "MaxRestarts sample_policy > 0" "0 \<le> WithinDuration sample_policy" "sorted [0, 1, 3, 7 :: int]"
    by (simp_all add: sample_policy_def)
  from restart_rate_bounded [OF this, of 1] show ?thesis .
qed

end
