(* ===== verification/Signal.thy ===== *)
theory Signal
  imports System_Stop Supervisor
begin

text \<open>
  \<open>pkg/signal/signal.go\<close>: waiting for SIGTERM, SIGINT or the end of a context, then StopAll; and
  the contract of \<open>Stoppable\<close>, met by the actor system and by the supervisor.
\<close>

section \<open>Signals\<close>

datatype os_signal = SIGTERM | SIGINT | OtherSignal int

text \<open>A channel of capacity 1 given to \<open>signal.Notify\<close>; a signal that finds it full is dropped.\<close>

record notify_chan =
  registered :: bool
  pending :: "os_signal list"

definition NotifyShutdown :: notify_chan where
  "NotifyShutdown = \<lparr>registered = True, pending = []\<rparr>"

definition notify_stop :: "notify_chan \<Rightarrow> notify_chan" where
  "notify_stop ch = ch\<lparr>registered := False\<rparr>"

definition deliver :: "os_signal \<Rightarrow> notify_chan \<Rightarrow> notify_chan" where
  "deliver sg ch =
     (if registered ch \<and> sg \<in> {SIGTERM, SIGINT} \<and> length (pending ch) < 1
      then ch\<lparr>pending := pending ch @ [sg]\<rparr> else ch)"

section \<open>AwaitShutdown\<close>

text \<open>
  What happens up to the select: signals are delivered, the context may end. \<open>None\<close>: the call
  still waits. Otherwise the result of \<open>stop_all\<close>, which is the stoppable's StopAll, and the
  channel after the deferred \<open>signal.Stop\<close>.
\<close>

datatype await_event = GotSignal os_signal | CtxDone

fun await_on :: "await_event \<Rightarrow> notify_chan \<times> bool \<Rightarrow> notify_chan \<times> bool" where
  "await_on (GotSignal sg) (ch, over) = (deliver sg ch, over)"
| "await_on CtxDone (ch, over) = (ch, True)"

definition AwaitShutdown ::
  "(int \<Rightarrow> 's \<Rightarrow> 'r \<times> 's) \<Rightarrow> int \<Rightarrow> await_event list \<Rightarrow> 's \<Rightarrow> ('r \<times> 's \<times> notify_chan) option" where
  "AwaitShutdown stop_all timeout evs s =
     (case fold await_on evs (NotifyShutdown, False) of
        (ch, over) \<Rightarrow>
          if pending ch \<noteq> [] \<or> over
          then (case stop_all timeout s of (r, s') \<Rightarrow> Some (r, s', notify_stop ch))
          else None)"

definition wakes :: "await_event \<Rightarrow> bool" where
  "wakes ev \<longleftrightarrow> ev \<in> {GotSignal SIGTERM, GotSignal SIGINT, CtxDone}"

lemma await_events:
  assumes "registered ch" "length (pending ch) \<le> 1"
  shows "case fold await_on evs (ch, over) of (ch', over') \<Rightarrow>
    (pending ch' \<noteq> [] \<or> over' \<longleftrightarrow> pending ch \<noteq> [] \<or> over \<or> list_ex wakes evs) \<and>
    registered ch' \<and> length (pending ch') \<le> 1"
  using assms
proof (induction evs arbitrary: ch over)
  case (Cons ev evs)
  show ?case
  proof (cases ev)
    case (GotSignal sg)
    have "registered (deliver sg ch)" "length (pending (deliver sg ch)) \<le> 1"
      "pending (deliver sg ch) \<noteq> [] \<longleftrightarrow> pending ch \<noteq> [] \<or> wakes ev"
      using Cons.prems by (auto simp: deliver_def wakes_def GotSignal)
    with Cons.IH [OF this(1,2), of over] GotSignal show ?thesis
      by (auto split: prod.splits)
  next
    case CtxDone
    with Cons.IH [OF Cons.prems, of True] show ?thesis
      by (auto simp: wakes_def split: prod.splits)
  qed
qed auto

text \<open>AwaitShutdown returns exactly when a signal it listens to came or its context is done.\<close>

lemma await_shutdown_wakes:
  "AwaitShutdown stop_all timeout evs s =
     (if list_ex wakes evs
      then Some (fst (stop_all timeout s), snd (stop_all timeout s),
        notify_stop (fst (fold await_on evs (NotifyShutdown, False))))
      else None)"
  using await_events [of NotifyShutdown False evs]
  by (auto simp: AwaitShutdown_def NotifyShutdown_def split: prod.splits)

section \<open>Stoppable\<close>

text \<open>Several waits on one stoppable, woken one after the other.\<close>

primrec awaits ::
  "(int \<Rightarrow> 's \<Rightarrow> 'r \<times> 's) \<Rightarrow> (int \<times> await_event list) list \<Rightarrow> 's \<Rightarrow> 'r list \<times> 's" where
  "awaits stop_all [] s = ([], s)"
| "awaits stop_all (c # cs) s =
     (case AwaitShutdown stop_all (fst c) (snd c) s of
        None \<Rightarrow> awaits stop_all cs s
      | Some (r, s', ch) \<Rightarrow> apfst (Cons r) (awaits stop_all cs s'))"

text \<open>StopAll takes effect once: afterwards it returns an error of its own and does nothing.\<close>

locale stoppable =
  fixes stop_all :: "int \<Rightarrow> 's \<Rightarrow> gerror option \<times> 's"
    and is_stopped :: "'s \<Rightarrow> bool"
    and refused :: gerror
  assumes stops: "is_stopped (snd (stop_all timeout s))"
    and stops_once: "is_stopped s \<Longrightarrow> stop_all timeout s = (Some refused, s)"
begin

lemma awaits_stopped:
  "is_stopped s \<Longrightarrow> awaits stop_all cs s = (replicate (length (filter (list_ex wakes \<circ> snd) cs)) (Some refused), s)"
  by (induction cs) (auto simp: await_shutdown_wakes stops_once)

text \<open>Only the first stops it.\<close>

lemma first_await_stops:
  assumes "list_ex wakes evs"
  shows "awaits stop_all ((timeout, evs) # cs) s =
    (fst (stop_all timeout s) # replicate (length (filter (list_ex wakes \<circ> snd) cs)) (Some refused),
     snd (stop_all timeout s))"
  using assms by (simp add: await_shutdown_wakes awaits_stopped [OF stops])

end

interpretation stoppable_system: stoppable "StopAll api" "\<lambda>sw. sys_stopped (fst sw)" "SystemErr ErrSystemStopped" for api
  by unfold_locales (auto simp: StopAll_def stop_begin_def Let_def split: prod.splits)

text \<open>
  The supervisor's StopAll with nobody interfering; \<open>stp r timeout\<close> is the Stop of reference \<open>r\<close>.
\<close>

fun sup_stop_each ::
  "(nat \<Rightarrow> int \<Rightarrow> 'w \<Rightarrow> gerror option \<times> 'w) \<Rightarrow> int \<Rightarrow> nat option list \<Rightarrow> 'w \<Rightarrow> gerror option list \<times> 'w" where
  "sup_stop_each stp timeout [] w = ([], w)"
| "sup_stop_each stp timeout (None # rs) w = sup_stop_each stp timeout rs w"
| "sup_stop_each stp timeout (Some r # rs) w =
     (case stp r timeout w of (err, w') \<Rightarrow> apfst (Cons err) (sup_stop_each stp timeout rs w'))"

definition sup_StopAll ::
  "(nat \<Rightarrow> int \<Rightarrow> 'w \<Rightarrow> gerror option \<times> 'w) \<Rightarrow> int \<Rightarrow> 'x supervisor_scheme \<times> 'w \<Rightarrow>
     gerror option \<times> 'x supervisor_scheme \<times> 'w" where
  "sup_StopAll stp timeout sw =
     (case sup_stop_begin (fst sw) of
        (Inl err, s') \<Rightarrow> (Some err, s', snd sw)
      | (Inr cs, s') \<Rightarrow>
          (case sup_stop_each stp timeout (map (\<lambda>c. c_ref (children s' ! c)) cs) (snd sw) of
             (errs, w') \<Rightarrow> (errors_join errs, s', w')))"

interpretation stoppable_supervisor: stoppable "sup_StopAll stp" "\<lambda>sw. sup_stopped (fst sw)"
    "SupErr ErrSupervisorStopped" for stp
  by unfold_locales (auto simp: sup_StopAll_def sup_stop_begin_def split: prod.splits)

section \<open>Properties\<close>

text \<open>
  C39: Of several AwaitShutdown calls on one actor system, or on one supervisor, that are woken one
  after the other by SIGTERM, SIGINT or their contexts, the first runs StopAll and returns its
  error; each later one returns the error for a stopped stoppable and changes nothing.
\<close>

theorem await_shutdown_stops_once:
  assumes "list_ex wakes evs"
  shows "awaits (StopAll api) ((timeout, evs) # cs) sw =
      (fst (StopAll api timeout sw) #
         replicate (length (filter (list_ex wakes \<circ> snd) cs)) (Some (SystemErr ErrSystemStopped)),
       snd (StopAll api timeout sw)) \<and>
    awaits (sup_StopAll stp) ((timeout, evs) # cs) pw =
      (fst (sup_StopAll stp timeout pw) #
         replicate (length (filter (list_ex wakes \<circ> snd) cs)) (Some (SupErr ErrSupervisorStopped)),
       snd (sup_StopAll stp timeout pw))"
  using stoppable_system.first_await_stops [OF assms] stoppable_supervisor.first_await_stops [OF assms] by blast

theorem await_shutdown_stops_once_witness:
  "fst (awaits (sup_StopAll (\<lambda>r t n. (Some (UserError r), n + 1 :: nat)))
      [(5, [GotSignal (OtherSignal 1), GotSignal SIGINT]), (5, []), (5, [CtxDone])]
      (snd (set_ref 0 7 (snd (Add ''a'' (Some 1) (NewSupervisor [])))), 0)) =
   [Some (Joined [UserError 7]), Some (SupErr ErrSupervisorStopped)]"
proof -
  have "list_ex wakes [GotSignal (OtherSignal 1), GotSignal SIGINT]"
    by (simp add: wakes_def)
  note once = await_shutdown_stops_once [OF this, THEN conjunct2]
  show ?thesis
    unfolding once by (simp add: wakes_def sup_StopAll_def sup_stop_begin_def set_ref_def Add_def NewSupervisor_def errors_join_def Let_def)
qed

end
