(* ===== verification/Ask.thy ===== *)
theory Ask
  imports Command
begin

text \<open>
  \<open>pkg/ask/ask.go\<close>: New sends a fresh command to the actor and awaits its result. The actor's
  goroutine executes the command while the caller waits, so the model interleaves the atomic
  actions of Execute (\<open>exec_step\<close>) with those of the caller.
\<close>

section \<open>The caller and the executing actor\<close>

text \<open>
  Where the caller is. \<open>AwReturned r err\<close> is the pair New or Await returns, \<open>None\<close> for the zero
  value of the result type.
\<close>

datatype 'r await_pc =
    AwSend
  | AwSelect
  | AwGot 'r
  | AwClosed
  | AwReturned "'r option" "gerror option"

record ('e, 'r) ask_sys =
  ask_pc :: "'r await_pc"
  ask_exec :: "('e, 'r) exec_conf"

text \<open>The command both sides share, and its state as seen by the caller.\<close>

abbreviation ask_cmd :: "('e, 'r) ask_sys \<Rightarrow> ('e, 'r) gocommand" where
  "ask_cmd s \<equiv> fst (snd (ask_exec s))"

definition set_cmd :: "('e, 'r) gocommand \<Rightarrow> ('e, 'r) ask_sys \<Rightarrow> ('e, 'r) ask_sys" where
  "set_cmd gc s = s\<lparr>ask_exec := (fst (ask_exec s), gc, snd (snd (ask_exec s)))\<rparr>"

text \<open>
  \<open>AskExec cerr\<close>: the actor performs the next action of Execute, its context having error
  \<open>cerr\<close>. \<open>AskSend err\<close>: \<open>ref.Send\<close> returns \<open>err\<close>. \<open>AwaitRecv\<close>, \<open>AwaitCtx e\<close>, \<open>AwaitTimer\<close>:
  the select of Await takes the case of the result channel, of the caller's context (which
  has error \<open>e\<close>), of the timer. \<open>AwaitError\<close>: the caller reads \<open>cmd.Error()\<close>.
\<close>

datatype ask_label =
    AskExec "gerror option"
  | AskSend "gerror option"
  | AwaitRecv
  | AwaitError
  | AwaitCtx gerror
  | AwaitTimer

fun await_step :: "ask_label \<Rightarrow> ('e, 'r) ask_sys \<Rightarrow> ('e, 'r) ask_sys option" where
  "await_step AwaitRecv s =
     (if ask_pc s = AwSelect
      then (case chan_recv (Done_chan (ask_cmd s)) of
              Received v d \<Rightarrow> Some (set_cmd ((ask_cmd s)\<lparr>gc_done := d\<rparr>) s\<lparr>ask_pc := AwGot v\<rparr>)
            | RecvClosed \<Rightarrow> Some (s\<lparr>ask_pc := AwClosed\<rparr>)
            | RecvBlocks \<Rightarrow> None)
      else None)"
| "await_step AwaitError s =
     (case ask_pc s of
        AwGot v \<Rightarrow> Some (s\<lparr>ask_pc := AwReturned (Some v) (Error_of (ask_cmd s))\<rparr>)
      | AwClosed \<Rightarrow> Some (s\<lparr>ask_pc := AwReturned None (Error_of (ask_cmd s))\<rparr>)
      | _ \<Rightarrow> None)"
| "await_step (AwaitCtx e) s =
     (if ask_pc s = AwSelect then Some (s\<lparr>ask_pc := AwReturned None (Some e)\<rparr>) else None)"
| "await_step AwaitTimer s =
     (if ask_pc s = AwSelect
      then Some (s\<lparr>ask_pc := AwReturned None (Some (AskErr ErrAskTimeout))\<rparr>) else None)"
| "await_step (AskSend err) s = None"
| "await_step (AskExec cerr) s = None"

fun ask_step :: "ask_label \<Rightarrow> ('e, 'r) ask_sys \<Rightarrow> ('e, 'r) ask_sys option" where
  "ask_step (AskExec cerr) s =
     map_option (\<lambda>c. s\<lparr>ask_exec := c\<rparr>) (exec_step cerr (ask_exec s))"
| "ask_step (AskSend err) s =
     (if ask_pc s = AwSend
      then Some (s\<lparr>ask_pc := (case err of None \<Rightarrow> AwSelect | Some e \<Rightarrow> AwReturned None (Some e))\<rparr>)
      else None)"
| "ask_step l s = await_step l s"

definition ask_new :: "('e, 'r) delegate_fn \<Rightarrow> 'e \<Rightarrow> ('e, 'r) ask_sys" where
  "ask_new fn ent = \<lparr>ask_pc = AwSend, ask_exec = (XStart, New_command fn, ent)\<rparr>"

section \<open>The invariant\<close>

text \<open>
  What the executing side guarantees about the command before each of its actions. \<open>res\<close> is
  the delegate's result on the entity, \<open>got\<close> the value the caller has taken from the channel.
  \<open>untouched\<close>: nothing sent yet; \<open>delivered\<close>: the value is in the channel or with the caller.
\<close>

definition untouched :: "'r option \<Rightarrow> ('e, 'r) gocommand \<Rightarrow> bool" where
  "untouched got gc \<longleftrightarrow> cbuf (gc_done gc) = [] \<and> got = None"

definition delivered :: "'r \<Rightarrow> 'r option \<Rightarrow> ('e, 'r) gocommand \<Rightarrow> bool" where
  "delivered v got gc \<longleftrightarrow>
     cbuf (gc_done gc) = [v] \<and> got = None \<or> cbuf (gc_done gc) = [] \<and> got = Some v"

text \<open>The result channel and the error agree with the delegate's result.\<close>

definition settled :: "'r delegate_result \<Rightarrow> 'r option \<Rightarrow> ('e, 'r) gocommand \<Rightarrow> bool" where
  "settled res got gc \<longleftrightarrow>
     (\<exists>v. res = Returns v None \<and> gc_err gc = None \<and> delivered v got gc) \<or>
     (\<exists>v e. res = Returns v (Some e) \<and> gc_err gc = Some e \<and> untouched got gc)"

fun exec_inv :: "'r delegate_result \<Rightarrow> 'r option \<Rightarrow> ('e, 'r) exec_conf \<Rightarrow> bool" where
  "exec_inv res got (pc, gc, ent) \<longleftrightarrow>
     ccap (gc_done gc) = 1 \<and> (cclosed (gc_done gc) \<longleftrightarrow> pc = XReturned) \<and>
     (case pc of
        XStart \<Rightarrow> untouched got gc \<and> gc_err gc = None
      | XCheck \<Rightarrow> untouched got gc \<and> gc_err gc = None
      | XCancel ce \<Rightarrow> untouched got gc \<and> gc_err gc = None
      | XCloseCancel \<Rightarrow> untouched got gc \<and> (\<exists>ce. gc_err gc = canceled_error ce)
      | XDelegate \<Rightarrow> untouched got gc \<and> gc_err gc = None
      | XFail e \<Rightarrow> untouched got gc \<and> gc_err gc = None \<and> (\<exists>v. res = Returns v (Some e))
      | XSend v \<Rightarrow> untouched got gc \<and> gc_err gc = None \<and> res = Returns v None
      | XFinish \<Rightarrow> gc_err gc = None \<and> (\<exists>v. res = Returns v None \<and> delivered v got gc)
      | XClose \<Rightarrow> settled res got gc
      | XRecover \<Rightarrow> untouched got gc \<and> (\<exists>p. res = DelegatePanics p)
      | XCloseRecover \<Rightarrow> untouched got gc \<and> (\<exists>p. res = DelegatePanics p) \<and>
          gc_err gc = Some (CommandErr ErrCommandPanic)
      | XReturned \<Rightarrow> settled res got gc \<or>
          untouched got gc \<and> (\<exists>ce. gc_err gc = canceled_error ce) \<or>
          untouched got gc \<and> (\<exists>p. res = DelegatePanics p) \<and>
            gc_err gc = Some (CommandErr ErrCommandPanic)
      | XPanicked p \<Rightarrow> False)"

text \<open>The errors an Ask may end with for a delegate whose result is \<open>res\<close>.\<close>

inductive ask_error :: "'r delegate_result \<Rightarrow> gerror \<Rightarrow> bool" for res :: "'r delegate_result" where
  err_delegate: "res = Returns v (Some e) \<Longrightarrow> ask_error res e"
| err_panic: "res = DelegatePanics p \<Longrightarrow> ask_error res (CommandErr ErrCommandPanic)"
| err_cancelled: "ask_error res (Joined [CommandErr ErrCommandContextCancelled, ce])"

fun got_of :: "'r await_pc \<Rightarrow> 'r option" where
  "got_of (AwGot v) = Some v"
| "got_of (AwReturned r err) = r"
| "got_of _ = None"

lemmas exec_inv_defs = untouched_def delivered_def settled_def

text \<open>
  \<open>outside\<close>: the errors that come from outside the command: what Send returned, the error of
  the caller's context, the timeout.
\<close>

definition outside_errors :: "ask_label list \<Rightarrow> gerror set" where
  "outside_errors ls =
     {e. AskSend (Some e) \<in> set ls \<or> AwaitCtx e \<in> set ls \<or>
         AwaitTimer \<in> set ls \<and> e = AskErr ErrAskTimeout}"

definition allowed_from :: "gerror set \<Rightarrow> ask_label \<Rightarrow> bool" where
  "allowed_from outside l \<longleftrightarrow> outside_errors [l] \<subseteq> outside"

fun returned_ok :: "gerror set \<Rightarrow> 'r delegate_result \<Rightarrow> 'r await_pc \<Rightarrow> bool" where
  "returned_ok outside res (AwReturned (Some v) err) \<longleftrightarrow> err = None \<and> res = Returns v None"
| "returned_ok outside res (AwReturned None err) \<longleftrightarrow>
     (\<exists>e. err = Some e \<and> (e \<in> outside \<or> ask_error res e))"
| "returned_ok outside res (AwGot v) \<longleftrightarrow> res = Returns v None"
| "returned_ok outside res pc \<longleftrightarrow> True"

definition ask_inv ::
  "gerror set \<Rightarrow> 'e \<Rightarrow> ('e, 'r) delegate_fn \<Rightarrow> ('e, 'r) ask_sys \<Rightarrow> bool" where
  "ask_inv outside ent fn s \<longleftrightarrow>
     (let res = fst (fn ent) in
      exec_inv res (got_of (ask_pc s)) (ask_exec s) \<and> delegateFn (ask_cmd s) = fn \<and>
      (fst (ask_exec s) \<in> {XStart, XCheck, XDelegate} \<longrightarrow> snd (snd (ask_exec s)) = ent) \<and>
      (ask_pc s = AwClosed \<longrightarrow> fst (ask_exec s) = XReturned \<and> gc_err (ask_cmd s) \<noteq> None) \<and>
      returned_ok outside res (ask_pc s))"

declare ask_inv_def [inv_defs]

lemma ask_new_inv: "ask_inv outside ent fn (ask_new fn ent)"
  by (simp add: ask_inv_def ask_new_def exec_inv_defs)

lemma exec_step_inv:
  assumes "exec_inv res got (pc, gc, en)" "exec_step cerr (pc, gc, en) = Some (pc', gc', en')"
    "delegateFn gc = fn" "pc \<in> {XStart, XCheck, XDelegate} \<Longrightarrow> en = ent" "fst (fn ent) = res"
  shows "exec_inv res got (pc', gc', en') \<and> delegateFn gc' = fn \<and>
    (pc' \<in> {XStart, XCheck, XDelegate} \<longrightarrow> en' = ent) \<and> pc \<noteq> XReturned"
  using assms
  by (cases pc)
    (auto simp: exec_inv_defs chan_send_def
      split: option.splits prod.splits delegate_result.splits send_result.splits if_splits)

lemma ask_step_inv:
  assumes "ask_inv outside ent fn s" "allowed_from outside l" "ask_step l s = Some t"
  shows "ask_inv outside ent fn t"
proof -
  obtain pc gc en where ex: "ask_exec s = (pc, gc, en)" by (cases "ask_exec s") auto
  have st: "ask_step l s = Some t" "outside_errors [l] \<subseteq> outside"
    using assms(2,3) by (auto simp: allowed_from_def)
  show ?thesis
  proof (cases l)
    case (AskExec cerr)
    with st ex obtain pc' gc' en' where "exec_step cerr (pc, gc, en) = Some (pc', gc', en')"
      and t: "t = s\<lparr>ask_exec := (pc', gc', en')\<rparr>" by (auto split: option.splits)
    from exec_step_inv [OF _ this(1), of "fst (fn ent)" "got_of (ask_pc s)" fn ent]
    show ?thesis using assms(1) ex t by (auto simp: ask_inv_def Let_def)
  next
    case AwaitRecv
    with st ex assms(1) show ?thesis
      by (cases pc) (auto simp: ask_inv_def Let_def chan_recv_def Done_chan_def set_cmd_def exec_inv_defs
        split: if_splits list.splits)
  next
    case AwaitError
    with st ex assms(1) show ?thesis
      by (cases pc; cases "ask_pc s") (auto simp: ask_inv_def Let_def Error_of_def exec_inv_defs intro: ask_error.intros)
  qed (use st assms(1) in \<open>auto simp: ask_inv_def Let_def outside_errors_def split: if_splits option.splits\<close>)
qed

interpretation ask_machine: invariant_machine ask_step "allowed_from outside" "ask_inv outside ent fn"
  for outside :: "gerror set" and ent :: 'e and fn :: "('e, 'r) delegate_fn"
  by unfold_locales (auto simp: keeps_def split: option.split intro: ask_step_inv)

lemma allowed_from_outside: "list_all (allowed_from (outside_errors ls)) ls"
  by (auto simp: list_all_iff allowed_from_def outside_errors_def)

lemma runs_ask_inv:
  assumes "runs ask_step ls (ask_new fn ent) = Some s"
  shows "ask_inv (outside_errors ls) ent fn s"
  using ask_machine.runs_keeps [OF ask_new_inv allowed_from_outside assms] .

section \<open>Properties\<close>

text \<open>
  However the caller's waiting and the actor's execution interleave, Ask returns either
  the delegate's value with a nil error, and then the delegate did return that value
  without error, or the zero value with a non-nil error, which came from Send, the caller's
  context or the timeout, or is the delegate's own error, ErrCommandPanic for a delegate
  that panicked, or the cancellation error. It never returns the zero value with nil.
\<close>

theorem ask_result_faithful:
  assumes "runs ask_step ls (ask_new fn ent) = Some s" and "ask_pc s = AwReturned r err"
  shows "case r of
      Some v \<Rightarrow> err = None \<and> fst (fn ent) = Returns v None
    | None \<Rightarrow> (\<exists>e. err = Some e \<and> (e \<in> outside_errors ls \<or> ask_error (fst (fn ent)) e))"
  using runs_ask_inv [OF assms(1)] assms(2)
  by (cases r) (auto simp: ask_inv_def Let_def)

theorem ask_result_faithful_witness:
  "\<exists>s. runs ask_step
      [AskSend None, AskExec None, AskExec None, AskExec None, AskExec None, AwaitRecv, AskExec None, AwaitError]
      (ask_new (\<lambda>n::nat. (Returns (n + 1) None, n + 1)) 4) = Some s \<and>
    ask_pc s = AwReturned (Some 5) None \<and> fst ((\<lambda>n::nat. (Returns (n + 1) None, n + 1)) 4) = Returns 5 None"
proof -
  let ?fn = "\<lambda>n::nat. (Returns (n + 1) None, n + 1)"
  let ?ls = "[AskSend None, AskExec None, AskExec None, AskExec None, AskExec None, AwaitRecv, AskExec None, AwaitError]"
  obtain s where s: "runs ask_step ?ls (ask_new ?fn 4) = Some s" "ask_pc s = AwReturned (Some 5) None"
    by (simp add: ask_new_def op_defs set_cmd_def)
  from ask_result_faithful [OF this] s show ?thesis by auto
qed

text \<open>
  An Ask cannot hang by itself: in every state its run can reach, the executing side has
  returned or has its next action enabled (it never blocks on the send of the result, and no
  panic escapes it), and once it has returned, a caller that waits can receive at once.
\<close>

theorem ask_never_stuck:
  assumes "runs ask_step ls (ask_new fn ent) = Some s"
  shows "(fst (ask_exec s) = XReturned \<or> (\<exists>t. ask_step (AskExec cerr) s = Some t)) \<and>
    (fst (ask_exec s) = XReturned \<and> ask_pc s = AwSelect \<longrightarrow> (\<exists>t. ask_step AwaitRecv s = Some t))"
proof -
  obtain pc gc en where ex: "ask_exec s = (pc, gc, en)" by (cases "ask_exec s") auto
  have inv: "exec_inv (fst (fn ent)) (got_of (ask_pc s)) (pc, gc, en)"
    using runs_ask_inv [OF assms] ex by (simp add: ask_inv_def Let_def)
  have "pc = XReturned \<or> (\<exists>c. exec_step cerr (pc, gc, en) = Some c)"
    using inv by (cases pc)
      (auto simp: chan_send_def exec_inv_defs split: option.splits prod.splits delegate_result.splits)
  moreover have "pc = XReturned \<Longrightarrow> ask_pc s = AwSelect \<Longrightarrow> \<exists>t. ask_step AwaitRecv s = Some t"
    using inv ex by (auto simp: chan_recv_def Done_chan_def split: list.splits)
  ultimately show ?thesis using ex by auto
qed

theorem ask_never_stuck_witness:
  "\<exists>s t. runs ask_step [AskSend None, AskExec None] 
      (ask_new (\<lambda>n::nat. (DelegatePanics (PanicValue n) :: nat delegate_result, n)) 0) = Some s \<and>
    ask_step (AskExec None) s = Some t"
proof -
  let ?fn = "\<lambda>n::nat. (DelegatePanics (PanicValue n) :: nat delegate_result, n)"
  obtain s where s: "runs ask_step [AskSend None, AskExec None] (ask_new ?fn 0) = Some s"
    "fst (ask_exec s) = XCheck"
    by (simp add: ask_new_def)
  have "\<exists>t. ask_step (AskExec None) s = Some t"
    using ask_never_stuck [OF s(1), of None] s(2) by simp
  with s(1) show ?thesis by blast
qed

end
