(* ===== verification/Ask_Actor.thy ===== *)
theory Ask_Actor
  imports Ask Actor_Safety "HOL-Library.Sublist"
begin

text \<open>
  Asks through an actor: the machine of \<open>Actor_Loop\<close>, the commands its goroutine executes and
  the callers that await them, composed (\<open>pkg/ask\<close>, \<open>pkg/command\<close> and \<open>pkg/actor\<close> together).
  The actor has no middleware, so its handler is Execute. Ask number \<open>c\<close> sends the command \<open>c\<close>
  by the Receive call \<open>c\<close>; all commands work on the one entity the provider gave.
\<close>

section \<open>The machine\<close>

text \<open>
  \<open>ran\<close> records the commands whose delegate was called, in that order; \<open>fns c\<close> is the delegate
  function of command \<open>c\<close>.
\<close>

record ('p, 'e, 'r) ask_world =
  act :: "(nat, 'p) actor_sys"
  entity :: 'e
  cmds :: "nat \<Rightarrow> 'r exec_pc \<times> ('e, 'r) gocommand"
  asks :: "nat \<Rightarrow> 'r await_pc"
  ran :: "nat list"

definition ask_world_new ::
  "nat goactor \<Rightarrow> (nat \<Rightarrow> ('e, 'r) delegate_fn) \<Rightarrow> 'e \<Rightarrow> ('p, 'e, 'r) ask_world" where
  "ask_world_new ga fns e =
     \<lparr>act = sys_of (ga\<lparr>middleware := []\<rparr>), entity = e, cmds = (\<lambda>c. (XStart, New_command (fns c))), asks = (\<lambda>_. AwSend),
      ran = []\<rparr>"

datatype 'p ask_world_label =
    ActorDoes "(nat, 'p) label"
  | AskSends nat
  | SendReturns nat
  | Executes
  | Awaits nat ask_label

text \<open>
  The actor's own actions: Receive is called by the asks only, and the handler returns when
  Execute has, without a change of behavior (a delegate has no access to the actor context).
\<close>

fun actor_may :: "(nat, 'p) label \<Rightarrow> ('p, 'e, 'r) ask_world \<Rightarrow> bool" where
  "actor_may (RecvCall j m) w \<longleftrightarrow> False"
| "actor_may (LoopReturn i ps p) w \<longleftrightarrow>
     i = 0 \<and> ps = [] \<and>
     (case loops (act w) i of
        LRun c \<Rightarrow>
          (case fst (cmds w c) of XReturned \<Rightarrow> p = None | XPanicked v \<Rightarrow> p = Some v | _ \<Rightarrow> False)
      | _ \<Rightarrow> False)"
| "actor_may l w \<longleftrightarrow> solo l"

definition actor_does :: "(nat, 'p) label \<Rightarrow> ('p, 'e, 'r) ask_world \<Rightarrow> ('p, 'e, 'r) ask_world option" where
  "actor_does l w =
     (if actor_may l w then map_option (\<lambda>a. w\<lparr>act := a\<rparr>) (actor_step l (act w)) else None)"

text \<open>\<open>ref.Send(ctx, cmd)\<close>: the call of Receive, and its return to the caller.\<close>

definition ask_sends :: "nat \<Rightarrow> ('p, 'e, 'r) ask_world \<Rightarrow> ('p, 'e, 'r) ask_world option" where
  "ask_sends c w = map_option (\<lambda>a. w\<lparr>act := a\<rparr>) (actor_step (RecvCall c (Some c)) (act w))"

definition send_returns :: "nat \<Rightarrow> ('p, 'e, 'r) ask_world \<Rightarrow> ('p, 'e, 'r) ask_world option" where
  "send_returns c w =
     (case (recvs (act w) c, asks w c) of
        (RRet err, AwSend) \<Rightarrow>
          Some (w\<lparr>asks := (asks w)(c := case err of None \<Rightarrow> AwSelect | Some e \<Rightarrow> AwReturned None (Some e))\<rparr>)
      | _ \<Rightarrow> None)"

text \<open>The next action of Execute on the message in the handler.\<close>

definition executes :: "('p, 'e, 'r) ask_world \<Rightarrow> ('p, 'e, 'r) ask_world option" where
  "executes w =
     (case loops (act w) 0 of
        LRun c \<Rightarrow>
          (case cmds w c of (pc, gc) \<Rightarrow>
             map_option
               (\<lambda>(pc', gc', e'). w\<lparr>cmds := (cmds w)(c := (pc', gc')), entity := e',
                 ran := (if pc = XDelegate then ran w @ [c] else ran w)\<rparr>)
               (exec_step (start_ctx (act w) 0) (pc, gc, entity w)))
      | _ \<Rightarrow> None)"

text \<open>A step of Await by caller \<open>c\<close>; its context is the one it sent with.\<close>

definition awaits_step :: "nat \<Rightarrow> ask_label \<Rightarrow> ('p, 'e, 'r) ask_world \<Rightarrow> ('p, 'e, 'r) ask_world option" where
  "awaits_step c l w =
     (if (\<forall>e. l = AwaitCtx e \<longrightarrow> call_ctx (act w) c = Some e)
      then map_option
        (\<lambda>s. w\<lparr>asks := (asks w)(c := ask_pc s), cmds := (cmds w)(c := (fst (cmds w c), ask_cmd s))\<rparr>)
        (await_step l \<lparr>ask_pc = asks w c, ask_exec = (fst (cmds w c), snd (cmds w c), entity w)\<rparr>)
      else None)"

fun ask_world_step :: "'p ask_world_label \<Rightarrow> ('p, 'e, 'r) ask_world \<Rightarrow> ('p, 'e, 'r) ask_world option" where
  "ask_world_step (ActorDoes l) w = actor_does l w"
| "ask_world_step (AskSends c) w = ask_sends c w"
| "ask_world_step (SendReturns c) w = send_returns c w"
| "ask_world_step Executes w = executes w"
| "ask_world_step (Awaits c l) w = awaits_step c l w"

lemmas ask_world_defs = actor_does_def ask_sends_def send_returns_def executes_def awaits_step_def

section \<open>The actor's side\<close>

text \<open>What the other parts rely on: what is settled for a call stays, and handlers only add up.\<close>

definition grows :: "(nat, 'p) actor_sys \<Rightarrow> (nat, 'p) actor_sys \<Rightarrow> bool" where
  "grows a b \<longleftrightarrow>
     (\<forall>c x. recvs a c = RRet x \<longrightarrow> recvs b c = RRet x) \<and>
     (\<forall>c e. call_ctx a c = Some e \<longrightarrow> call_ctx b c = Some e) \<and>
     (\<forall>e. start_ctx a 0 = Some e \<longrightarrow> start_ctx b 0 = Some e) \<and>
     (\<exists>xs. executed b = executed a @ xs)"

lemma action_grows: "keeps (grows a) (action l a)"
  by (cases l; simp add: branch_simps helper_defs grows_def split: step_splits; auto)

fun own_call :: "(nat, 'p) label \<Rightarrow> bool" where
  "own_call (RecvCall j m) \<longleftrightarrow> m = Some j"
| "own_call l \<longleftrightarrow> solo l"

definition send_inv :: "(nat, 'p) actor_sys \<Rightarrow> bool" where
  "send_inv a \<longleftrightarrow>
     (\<forall>j m. recvs a j = RSelect m \<longrightarrow> m = j) \<and> distinct (accepted a) \<and>
     (\<forall>c. c \<in> set (accepted a) \<longleftrightarrow> recvs a c = RRet None) \<and>
     (\<forall>m. loops a 0 = LRun m \<longrightarrow> executed a \<noteq> [] \<and> snd (last (executed a)) = m)"

lemma send_action: "own_call l \<Longrightarrow> send_inv a \<Longrightarrow> keeps send_inv (action l a)"
  by (cases l; simp add: branch_simps helper_defs send_inv_def split: step_splits; auto; fastforce)

definition act_inv :: "(nat, 'p) actor_sys \<Rightarrow> bool" where
  "act_inv a \<longleftrightarrow> actor_inv a \<and> send_inv a"

lemma act_inv_step:
  assumes "own_call l" "act_inv a"
  shows "keeps act_inv (actor_step l a)"
proof -
  have "solo l"
    using assms(1) by (cases l) simp_all
  with actor_inv_step [of l a] send_action [of l a] assms show ?thesis
    by (auto simp: act_inv_def actor_step_def keeps_def split: option.splits if_splits)
qed

interpretation act_machine: invariant_machine actor_step own_call act_inv
  by unfold_locales (rule act_inv_step)

lemma sys_of_act: "fresh_actor ga \<Longrightarrow> act_inv (sys_of ga)"
  by (simp add: act_inv_def sys_of_inv send_inv_def) (simp add: sys_of_def goactor.defs)

lemma actor_step_grows: "actor_step l a = Some b \<Longrightarrow> grows a b"
  using action_grows [of a l] by (simp add: actor_step_def split: if_splits)

lemma executed_prefix:
  assumes "act_inv a"
  shows "\<exists>zs. accepted a = map snd (executed a) @ zs"
proof -
  from assms have "queue_inv a"
    by (simp add: act_inv_def actor_inv_def)
  then show ?thesis
    by (cases "loops a 0") (auto simp: queue_inv_def queue_ok_def)
qed

text \<open>A command that ran was accepted, so its Receive returned nil.\<close>

lemma executed_accepted:
  assumes "act_inv a" "c \<in> set (map snd (executed a))"
  shows "recvs a c = RRet None"
proof -
  have "c \<in> set (accepted a)"
    using executed_prefix [OF assms(1)] assms(2) by force
  with assms(1) show ?thesis
    by (simp add: act_inv_def send_inv_def)
qed

section \<open>The commands' side\<close>

definition run_all :: "(nat \<Rightarrow> ('e, 'r) delegate_fn) \<Rightarrow> nat list \<Rightarrow> 'e \<Rightarrow> 'e" where
  "run_all fns cs e = fold (\<lambda>c e. snd (fns c e)) cs e"

text \<open>What the delegate of \<open>c\<close> gives when the commands before it in \<open>cs\<close> have run.\<close>

definition outcome :: "(nat \<Rightarrow> ('e, 'r) delegate_fn) \<Rightarrow> 'e \<Rightarrow> nat list \<Rightarrow> nat \<Rightarrow> 'r delegate_result" where
  "outcome fns e cs c = fst (fns c (run_all fns (takeWhile (\<lambda>d. d \<noteq> c) cs) e))"

lemma run_all_snoc [simp]: "run_all fns (cs @ [c]) e = snd (fns c (run_all fns cs e))"
  by (simp add: run_all_def)

lemma outcome_ran: "c \<in> set cs \<Longrightarrow> outcome fns e (cs @ ds) c = outcome fns e cs c"
  by (simp add: outcome_def takeWhile_append1)

lemma outcome_snoc: "c \<notin> set cs \<Longrightarrow> outcome fns e (cs @ [c]) c = fst (fns c (run_all fns cs e))"
proof -
  assume "c \<notin> set cs"
  then have "takeWhile (\<lambda>d. d \<noteq> c) (cs @ [c]) = cs"
    by (induction cs) auto
  then show ?thesis
    by (simp add: outcome_def)
qed

fun past :: "'r exec_pc \<Rightarrow> bool" where
  "past XStart \<longleftrightarrow> False"
| "past XCheck \<longleftrightarrow> False"
| "past (XCancel ce) \<longleftrightarrow> False"
| "past XCloseCancel \<longleftrightarrow> False"
| "past XDelegate \<longleftrightarrow> False"
| "past pc \<longleftrightarrow> True"

text \<open>The error a delegate's result leaves in its command.\<close>

fun delegate_error :: "'r delegate_result \<Rightarrow> gerror option" where
  "delegate_error (Returns v err) = err"
| "delegate_error (DelegatePanics p) = Some (CommandErr ErrCommandPanic)"

text \<open>
  Execute cancels a command only when the actor's context, whose error is \<open>cx\<close>, is done, and leaves
  this error.
\<close>

definition cancelled_by :: "gerror option \<Rightarrow> gerror option \<Rightarrow> bool" where
  "cancelled_by cx err \<longleftrightarrow> (\<exists>ce. cx = Some ce \<and> err = canceled_error ce)"

fun cancel_ok :: "gerror option \<Rightarrow> 'r exec_pc \<Rightarrow> ('e, 'r) gocommand \<Rightarrow> bool" where
  "cancel_ok cx (XCancel ce) gc \<longleftrightarrow> cx = Some ce"
| "cancel_ok cx XCloseCancel gc \<longleftrightarrow> cancelled_by cx (gc_err gc)"
| "cancel_ok cx XReturned gc \<longleftrightarrow> cancelled_by cx (gc_err gc)"
| "cancel_ok cx pc gc \<longleftrightarrow> True"

text \<open>
  The state of command \<open>c\<close>: before its delegate has run nothing depends on the delegate's
  result, and Execute can have ended by a cancellation only; afterwards it is that of \<open>Ask\<close> for the
  result, and the error is the delegate's.
\<close>

definition cmd_ok ::
  "gerror option \<Rightarrow> bool \<Rightarrow> 'r delegate_result \<Rightarrow> 'r option \<Rightarrow> 'r exec_pc \<Rightarrow> ('e, 'r) gocommand \<Rightarrow> 'e \<Rightarrow> bool" where
  "cmd_ok cx rn res got pc gc en \<longleftrightarrow>
     (if rn then past pc \<and> exec_inv res got (pc, gc, en) \<and> (pc = XReturned \<longrightarrow> gc_err gc = delegate_error res)
      else (\<forall>res. exec_inv res got (pc, gc, en)) \<and> cancel_ok cx pc gc)"

lemma exec_inv_entity: "exec_inv res got (pc, gc, en) = exec_inv res got (pc, gc, en')"
  by simp

lemma exec_step_other:
  assumes "exec_inv res got (pc, gc, en)" "exec_step cerr (pc, gc, en) = Some (pc', gc', en')" "pc \<noteq> XDelegate"
  shows "exec_inv res got (pc', gc', en') \<and> en' = en \<and> delegateFn gc' = delegateFn gc \<and> (past pc \<longrightarrow> past pc')"
  using assms
  by (cases pc)
    (auto simp: exec_inv_defs chan_send_def split: option.splits send_result.splits if_splits)

lemma exec_step_cancel:
  assumes "cancel_ok cx pc gc" "exec_step cx (pc, gc, en) = Some (pc', gc', en')" "\<not> past pc" "pc \<noteq> XDelegate"
  shows "cancel_ok cx pc' gc'"
  using assms by (cases pc) (auto simp: cancelled_by_def close_done_def split: option.splits)

lemma exec_step_error:
  assumes "exec_inv res got (pc, gc, en)" "exec_step cerr (pc, gc, en) = Some (XReturned, gc', en')" "past pc"
  shows "gc_err gc' = delegate_error res"
  using assms by (cases pc) (auto simp: exec_inv_defs split: option.splits send_result.splits)

lemma exec_step_delegate:
  assumes "exec_inv (fst (fn en)) got (XDelegate, gc, en)" "delegateFn gc = fn"
    "exec_step cerr (XDelegate, gc, en) = Some (pc', gc', en')"
  shows "exec_inv (fst (fn en)) got (pc', gc', en') \<and> en' = snd (fn en) \<and> gc' = gc \<and> past pc'"
  using assms
  by (auto simp: exec_inv_defs split: prod.splits delegate_result.splits option.splits)

section \<open>The callers' side\<close>

text \<open>
  What caller \<open>c\<close> may have; the errors from outside are those of its Receive, its context and
  its timer.
\<close>

definition outside :: "(nat, 'p) actor_sys \<Rightarrow> nat \<Rightarrow> gerror \<Rightarrow> bool" where
  "outside a c e \<longleftrightarrow> recvs a c = RRet (Some e) \<or> call_ctx a c = Some e \<or> e = AskErr ErrAskTimeout"

fun caller_ok ::
  "(gerror \<Rightarrow> bool) \<Rightarrow> gerror option \<Rightarrow> bool \<Rightarrow> 'r delegate_result \<Rightarrow> 'r exec_pc \<Rightarrow> ('e, 'r) gocommand \<Rightarrow> 'r await_pc \<Rightarrow> bool" where
  "caller_ok out cx rn res pc gc (AwGot v) \<longleftrightarrow> rn \<and> res = Returns v None"
| "caller_ok out cx rn res pc gc AwClosed \<longleftrightarrow> pc = XReturned \<and> cbuf (gc_done gc) = []"
| "caller_ok out cx rn res pc gc (AwReturned (Some v) err) \<longleftrightarrow> err = None \<and> rn \<and> res = Returns v None"
| "caller_ok out cx rn res pc gc (AwReturned None err) \<longleftrightarrow>
     (\<exists>e. err = Some e \<and> (out e \<or> rn \<and> delegate_error res = Some e \<or> \<not> rn \<and> pc = XReturned \<and> cancelled_by cx (Some e)))"
| "caller_ok out cx rn res pc gc _ \<longleftrightarrow> True"

definition cmd_inv ::
  "(nat \<Rightarrow> ('e, 'r) delegate_fn) \<Rightarrow> 'e \<Rightarrow> ('p, 'e, 'r) ask_world \<Rightarrow> nat \<Rightarrow> bool" where
  "cmd_inv fns e w c \<longleftrightarrow>
     delegateFn (snd (cmds w c)) = fns c \<and>
     cmd_ok (start_ctx (act w) 0) (c \<in> set (ran w)) (outcome fns e (ran w) c) (got_of (asks w c)) (fst (cmds w c))
       (snd (cmds w c)) (entity w) \<and>
     caller_ok (outside (act w) c) (start_ctx (act w) 0) (c \<in> set (ran w)) (outcome fns e (ran w) c) (fst (cmds w c))
       (snd (cmds w c)) (asks w c)"

definition world_inv ::
  "(nat \<Rightarrow> ('e, 'r) delegate_fn) \<Rightarrow> 'e \<Rightarrow> ('p, 'e, 'r) ask_world \<Rightarrow> bool" where
  "world_inv fns e w \<longleftrightarrow>
     act_inv (act w) \<and> entity w = run_all fns (ran w) e \<and> distinct (ran w) \<and>
     subseq (ran w) (map snd (executed (act w))) \<and> (\<forall>c. cmd_inv fns e w c)"

lemma cancelled_by_mono: "cancelled_by cx err \<Longrightarrow> (\<And>ce. cx = Some ce \<Longrightarrow> cx' = Some ce) \<Longrightarrow> cancelled_by cx' err"
  by (auto simp: cancelled_by_def)

lemma cancel_ok_mono: "cancel_ok cx pc gc \<Longrightarrow> (\<And>ce. cx = Some ce \<Longrightarrow> cx' = Some ce) \<Longrightarrow> cancel_ok cx' pc gc"
  by (cases pc) (auto intro: cancelled_by_mono)

lemma cmd_ok_mono:
  assumes "cmd_ok cx rn res got pc gc en" "\<And>ce. cx = Some ce \<Longrightarrow> cx' = Some ce"
  shows "cmd_ok cx' rn res got pc gc en"
  using assms(1) cancel_ok_mono [of cx pc gc cx'] assms(2) unfolding cmd_ok_def by (simp split: if_splits)

lemma caller_ok_mono:
  assumes "caller_ok out cx rn res pc gc aw" "\<And>e. out e \<Longrightarrow> out' e" "\<And>ce. cx = Some ce \<Longrightarrow> cx' = Some ce"
  shows "caller_ok out' cx' rn res pc gc aw"
proof (cases aw)
  case (AwReturned r err)
  with assms cancelled_by_mono [of cx _ cx'] show ?thesis
    by (cases r) auto
qed (use assms in auto)

lemma world_inv_grows:
  assumes "world_inv fns e w" "act_inv a" "grows (act w) a"
  shows "world_inv fns e (w\<lparr>act := a\<rparr>)"
proof -
  obtain xs where "executed a = executed (act w) @ xs"
    using assms(3) by (auto simp: grows_def)
  then have "subseq (ran w) (map snd (executed a))"
    using assms(1) by (simp add: world_inv_def subseq_rev_drop_many)
  moreover have out: "outside a c x" if "outside (act w) c x" for c x
    using that assms(3) by (auto simp: outside_def grows_def)
  moreover have ctx: "start_ctx a 0 = Some ce" if "start_ctx (act w) 0 = Some ce" for ce
    using that assms(3) by (simp add: grows_def)
  have "cmd_inv fns e (w\<lparr>act := a\<rparr>) c" if "cmd_inv fns e w c" for c
    using that unfolding cmd_inv_def by (auto elim!: caller_ok_mono cmd_ok_mono intro: out ctx)
  ultimately show ?thesis
    using assms(1,2) by (simp add: world_inv_def)
qed

lemma world_inv_actor:
  assumes "world_inv fns e w" "own_call l" "actor_step l (act w) = Some a"
  shows "world_inv fns e (w\<lparr>act := a\<rparr>)"
proof -
  have "act_inv (act w)"
    using assms(1) by (simp add: world_inv_def)
  from act_inv_step [OF assms(2) this] assms(3) have "act_inv a"
    by simp
  with world_inv_grows [OF assms(1) _ actor_step_grows [OF assms(3)]] show ?thesis
    by simp
qed

text \<open>A step of caller \<open>c\<close> concerns its own command only.\<close>

lemma world_inv_caller:
  assumes "world_inv fns e w" "cmd_inv fns e (w\<lparr>asks := (asks w)(c := aw), cmds := (cmds w)(c := x)\<rparr>) c"
  shows "world_inv fns e (w\<lparr>asks := (asks w)(c := aw), cmds := (cmds w)(c := x)\<rparr>)"
proof -
  let ?w = "w\<lparr>asks := (asks w)(c := aw), cmds := (cmds w)(c := x)\<rparr>"
  have "cmd_inv fns e ?w d" for d
  proof (cases "d = c")
    case False
    have "cmd_inv fns e w d"
      using assms(1) by (simp add: world_inv_def)
    with False show ?thesis
      by (simp add: cmd_inv_def)
  qed (use assms(2) in simp)
  with assms(1) show ?thesis
    by (simp add: world_inv_def)
qed

lemma cmd_okD: "cmd_ok cx rn res got pc gc en \<Longrightarrow> exec_inv res got (pc, gc, en)"
  by (auto simp: cmd_ok_def split: if_splits simp del: exec_inv.simps)

lemma cmd_ok_not_run:
  assumes "cmd_ok cx False res got pc gc en"
  shows "exec_inv (DelegatePanics p) got (pc, gc, en)"
  using assms unfolding cmd_ok_def by (simp del: exec_inv.simps)

text \<open>A value in the channel is the delegate's; a channel closed without one goes with an error.\<close>

lemma cmd_ok_value:
  assumes "cmd_ok cx rn res got pc gc en" "cbuf (gc_done gc) = v # vs"
  shows "rn \<and> res = Returns v None \<and> vs = [] \<and> got = None"
proof -
  have rn
  proof (rule ccontr)
    assume "\<not> rn"
    with assms(1) cmd_ok_not_run [of cx res got pc gc en "PanicValue 0"] assms(2) show False
      by (cases pc) (auto simp: exec_inv_defs)
  qed
  with cmd_okD [OF assms(1)] assms(2) show ?thesis
    by (cases pc) (auto simp: exec_inv_defs)
qed

lemma cmd_ok_closed:
  assumes "cmd_ok cx rn res None pc gc en" "cclosed (gc_done gc)" "cbuf (gc_done gc) = []"
  shows "pc = XReturned \<and> (\<exists>e. gc_err gc = Some e \<and> (rn \<and> delegate_error res = Some e \<or> \<not> rn \<and> cancelled_by cx (Some e)))"
proof -
  have pc: "pc = XReturned"
    using cmd_okD [OF assms(1)] assms(2) by simp
  show ?thesis
  proof (cases rn)
    case True
    with cmd_okD [OF assms(1)] assms(3) pc have "gc_err gc \<noteq> None"
      by (auto simp: exec_inv_defs)
    with True assms(1) pc show ?thesis
      by (auto simp: cmd_ok_def)
  next
    case False
    with assms(1) pc have "cancelled_by cx (gc_err gc)"
      by (simp add: cmd_ok_def del: exec_inv.simps)
    with False pc show ?thesis
      by (auto simp: cancelled_by_def)
  qed
qed

lemma cmd_ok_got:
  assumes "cmd_ok cx rn res (Some v) pc gc en"
  shows "gc_err gc = None"
  using cmd_okD [OF assms] by (cases pc) (auto simp: exec_inv_defs)

lemma cancel_ok_err: "gc_err gc' = gc_err gc \<Longrightarrow> cancel_ok cx pc gc' = cancel_ok cx pc gc"
  by (cases pc) simp_all

lemma await_recv_ok:
  assumes ok: "cmd_ok cx rn res None pc gc en"
    and st: "await_step AwaitRecv \<lparr>ask_pc = AwSelect, ask_exec = (pc, gc, en)\<rparr> = Some s"
  shows "delegateFn (ask_cmd s) = delegateFn gc \<and> cmd_ok cx rn res (got_of (ask_pc s)) pc (ask_cmd s) en \<and>
    caller_ok out cx rn res pc (ask_cmd s) (ask_pc s)"
proof (cases "cbuf (gc_done gc)")
  case Nil
  with st have "cclosed (gc_done gc)" "s = \<lparr>ask_pc = AwClosed, ask_exec = (pc, gc, en)\<rparr>"
    by (auto simp: chan_recv_def Done_chan_def split: if_splits)
  with cmd_okD [OF ok] ok Nil show ?thesis
    by auto
next
  case (Cons v vs)
  with ok have v: "rn \<and> res = Returns v None \<and> vs = []"
    by (blast dest: cmd_ok_value)
  with st Cons have "ask_pc s = AwGot v" "ask_cmd s = gc\<lparr>gc_done := (gc_done gc)\<lparr>cbuf := []\<rparr>\<rparr>"
    by (auto simp: chan_recv_def Done_chan_def set_cmd_def)
  with ok v Cons show ?thesis
    by (cases pc) (auto simp: cmd_ok_def exec_inv_defs)
qed

lemma await_ok:
  assumes ok: "cmd_ok cx rn res (got_of aw) pc gc en" and caller: "caller_ok out cx rn res pc gc aw"
    and st: "await_step l \<lparr>ask_pc = aw, ask_exec = (pc, gc, en)\<rparr> = Some s"
    and ctx: "\<forall>x. l = AwaitCtx x \<longrightarrow> out x" and timer: "out (AskErr ErrAskTimeout)"
  shows "delegateFn (ask_cmd s) = delegateFn gc \<and> cmd_ok cx rn res (got_of (ask_pc s)) pc (ask_cmd s) en \<and>
    caller_ok out cx rn res pc (ask_cmd s) (ask_pc s)"
proof (cases l)
  case AwaitRecv
  with st have aw: "aw = AwSelect"
    by (simp split: if_splits)
  with ok st AwaitRecv show ?thesis
    by (intro await_recv_ok) simp_all
next
  case AwaitError
  with st consider v where "aw = AwGot v" "s = \<lparr>ask_pc = AwReturned (Some v) (gc_err gc), ask_exec = (pc, gc, en)\<rparr>"
    | "aw = AwClosed" "s = \<lparr>ask_pc = AwReturned None (gc_err gc), ask_exec = (pc, gc, en)\<rparr>"
    by (cases aw) (auto simp: Error_of_def)
  then show ?thesis
  proof cases
    case 1
    with ok caller cmd_ok_got show ?thesis
      by auto
  next
    case 2
    have "cclosed (gc_done gc)" "cbuf (gc_done gc) = []"
      using cmd_okD [OF ok] caller 2(1) by simp_all
    with cmd_ok_closed [of cx rn res pc gc en] ok caller 2 show ?thesis
      by auto
  qed
next
  case (AwaitCtx e)
  with st ctx ok caller show ?thesis
    by (auto split: if_splits)
next
  case AwaitTimer
  with st timer ok caller show ?thesis
    by (auto split: if_splits)
qed (use st in simp_all)

lemma send_returns_inv:
  assumes "world_inv fns e w" "send_returns c w = Some w'"
  shows "world_inv fns e w'"
proof -
  obtain err where r: "recvs (act w) c = RRet err" and a: "asks w c = AwSend"
    and w': "w' = w\<lparr>asks := (asks w)(c := case err of None \<Rightarrow> AwSelect | Some e \<Rightarrow> AwReturned None (Some e))\<rparr>"
    using assms(2) by (auto simp: send_returns_def split: recv_pc.splits await_pc.splits)
  have "cmd_inv fns e w c"
    using assms(1) by (simp add: world_inv_def)
  then have "cmd_inv fns e (w\<lparr>asks := (asks w)(c := case err of None \<Rightarrow> AwSelect | Some e \<Rightarrow> AwReturned None (Some e)),
      cmds := (cmds w)(c := cmds w c)\<rparr>) c"
    using r a by (cases err) (auto simp: cmd_inv_def outside_def)
  from world_inv_caller [OF assms(1) this] show ?thesis
    by (simp add: w')
qed

lemma awaits_step_inv:
  assumes "world_inv fns e w" "awaits_step c l w = Some w'"
  shows "world_inv fns e w'"
proof -
  obtain pc gc where c: "cmds w c = (pc, gc)"
    by (cases "cmds w c")
  let ?s = "\<lparr>ask_pc = asks w c, ask_exec = (pc, gc, entity w)\<rparr>"
  obtain s where st: "await_step l ?s = Some s" and ctx: "\<forall>x. l = AwaitCtx x \<longrightarrow> call_ctx (act w) c = Some x"
    and w': "w' = w\<lparr>asks := (asks w)(c := ask_pc s), cmds := (cmds w)(c := (pc, ask_cmd s))\<rparr>"
    using assms(2) c by (auto simp: awaits_step_def split: if_splits)
  have inv: "cmd_inv fns e w c"
    using assms(1) by (simp add: world_inv_def)
  let ?rn = "c \<in> set (ran w)" and ?res = "outcome fns e (ran w) c" and ?out = "outside (act w) c" and ?cx = "start_ctx (act w) 0"
  have ok: "delegateFn gc = fns c" "cmd_ok ?cx ?rn ?res (got_of (asks w c)) pc gc (entity w)"
    "caller_ok ?out ?cx ?rn ?res pc gc (asks w c)"
    using inv c by (simp_all add: cmd_inv_def)
  have "\<forall>x. l = AwaitCtx x \<longrightarrow> ?out x" "?out (AskErr ErrAskTimeout)"
    using ctx by (auto simp: outside_def)
  from await_ok [OF ok(2,3) st this] ok(1) have "cmd_inv fns e w' c"
    by (simp add: cmd_inv_def w')
  with world_inv_caller [OF assms(1)] w' show ?thesis
    by simp
qed

lemma subseq_drop_last:
  assumes "subseq ys (xs @ [c])" "c \<notin> set ys"
  shows "subseq ys xs"
proof -
  from assms(1) obtain y1 y2 where "ys = y1 @ y2" "subseq y1 xs" "subseq y2 [c]"
    by (rule subseq_appendE)
  with assms(2) show ?thesis
    by (cases y2) (auto split: if_splits)
qed

lemma exec_ok_other:
  assumes ok: "cmd_ok cx rn res got pc gc en" and st: "exec_step cx (pc, gc, en) = Some (pc', gc', en')" and pc: "pc \<noteq> XDelegate"
  shows "cmd_ok cx rn res got pc' gc' en' \<and> en' = en \<and> delegateFn gc' = delegateFn gc"
proof (cases rn)
  case True
  with ok have inv: "exec_inv res got (pc, gc, en)" "past pc"
    by (simp_all add: cmd_ok_def del: exec_inv.simps)
  with exec_step_other [OF inv(1) st pc] exec_step_error [OF inv(1) _ inv(2)] st True show ?thesis
    by (auto simp: cmd_ok_def simp del: exec_inv.simps exec_step.simps)
next
  case False
  with ok have inv: "exec_inv r got (pc, gc, en)" and cancel: "cancel_ok cx pc gc" for r
    by (simp_all add: cmd_ok_def del: exec_inv.simps)
  have "cancel_ok cx pc' gc'"
  proof (cases "past pc")
    case True
    with inv [of "DelegatePanics (PanicValue 0)"] inv [of "Returns undefined None"] st cancel show ?thesis
      by (cases pc) (auto simp: exec_inv_defs)
  next
    case False
    with exec_step_cancel [OF cancel st _ pc] show ?thesis
      by simp
  qed
  moreover have "exec_inv r got (pc', gc', en')" "en' = en" "delegateFn gc' = delegateFn gc" for r
    using exec_step_other [OF inv st pc] by blast+
  ultimately show ?thesis
    using False by (simp add: cmd_ok_def del: exec_inv.simps)
qed

lemma exec_ok_delegate:
  assumes "cmd_ok cx rn res got XDelegate gc en" "exec_step cerr (XDelegate, gc, en) = Some (pc', gc', en')"
  shows "\<not> rn \<and> cmd_ok cx True (fst (delegateFn gc en)) got pc' gc' en' \<and> en' = snd (delegateFn gc en) \<and> gc' = gc"
proof -
  have "pc' \<noteq> XReturned"
    using assms(2) by (auto split: prod.splits delegate_result.splits option.splits)
  with assms exec_step_delegate [OF _ refl assms(2)] show ?thesis
    unfolding cmd_ok_def by (auto simp del: exec_inv.simps exec_step.simps split: if_splits)
qed

lemma caller_ok_exec:
  fixes gc gc' :: "('e, 'r) gocommand"
  shows "caller_ok out cx rn res pc gc aw \<Longrightarrow> pc \<noteq> XReturned \<Longrightarrow> caller_ok out cx rn res pc' gc' aw"
  by (induction out cx rn res pc gc aw rule: caller_ok.induct) auto

lemma caller_ok_run:
  fixes gc gc' :: "('e, 'r) gocommand"
  shows "caller_ok out cx False res pc gc aw \<Longrightarrow> pc \<noteq> XReturned \<Longrightarrow> caller_ok out cx rn res' pc' gc' aw"
  by (induction out cx False res pc gc aw rule: caller_ok.induct) auto

lemma caller_ok_waits: "caller_ok out cx False res pc gc aw \<Longrightarrow> caller_ok out cx False res' pc gc aw"
  by (induction out cx False res pc gc aw rule: caller_ok.induct) auto

lemma cmd_inv_other:
  assumes "cmd_inv fns e w d" "d \<noteq> c"
  shows "cmd_inv fns e (w\<lparr>cmds := (cmds w)(c := x), entity := en, ran := ran w @ (if b then [c] else [])\<rparr>) d"
proof (cases "d \<in> set (ran w)")
  case True
  with assms show ?thesis
    by (simp add: cmd_inv_def outcome_ran cmd_ok_def)
next
  case False
  with assms show ?thesis
    by (auto simp: cmd_inv_def cmd_ok_def elim: caller_ok_waits)
qed

lemma executes_other:
  assumes inv: "world_inv fns e w" and c: "cmds w c = (pc, gc)"
    and st: "exec_step (start_ctx (act w) 0) (pc, gc, entity w) = Some (pc', gc', en')" and pc: "pc \<noteq> XDelegate"
  shows "world_inv fns e (w\<lparr>cmds := (cmds w)(c := (pc', gc')), entity := en'\<rparr>)"
proof -
  let ?w = "w\<lparr>cmds := (cmds w)(c := (pc', gc')), entity := en'\<rparr>"
  let ?rn = "c \<in> set (ran w)" and ?res = "outcome fns e (ran w) c"
  have old: "cmd_inv fns e w d" for d
    using inv by (simp add: world_inv_def)
  have ok: "delegateFn gc = fns c" "cmd_ok (start_ctx (act w) 0) ?rn ?res (got_of (asks w c)) pc gc (entity w)"
    "caller_ok (outside (act w) c) (start_ctx (act w) 0) ?rn ?res pc gc (asks w c)"
    using old [of c] c by (simp_all add: cmd_inv_def)
  have "pc \<noteq> XReturned"
    using st by auto
  with exec_ok_other [OF ok(2) st pc] have "cmd_inv fns e ?w c" "en' = entity w"
    using ok(1) caller_ok_exec [OF ok(3)] by (auto simp: cmd_inv_def)
  moreover have "cmd_inv fns e ?w d" if "d \<noteq> c" for d
    using cmd_inv_other [OF old that, where x = "(pc', gc')" and en = en' and b = False] by simp
  ultimately have "\<forall>d. cmd_inv fns e ?w d"
    by metis
  with inv \<open>en' = entity w\<close> show ?thesis
    by (simp add: world_inv_def)
qed

lemma executes_delegate:
  assumes inv: "world_inv fns e w" and run: "loops (act w) 0 = LRun c" and c: "cmds w c = (XDelegate, gc)"
    and st: "exec_step cerr (XDelegate, gc, entity w) = Some (pc', gc', en')"
  shows "world_inv fns e (w\<lparr>cmds := (cmds w)(c := (pc', gc')), entity := en', ran := ran w @ [c]\<rparr>)"
proof -
  let ?w = "w\<lparr>cmds := (cmds w)(c := (pc', gc')), entity := en', ran := ran w @ [c]\<rparr>"
  have old: "cmd_inv fns e w d" for d
    using inv by (simp add: world_inv_def)
  have ok: "delegateFn gc = fns c" "cmd_ok (start_ctx (act w) 0) (c \<in> set (ran w)) (outcome fns e (ran w) c) (got_of (asks w c)) XDelegate gc (entity w)"
    "caller_ok (outside (act w) c) (start_ctx (act w) 0) (c \<in> set (ran w)) (outcome fns e (ran w) c) XDelegate gc (asks w c)"
    using old [of c] c by (simp_all add: cmd_inv_def)
  from exec_ok_delegate [OF ok(2) st] have new: "c \<notin> set (ran w)"
    and ok': "cmd_ok (start_ctx (act w) 0) True (fst (fns c (entity w))) (got_of (asks w c)) pc' gc' en'"
    and en': "en' = snd (fns c (entity w))" "gc' = gc"
    using ok(1) by auto
  have ent: "entity w = run_all fns (ran w) e" and sub: "subseq (ran w) (map snd (executed (act w)))" and "send_inv (act w)"
    using inv by (auto simp: world_inv_def act_inv_def)
  then obtain xs h where "executed (act w) = xs @ [(h, c)]"
    using run by (auto simp: send_inv_def) (metis append_butlast_last_id prod.collapse)
  with sub new have "subseq (ran w @ [c]) (map snd (executed (act w)))"
    by simp (blast dest: subseq_drop_last)
  moreover have "caller_ok (outside (act w) c) (start_ctx (act w) 0) True (fst (fns c (entity w))) pc' gc' (asks w c)"
    using caller_ok_run ok(3) new by (metis exec_pc.distinct)
  then have "cmd_inv fns e ?w c"
    using ok' ok(1) new en'(2) ent by (simp add: cmd_inv_def outcome_snoc)
  moreover have "cmd_inv fns e ?w d" if "d \<noteq> c" for d
    using cmd_inv_other [OF old that, where x = "(pc', gc')" and en = en' and b = True] by simp
  ultimately have "\<forall>d. cmd_inv fns e ?w d" "subseq (ran w @ [c]) (map snd (executed (act w)))"
    by metis+
  with inv new ent en'(1) show ?thesis
    by (simp add: world_inv_def)
qed

lemma executes_inv:
  assumes "world_inv fns e w" "executes w = Some w'"
  shows "world_inv fns e w'"
proof -
  obtain c where run: "loops (act w) 0 = LRun c"
    using assms(2) by (auto simp: executes_def split: loop_pc.splits)
  obtain pc gc where c: "cmds w c = (pc, gc)"
    by (cases "cmds w c")
  obtain pc' gc' en' where st: "exec_step (start_ctx (act w) 0) (pc, gc, entity w) = Some (pc', gc', en')"
    and w': "w' = w\<lparr>cmds := (cmds w)(c := (pc', gc')), entity := en',
      ran := (if pc = XDelegate then ran w @ [c] else ran w)\<rparr>"
    using assms(2) run c by (auto simp: executes_def)
  show ?thesis
  proof (cases "pc = XDelegate")
    case True
    with executes_delegate [OF assms(1) run] c st show ?thesis
      by (simp add: w')
  next
    case False
    with executes_other [OF assms(1) c st] show ?thesis
      by (simp add: w')
  qed
qed

lemma world_inv_step:
  assumes "world_inv fns e w"
  shows "keeps (world_inv fns e) (ask_world_step l w)"
proof (cases l)
  case (ActorDoes k)
  have "own_call k" if "actor_may k w"
    using that by (cases k) simp_all
  with ActorDoes world_inv_actor [OF assms] show ?thesis
    by (auto simp: actor_does_def)
next
  case (AskSends c)
  with world_inv_actor [OF assms, of "RecvCall c (Some c)"] show ?thesis
    by (auto simp: ask_sends_def)
next
  case (SendReturns c)
  with send_returns_inv [OF assms] show ?thesis
    by (simp add: keeps_def split: option.split)
next
  case Executes
  with executes_inv [OF assms] show ?thesis
    by (simp add: keeps_def split: option.split)
next
  case (Awaits c k)
  with awaits_step_inv [OF assms] show ?thesis
    by (simp add: keeps_def split: option.split)
qed

interpretation world_machine: invariant_machine ask_world_step "\<lambda>_. True" "world_inv fns e" for fns e
  by unfold_locales (rule world_inv_step)

lemma world_inv_new: "fresh_actor ga \<Longrightarrow> world_inv fns e (ask_world_new ga fns e)"
  by (simp add: world_inv_def ask_world_new_def sys_of_act fresh_actor_def cmd_inv_def cmd_ok_def run_all_def New_command_def
      exec_inv_defs make_chan_def)

lemma run_world_inv:
  assumes "fresh_actor ga" "runs ask_world_step ls (ask_world_new ga fns e) = Some w"
  shows "world_inv fns e w"
  using world_machine.runs_keeps [OF world_inv_new [OF assms(1)] _ assms(2)] by (simp add: list_all_iff)

text \<open>What the invariant says of one command.\<close>

lemma split_at: "c \<in> set xs \<Longrightarrow> xs = takeWhile (\<lambda>d. d \<noteq> c) xs @ c # tl (dropWhile (\<lambda>d. d \<noteq> c) xs)"
  by (induction xs) auto

lemma outcome_at:
  assumes "c \<in> set cs"
  obtains pre post where "cs = pre @ c # post" "outcome fns e cs c = fst (fns c (run_all fns pre e))"
  using split_at [OF assms] that unfolding outcome_def by blast

lemma ran_accepted:
  assumes "world_inv fns e w"
  shows "subseq (ran w) (accepted (act w))" "c \<in> set (ran w) \<Longrightarrow> recvs (act w) c = RRet None"
proof -
  have inv: "act_inv (act w)" and sub: "subseq (ran w) (map snd (executed (act w)))"
    using assms by (simp_all add: world_inv_def)
  show "subseq (ran w) (accepted (act w))"
    using executed_prefix [OF inv] sub by (auto intro: subseq_rev_drop_many)
  have "set (ran w) \<subseteq> set (map snd (executed (act w)))"
    using sub by (auto elim: list_emb_set)
  then show "c \<in> set (ran w) \<Longrightarrow> recvs (act w) c = RRet None"
    using executed_accepted [OF inv] by blast
qed

section \<open>A sample run\<close>

text \<open>
  An actor with a buffer of two is started and asked twice: Ask 0 adds 3 to the entity and Ask 1 doubles it.
\<close>

definition sample_fns :: "nat \<Rightarrow> (int, int) delegate_fn" where
  "sample_fns c = (\<lambda>n. let m = (if c = 0 then n + 3 else 2 * n) in (Returns m None, m))"

definition handles :: "nat ask_world_label list" where
  "handles = [ActorDoes (LoopTake 0), ActorDoes (LoopRun 0), Executes, Executes, Executes, Executes, Executes,
     Executes, ActorDoes (LoopReturn 0 [] None)]"

definition sample_asks :: "nat ask_world_label list" where
  "sample_asks = map ActorDoes (boot 7) @
     [AskSends 0, ActorDoes (RecvSend 0), AskSends 1, ActorDoes (RecvSend 1), SendReturns 0, SendReturns 1] @
     handles @ handles @ [Awaits 1 AwaitRecv, Awaits 1 AwaitError]"

lemma actor_does_runs:
  fixes w :: "('p, 'e, 'r) ask_world"
  assumes "\<And>l v. l \<in> set ls \<Longrightarrow> actor_may l (v :: ('p, 'e, 'r) ask_world)" "runs actor_step ls (act w) = Some a"
  shows "runs ask_world_step (map ActorDoes ls) w = Some (w\<lparr>act := a\<rparr>)"
  using assms by (induction ls arbitrary: w) (auto simp: actor_does_def split: option.splits)

lemma sample_plain: "sample_actor\<lparr>middleware := []\<rparr> = sample_actor"
  by (simp add: sample_actor_def default_actor_def)

lemma sample_boot:
  "runs ask_world_step (map ActorDoes (boot (7::nat))) (ask_world_new sample_actor sample_fns 5) =
    Some ((ask_world_new sample_actor sample_fns 5)\<lparr>act := booted sample_actor 7\<rparr>)"
  using boot_runs [OF sample_fresh] by (intro actor_does_runs)
    (auto simp: boot_def ask_world_new_def sample_plain)

lemmas sample_run_simps = ask_world_defs run_simps booted_def sample_actor_def default_actor_def Current_def
  newBehaviorStack_def ask_world_new_def New_command_def sample_fns_def make_chan_def Let_def
  syncState_def Done_chan_def Error_of_def set_cmd_def

lemma sample_asks_run:
  "\<exists>w. runs ask_world_step sample_asks (ask_world_new sample_actor sample_fns 5) = Some w \<and>
     asks w 1 = AwReturned (Some 16) None \<and> ran w = [0, 1] \<and> asks w 0 = AwSelect"
  unfolding sample_asks_def handles_def runs_append sample_boot by (simp add: sample_run_simps)
section \<open>Properties\<close>

text \<open>
  C2: Asks on one actor are atomic: the delegates run one at a time, each command at most once,
  in the order in which Receive accepted them; the entity is at any time the result of those that
  ran, one after the other; and an Ask that returns a value with nil returns what its delegate
  gave on the entity the commands before it had left.
\<close>

theorem asks_are_atomic:
  assumes "fresh_actor ga" "runs ask_world_step ls (ask_world_new ga fns e) = Some w"
  shows "entity w = run_all fns (ran w) e \<and> distinct (ran w) \<and> subseq (ran w) (accepted (act w)) \<and>
    (asks w c = AwReturned (Some v) err \<longrightarrow>
      err = None \<and> (\<exists>pre post. ran w = pre @ c # post \<and> fst (fns c (run_all fns pre e)) = Returns v None))"
proof -
  have inv: "world_inv fns e w" and c: "cmd_inv fns e w c"
    using run_world_inv [OF assms] by (simp_all add: world_inv_def)
  have "err = None \<and> (\<exists>pre post. ran w = pre @ c # post \<and> fst (fns c (run_all fns pre e)) = Returns v None)"
    if "asks w c = AwReturned (Some v) err"
  proof -
    have "err = None" "c \<in> set (ran w)" and v: "outcome fns e (ran w) c = Returns v None"
      using that c by (simp_all add: cmd_inv_def)
    then show ?thesis
      by (metis outcome_at)
  qed
  with inv ran_accepted(1) [OF inv] show ?thesis
    by (simp add: world_inv_def)
qed

theorem asks_are_atomic_witness:
  "\<exists>w. runs ask_world_step sample_asks (ask_world_new sample_actor sample_fns 5) = Some w \<and>
     asks w 1 = AwReturned (Some 16) None \<and> entity w = 16 \<and> subseq [0, 1] (accepted (act w))"
proof -
  obtain w where w: "runs ask_world_step sample_asks (ask_world_new sample_actor sample_fns 5) = Some w"
    "asks w 1 = AwReturned (Some 16) None" "ran w = [0, 1]"
    using sample_asks_run by blast
  from asks_are_atomic [OF sample_fresh w(1)] w show ?thesis
    by (simp add: run_all_def sample_fns_def Let_def)
qed

text \<open>
  C23: An Ask that returns an error tells what happened: the error is that of its Receive, and
  then the delegate never runs; or that of its context, or the timeout; or its delegate ran, on the entity
  the commands before it had left, and the error is the delegate's own, or ErrCommandPanic if it panicked; or
  the delegate did not run because the context of the actor was done when Execute looked, and the error
  joins ErrCommandContextCancelled with that of the context. Never is it the zero value with nil.
\<close>

theorem ask_errors_explained:
  assumes "fresh_actor ga" "runs ask_world_step ls (ask_world_new ga fns e) = Some w"
    "asks w c = AwReturned None err"
  shows "\<exists>x. err = Some x \<and>
    (recvs (act w) c = RRet (Some x) \<and> c \<notin> set (ran w) \<or> call_ctx (act w) c = Some x \<or> x = AskErr ErrAskTimeout \<or>
     (\<exists>pre post. ran w = pre @ c # post \<and>
        (case fst (fns c (run_all fns pre e)) of Returns v er \<Rightarrow> er = Some x | DelegatePanics p \<Rightarrow> x = CommandErr ErrCommandPanic)) \<or>
     c \<notin> set (ran w) \<and> (\<exists>ce. start_ctx (act w) 0 = Some ce \<and> x = Joined [CommandErr ErrCommandContextCancelled, ce]))"
proof -
  have inv: "world_inv fns e w" and c: "cmd_inv fns e w c"
    using run_world_inv [OF assms(1,2)] by (simp_all add: world_inv_def)
  from c assms(3) obtain x where x: "err = Some x" and "outside (act w) c x \<or>
      c \<in> set (ran w) \<and> delegate_error (outcome fns e (ran w) c) = Some x \<or>
      c \<notin> set (ran w) \<and> cancelled_by (start_ctx (act w) 0) (Some x)"
    by (auto simp: cmd_inv_def)
  then consider "outside (act w) c x" | "c \<in> set (ran w)" "delegate_error (outcome fns e (ran w) c) = Some x"
    | "c \<notin> set (ran w)" "cancelled_by (start_ctx (act w) 0) (Some x)"
    by blast
  then show ?thesis
  proof cases
    case 1
    with ran_accepted(2) [OF inv, of c] x show ?thesis
      by (auto simp: outside_def)
  next
    case 2
    then obtain pre post where "ran w = pre @ c # post" "delegate_error (fst (fns c (run_all fns pre e))) = Some x"
      by (metis outcome_at)
    moreover from this(2) have "case fst (fns c (run_all fns pre e)) of
        Returns v er \<Rightarrow> er = Some x | DelegatePanics p \<Rightarrow> x = CommandErr ErrCommandPanic"
      by (auto split: delegate_result.split)
    ultimately show ?thesis
      using x by blast
  qed (use x in \<open>auto simp: cancelled_by_def\<close>)
qed

text \<open>The context of the actor ends when Execute has begun.\<close>

definition cancelled_ask :: "nat ask_world_label list" where
  "cancelled_ask = map ActorDoes (boot 7) @ [AskSends 0, ActorDoes (RecvSend 0), SendReturns 0, ActorDoes (LoopTake 0),
     ActorDoes (LoopRun 0), Executes, ActorDoes (CtxDone 0 CtxCanceled), Executes, Executes, Executes,
     Awaits 0 AwaitRecv, Awaits 0 AwaitError]"

theorem ask_errors_explained_witness:
  "\<exists>w. runs ask_world_step cancelled_ask (ask_world_new sample_actor sample_fns 5 :: (nat, int, int) ask_world) = Some w \<and>
     asks w 0 = AwReturned None (Some (Joined [CommandErr ErrCommandContextCancelled, CtxCanceled])) \<and>
     0 \<notin> set (ran w) \<and> start_ctx (act w) 0 = Some CtxCanceled"
proof -
  let ?w = "ask_world_new sample_actor sample_fns 5 :: (nat, int, int) ask_world"
  obtain w where w: "runs ask_world_step cancelled_ask ?w = Some w"
    "asks w 0 = AwReturned None (Some (Joined [CommandErr ErrCommandContextCancelled, CtxCanceled]))"
    "recvs (act w) 0 = RRet None" "call_ctx (act w) 0 = None"
    unfolding cancelled_ask_def runs_append sample_boot by (simp add: sample_run_simps)
  have "\<not> (\<exists>pre post. ran w = pre @ 0 # post \<and> (case fst (sample_fns 0 (run_all sample_fns pre 5)) of
      Returns v er \<Rightarrow> er = Some x | DelegatePanics p \<Rightarrow> x = CommandErr ErrCommandPanic))" for x
    by (simp add: sample_fns_def Let_def)
  with ask_errors_explained [OF sample_fresh w(1,2)] w show ?thesis
    by auto
qed

text \<open>
  C24: A command in the hands of the actor always gets on: while its goroutine is in the handler
  of a command, the next action of Execute is enabled, or Execute has returned and so can the
  handler; and a caller whose command was executed can receive the result or the close.
\<close>

theorem ask_gets_on:
  assumes "fresh_actor ga" "runs ask_world_step ls (ask_world_new ga fns e) = Some w" "crash (act w) = None"
  shows "(loops (act w) 0 = LRun c \<longrightarrow>
      (\<exists>w'. ask_world_step Executes w = Some w') \<or> (\<exists>w'. ask_world_step (ActorDoes (LoopReturn 0 [] None)) w = Some w')) \<and>
    (fst (cmds w c) = XReturned \<and> asks w c = AwSelect \<longrightarrow> (\<exists>w'. ask_world_step (Awaits c AwaitRecv) w = Some w'))"
proof -
  obtain pc gc where c: "cmds w c = (pc, gc)"
    by (cases "cmds w c")
  have "cmd_inv fns e w c"
    using run_world_inv [OF assms(1,2)] by (simp add: world_inv_def)
  then have inv: "exec_inv (outcome fns e (ran w) c) (got_of (asks w c)) (pc, gc, entity w)"
    using cmd_okD by (fastforce simp: cmd_inv_def c simp del: exec_inv.simps)
  have "pc = XReturned \<or> (\<exists>x. exec_step (start_ctx (act w) 0) (pc, gc, entity w) = Some x)"
    using inv by (cases pc)
      (auto simp: chan_send_def exec_inv_defs split: option.splits prod.splits delegate_result.splits)
  then have "(\<exists>w'. executes w = Some w') \<or> (\<exists>w'. actor_does (LoopReturn 0 [] None) w = Some w')"
    if "loops (act w) 0 = LRun c"
    using that c assms(3) by (auto simp: executes_def actor_does_def actor_step_def loop_return_def)
  moreover have "\<exists>w'. awaits_step c AwaitRecv w = Some w'" if "pc = XReturned" "asks w c = AwSelect"
    using that inv c by (auto simp: awaits_step_def chan_recv_def Done_chan_def split: list.splits)
  ultimately show ?thesis
    using c by simp
qed

theorem ask_gets_on_witness:
  "\<exists>w. runs ask_world_step (map ActorDoes (boot 7) @ [AskSends 0, ActorDoes (RecvSend 0), ActorDoes (LoopTake 0),
       ActorDoes (LoopRun 0)]) (ask_world_new sample_actor sample_fns 5 :: (nat, int, int) ask_world) = Some w \<and>
     loops (act w) 0 = LRun 0 \<and>
     ((\<exists>w'. ask_world_step Executes w = Some w') \<or> (\<exists>w'. ask_world_step (ActorDoes (LoopReturn 0 [] None)) w = Some w'))"
proof -
  let ?w = "ask_world_new sample_actor sample_fns 5 :: (nat, int, int) ask_world"
  obtain w where w: "runs ask_world_step (map ActorDoes (boot 7) @ [AskSends 0, ActorDoes (RecvSend 0),
      ActorDoes (LoopTake 0), ActorDoes (LoopRun 0)]) ?w = Some w"
    "loops (act w) 0 = LRun 0" "crash (act w) = None"
    unfolding runs_append sample_boot by (simp add: sample_run_simps)
  from ask_gets_on [OF sample_fresh w(1,3)] w(1,2) show ?thesis
    by blast
qed

end
