(* ===== verification/System_Ask.thy ===== *)
theory System_Ask
  imports System Ask_Actor
begin

text \<open>
  \<open>Ask\<close> of \<open>pkg/system/dispatch.go\<close>: an actor system, the actors it knows by address with the
  commands and callers of \<open>Ask_Actor\<close>, and asks that look their actor up by name. The lookup under
  the read lock and the call of the dispatch closure are two steps, so the actor may be
  unregistered in between, as in the code.
\<close>

section \<open>The machine\<close>

text \<open>
  Ask number \<open>c\<close> before the lookup; with the dispatch closure of the actor at an address in hand;
  returned with an error of its own.
\<close>

datatype sys_ask_pc = SaNew | SaTo nat | SaRet gerror

record ('p, 'e, 'r) ask_system =
  registry :: actor_system
  worlds :: "nat \<Rightarrow> ('p, 'e, 'r) ask_world"
  sys_asks :: "nat \<Rightarrow> sys_ask_pc"

definition ask_system_new ::
  "(nat \<Rightarrow> nat goactor) \<Rightarrow> (nat \<Rightarrow> ('e, 'r) delegate_fn) \<Rightarrow> (nat \<Rightarrow> 'e) \<Rightarrow> ('p, 'e, 'r) ask_system" where
  "ask_system_new gas fns es =
     \<lparr>registry = New_system, worlds = (\<lambda>a. ask_world_new (gas a) fns (es a)), sys_asks = (\<lambda>_. SaNew)\<rparr>"

text \<open>\<open>SysAsk c nm T\<close>: Ask with entity type \<open>T\<close> looks up the name.\<close>

datatype 'p ask_system_label =
    RegistryDoes "nat sys_call"
  | SysAsk nat string nat
  | WorldDoes nat "'p ask_world_label"

definition sys_ask :: "nat \<Rightarrow> string \<Rightarrow> nat \<Rightarrow> ('p, 'e, 'r) ask_system \<Rightarrow> ('p, 'e, 'r) ask_system option" where
  "sys_ask c nm T s =
     (if sys_asks s c = SaNew
      then Some (s\<lparr>sys_asks := (sys_asks s)(c :=
        case send_target nm (ExecutableOf T c) (registry s) of Inl err \<Rightarrow> SaRet err | Inr r \<Rightarrow> SaTo (ref_actor r))\<rparr>)
      else None)"

definition world_does ::
  "nat \<Rightarrow> 'p ask_world_label \<Rightarrow> ('p, 'e, 'r) ask_system \<Rightarrow> ('p, 'e, 'r) ask_system option" where
  "world_does a l s =
     (if (\<forall>c. l = AskSends c \<longrightarrow> sys_asks s c = SaTo a)
      then map_option (\<lambda>w. s\<lparr>worlds := (worlds s)(a := w)\<rparr>) (ask_world_step l (worlds s a))
      else None)"

fun ask_system_step :: "'p ask_system_label \<Rightarrow> ('p, 'e, 'r) ask_system \<Rightarrow> ('p, 'e, 'r) ask_system option" where
  "ask_system_step (RegistryDoes call) s = Some (s\<lparr>registry := snd (sys_do call (registry s))\<rparr>)"
| "ask_system_step (SysAsk c nm T) s = sys_ask c nm T s"
| "ask_system_step (WorldDoes a l) s = world_does a l s"

section \<open>What a run consists of\<close>

text \<open>The calls on the registry, the steps of one actor's world, and the lookup of an ask.\<close>

fun calls_of :: "'p ask_system_label list \<Rightarrow> nat sys_call list" where
  "calls_of [] = []"
| "calls_of (RegistryDoes call # ls) = call # calls_of ls"
| "calls_of (l # ls) = calls_of ls"

fun steps_of_world :: "nat \<Rightarrow> 'p ask_system_label list \<Rightarrow> 'p ask_world_label list" where
  "steps_of_world a [] = []"
| "steps_of_world a (WorldDoes b l # ls) = (if a = b then l # steps_of_world a ls else steps_of_world a ls)"
| "steps_of_world a (l # ls) = steps_of_world a ls"

lemma runs_registry:
  "runs ask_system_step ls s = Some t \<Longrightarrow> registry t = snd (history sys_do (calls_of ls) (registry s))"
proof (induction ls arbitrary: s)
  case (Cons l ls)
  then show ?case
    by (cases l) (auto simp: sys_ask_def world_does_def case_prod_beta split: option.splits if_splits)
qed simp

lemma runs_world:
  "runs ask_system_step ls s = Some t \<Longrightarrow> runs ask_world_step (steps_of_world a ls) (worlds s a) = Some (worlds t a)"
proof (induction ls arbitrary: s)
  case (Cons l ls)
  then obtain u where u: "ask_system_step l s = Some u" "runs ask_system_step ls u = Some t"
    by (auto split: option.splits)
  from Cons.IH [OF u(2)] u(1) show ?case
    by (cases l) (auto simp: sys_ask_def world_does_def split: option.splits if_splits)
qed simp

text \<open>The Receive call of ask \<open>c\<close> is made by \<open>AskSends c\<close> only.\<close>

lemma action_idle:
  "keeps (\<lambda>b. recvs b c = RIdle) (action l a)" if "recvs a c = RIdle" "\<And>m. l \<noteq> RecvCall c m"
  using that by (cases l; simp add: branch_simps helper_defs split: step_splits; auto)

lemma world_idle:
  assumes "ask_world_step l w = Some w'" "recvs (act w) c = RIdle" "l \<noteq> AskSends c"
  shows "recvs (act w') c = RIdle"
proof -
  have idle: "recvs b c = RIdle" if "actor_step k (act w) = Some b" "\<And>m. k \<noteq> RecvCall c m" for k b
    using action_idle [OF assms(2) that(2), THEN keepsD] that(1)
    by (auto simp: actor_step_def split: if_splits)
  show ?thesis
  proof (cases l)
    case (ActorDoes k)
    moreover have "k \<noteq> RecvCall c m" if "actor_may k w" for m
      using that by auto
    ultimately show ?thesis
      using assms(1) idle [of k] by (auto simp: actor_does_def split: if_splits)
  next
    case (AskSends d)
    with assms(1,3) idle [of "RecvCall d (Some d)"] show ?thesis
      by (auto simp: ask_sends_def)
  qed (use assms in \<open>auto simp: send_returns_def executes_def awaits_step_def
        split: recv_pc.splits await_pc.splits loop_pc.splits prod.splits if_splits\<close>)
qed

text \<open>
  The ask \<open>c\<close> looked up a name under which, after the calls on the registry up to then, the actor
  \<open>a\<close> was registered for the ask's entity type.
\<close>

definition looked_up :: "'p ask_system_label list \<Rightarrow> nat \<Rightarrow> nat \<Rightarrow> bool" where
  "looked_up ls c a \<longleftrightarrow> (\<exists>ls1 nm T ls2. ls = ls1 @ SysAsk c nm T # ls2 \<and>
     spec_find nm (snd (history sys_spec_do (calls_of ls1) sys_spec_new)) = Inr \<lparr>ref_type = T, ref_actor = a\<rparr>)"

lemma looked_up_snoc: "looked_up ls c a \<Longrightarrow> looked_up (ls @ [l]) c a"
  unfolding looked_up_def by (metis append_Cons append_assoc)

lemma looked_up_now:
  assumes "send_target nm (ExecutableOf T c) (snd (history sys_do (calls_of ls) New_system)) = Inr r"
  shows "looked_up (ls @ [SysAsk c nm T]) c (ref_actor r)"
proof -
  let ?s = "snd (history sys_do (calls_of ls) New_system)"
  let ?t = "snd (history sys_spec_do (calls_of ls) sys_spec_new)"
  have "sys_sim ?s ?t"
    using sys_refinement.history_simulates [OF new_system_sim] by blast
  then have "send_lookup nm ?s = spec_find nm ?t"
    by (rule send_lookup_sim)
  with assms have "spec_find nm ?t = Inr r \<and> ref_type r = T"
    by (auto simp: send_target_def split: sum.splits if_splits)
  then have "spec_find nm ?t = Inr \<lparr>ref_type = T, ref_actor = ref_actor r\<rparr>"
    by auto
  then show ?thesis
    unfolding looked_up_def by blast
qed

lemma only_looked_up:
  assumes "runs ask_system_step ls (ask_system_new gas fns es) = Some s"
  shows "(recvs (act (worlds s a)) c \<noteq> RIdle \<longrightarrow> sys_asks s c = SaTo a) \<and> (sys_asks s c = SaTo a \<longrightarrow> looked_up ls c a)"
  using assms
proof (induction ls arbitrary: s rule: rev_induct)
  case Nil
  then show ?case
    by (auto simp: ask_system_new_def ask_world_new_def sys_of_def goactor.defs)
next
  case (snoc l ls)
  then obtain u where u: "runs ask_system_step ls (ask_system_new gas fns es) = Some u" "ask_system_step l u = Some s"
    by (blast elim: runs_snoc_SomeD)
  note IH = snoc.IH [OF u(1)]
  show ?case
  proof (cases l)
    case (RegistryDoes call)
    with u(2) IH show ?thesis
      by (auto intro: looked_up_snoc)
  next
    case (WorldDoes b k)
    then obtain w where "ask_world_step k (worlds u b) = Some w" "s = u\<lparr>worlds := (worlds u)(b := w)\<rparr>"
      and "k = AskSends c \<Longrightarrow> sys_asks u c = SaTo b"
      using u(2) by (auto simp: world_does_def split: if_splits)
    with IH world_idle [of k "worlds u b" w c] show ?thesis
      by (auto intro: looked_up_snoc)
  next
    case (SysAsk d nm T)
    show ?thesis
    proof (cases "d = c")
      case False
      with SysAsk u(2) IH show ?thesis
        by (auto simp: sys_ask_def intro: looked_up_snoc split: if_splits)
    next
      case True
      have "registry u = snd (history sys_do (calls_of ls) New_system)"
        using runs_registry [OF u(1)] by (simp add: ask_system_new_def)
      moreover have "recvs (act (worlds u a)) c = RIdle" "sys_asks u c = SaNew"
        using IH SysAsk True u(2) by (auto simp: sys_ask_def split: if_splits)
      ultimately show ?thesis
        using SysAsk True u(2) looked_up_now [of nm T c ls] by (auto simp: sys_ask_def split: sum.splits)
    qed
  qed
qed

section \<open>Properties\<close>

text \<open>
  C17: An Ask through the system runs its delegate on one actor only, and on none but the one
  that was registered, when the Ask looked it up, under its name and for its entity type; with
  any number of actors and names, each actor's asks are those of \<open>Ask_Actor\<close>, so every actor's
  entity is what the delegates run on it, one after the other, made of it.
\<close>

theorem system_ask_dispatches:
  assumes "\<And>a. fresh_actor (gas a)" "runs ask_system_step ls (ask_system_new gas fns es) = Some s"
    "c \<in> set (ran (worlds s a))"
  shows "looked_up ls c a \<and> (\<forall>b. c \<in> set (ran (worlds s b)) \<longrightarrow> b = a) \<and>
    entity (worlds s a) = run_all fns (ran (worlds s a)) (es a)"
proof -
  have world: "world_inv fns (es b) (worlds s b)" for b
    using run_world_inv [OF assms(1)] runs_world [OF assms(2), of b] by (auto simp: ask_system_new_def)
  have to: "sys_asks s c = SaTo b" if "c \<in> set (ran (worlds s b))" for b
    using only_looked_up [OF assms(2), of b c] ran_accepted(2) [OF world that] by simp
  then have "b = a" if "c \<in> set (ran (worlds s b))" for b
    using that assms(3) by (metis sys_ask_pc.inject(1))
  moreover have "looked_up ls c a"
    using only_looked_up [OF assms(2), of a c] to [OF assms(3)] by simp
  ultimately show ?thesis
    using world [of a] by (auto simp: world_inv_def)
qed

text \<open>Two actors; Ask 0 goes by the name a to the second.\<close>

definition sample_lookup :: "nat ask_system_label list" where
  "sample_lookup =
     [RegistryDoes (CallRegister ''b'' (Some \<lparr>ref_type = 1, ref_actor = 0\<rparr>)),
      RegistryDoes (CallRegister ''a'' (Some \<lparr>ref_type = 1, ref_actor = 1\<rparr>)), SysAsk 0 ''a'' 1]"

definition sample_world_asks :: "nat ask_world_label list" where
  "sample_world_asks = map ActorDoes (boot 7) @ [AskSends 0, ActorDoes (RecvSend 0), SendReturns 0] @ handles"

definition sample_system_asks :: "nat ask_system_label list" where
  "sample_system_asks = sample_lookup @ map (WorldDoes 1) sample_world_asks"

lemma world_runs:
  assumes "\<And>c. AskSends c \<in> set ls \<Longrightarrow> sys_asks s c = SaTo a" "runs ask_world_step ls (worlds s a) = Some w"
  shows "runs ask_system_step (map (WorldDoes a) ls) s = Some (s\<lparr>worlds := (worlds s)(a := w)\<rparr>)"
  using assms by (induction ls arbitrary: s) (auto simp: world_does_def split: option.splits)

theorem system_ask_dispatches_witness:
  "\<exists>s. runs ask_system_step sample_system_asks (ask_system_new (\<lambda>_. sample_actor) sample_fns (\<lambda>_. 5)) = Some s \<and>
     looked_up sample_system_asks 0 1 \<and> entity (worlds s 1) = 8"
proof -
  let ?w = "ask_world_new sample_actor sample_fns 5"
  obtain w where w: "runs ask_world_step sample_world_asks ?w = Some w" "ran w = [0]"
    unfolding sample_world_asks_def runs_append sample_boot handles_def by (simp add: sample_run_simps)
  define s where "s = (ask_system_new (\<lambda>_. sample_actor) sample_fns (\<lambda>_. 5) :: (nat, int, int) ask_system)"
  define s' where "s' = s\<lparr>registry := snd (sys_do (CallRegister ''a'' (Some \<lparr>ref_type = 1, ref_actor = 1\<rparr>))
    (snd (sys_do (CallRegister ''b'' (Some \<lparr>ref_type = 1, ref_actor = 0\<rparr>)) New_system))),
    sys_asks := (\<lambda>_. SaNew)(0 := SaTo 1)\<rparr>"
  have "runs ask_system_step sample_lookup s = Some s'"
    by (simp add: sample_lookup_def s_def s'_def ask_system_new_def sys_ask_def send_target_def
        send_lookup_def New_system_def Register_def register_def)
  moreover have "runs ask_system_step (map (WorldDoes 1) sample_world_asks) s' = Some (s'\<lparr>worlds := (worlds s')(1 := w)\<rparr>)"
    using w(1) by (intro world_runs) (auto simp: s'_def s_def ask_system_new_def sample_world_asks_def boot_def handles_def)
  ultimately have run: "runs ask_system_step sample_system_asks s = Some (s'\<lparr>worlds := (worlds s')(1 := w)\<rparr>)"
    by (simp only: sample_system_asks_def runs_append option.case)
  have "looked_up sample_system_asks 0 1 \<and> entity w = run_all sample_fns (ran w) 5"
    using system_ask_dispatches [OF sample_fresh run [unfolded s_def], of 0 1] w(2)
    by (simp add: s'_def)
  with run w(2) show ?thesis
    by (simp add: s_def run_all_def sample_fns_def Let_def)
qed

end
