(* ===== verification/System_Actors.thy ===== *)
theory System_Actors
  imports System_Stop
begin

text \<open>
  An actor system whose registered actors run: the machine of \<open>System_Stop\<close> composed with one
  machine of \<open>Actor_Loop\<close> for each actor. Where \<open>System_Stop\<close> leaves the result of a Stop to the
  label, here it is what the Stop call on the actor returned.
\<close>

section \<open>The machine\<close>

record ('m, 'e) staffed =
  registry :: sys_run
  staff :: "nat \<Rightarrow> ('m, 'e) actor_sys"

datatype ('c, 'm, 'e) staffed_label =
    RegistryDoes "'c sys_label"
  | ActorOf nat "('m, 'e) label"

definition staffed_new :: "(nat \<Rightarrow> 'm goactor) \<Rightarrow> ('m, 'e) staffed" where
  "staffed_new gas = \<lparr>registry = sys_run_new, staff = (\<lambda>a. sys_of (gas a))\<rparr>"

text \<open>
  The \<open>j\<close>-th Stop that StopAll calls is the Stop call \<open>2 * j + 1\<close> of its actor; the even numbers are
  for other callers.
\<close>

definition stop_index :: "sys_run \<Rightarrow> nat" where
  "stop_index r = 2 * length (stops_seen (seen r)) + 1"

definition next_stop :: "sys_run \<Rightarrow> ref option" where
  "next_stop r = (case todo r of Some (StopOne n x # as) \<Rightarrow> Some x | _ \<Rightarrow> None)"

fun registry_may :: "'c sys_label \<Rightarrow> ('m, 'e) staffed \<Rightarrow> bool" where
  "registry_may (StopAllStep res) s \<longleftrightarrow>
     (case next_stop (registry s) of
        None \<Rightarrow> True
      | Some x \<Rightarrow> stops (staff s (ref_actor x)) (stop_index (registry s)) = TRet res)"
| "registry_may l s \<longleftrightarrow> True"

fun staff_may :: "nat \<Rightarrow> ('m, 'e) label \<Rightarrow> ('m, 'e) staffed \<Rightarrow> bool" where
  "staff_may a (StopCAS k) s \<longleftrightarrow>
     even k \<or> k = stop_index (registry s) \<and> map_option ref_actor (next_stop (registry s)) = Some a"
| "staff_may a l s \<longleftrightarrow> solo l"

fun staffed_step :: "('c, 'm, 'e) staffed_label \<Rightarrow> ('m, 'e) staffed \<Rightarrow> ('m, 'e) staffed option" where
  "staffed_step (RegistryDoes l) s =
     (if registry_may l s then map_option (\<lambda>r. s\<lparr>registry := r\<rparr>) (sys_step l (registry s)) else None)"
| "staffed_step (ActorOf a l) s =
     (if staff_may a l s then map_option (\<lambda>b. s\<lparr>staff := (staff s)(a := b)\<rparr>) (actor_step l (staff s a)) else None)"

section \<open>What a Stop call leaves\<close>

text \<open>A call \<open>k\<close> of Stop on a started actor that has looked at the state leaves it not Started.\<close>

definition looked :: "nat \<Rightarrow> ('m, 'e) actor_sys \<Rightarrow> bool" where
  "looked k a \<longleftrightarrow> started (loops a 0) \<and> (stops a k = TIdle \<or> ga_state a \<noteq> Started)"

lemma looked_action: "looked k a \<Longrightarrow> life_inv a \<Longrightarrow> solo l \<Longrightarrow> keeps (looked k) (action l a)"
  by (cases l; simp add: branch_simps helper_defs looked_def split: step_splits; auto simp: life_inv_def life_ok_def begun_def)

lemma returned_stays: "keeps (\<lambda>b. stops a k = TRet res \<longrightarrow> stops b k = TRet res) (action l a)"
  by (cases l; simp add: branch_simps helper_defs split: step_splits)

lemma idle_stays: "\<forall>j. l = StopCAS j \<longrightarrow> j \<noteq> k \<Longrightarrow> keeps (\<lambda>b. stops a k = TIdle \<longrightarrow> stops b k = TIdle) (action l a)"
  by (cases l; simp add: branch_simps helper_defs split: step_splits)

lemma actor_step_action: "actor_step l a = Some b \<Longrightarrow> action l a = Some b"
  by (auto simp: actor_step_def split: if_splits)

lemma staff_may_solo: "staff_may a l s \<Longrightarrow> solo l"
  by (cases l) auto

lemma staffed_actors:
  assumes "\<forall>a. actor_inv (staff s a)" "staffed_step l s = Some t"
  shows "\<forall>a. actor_inv (staff t a)"
proof (cases l)
  case (ActorOf a k)
  with assms obtain b where "staff_may a k s" "actor_step k (staff s a) = Some b" "t = s\<lparr>staff := (staff s)(a := b)\<rparr>"
    by (auto split: if_splits)
  with assms(1) actor_inv_step [OF staff_may_solo [OF this(1)], THEN keepsD, OF _ this(2)] show ?thesis
    by simp
qed (use assms in \<open>auto split: if_splits\<close>)

section \<open>Before StopAll\<close>

definition running_inv :: "('m, 'e) staffed \<Rightarrow> bool" where
  "running_inv s \<longleftrightarrow> (\<forall>a. actor_inv (staff s a)) \<and>
     (\<not> sys_stopped (registry s) \<longrightarrow>
        todo (registry s) = None \<and> stop_errs (registry s) = [] \<and> stop_return (registry s) = None \<and>
        stops_seen (seen (registry s)) = [] \<and> (\<exists>sp. sys_sim (registry s) sp) \<and>
        (\<forall>a k. odd k \<longrightarrow> stops (staff s a) k = TIdle))"

lemma running_inv_step: "running_inv s \<Longrightarrow> keeps running_inv (staffed_step l s)"
proof (cases "staffed_step l s")
  case (Some t)
  assume inv: "running_inv s"
  then have "\<forall>a. actor_inv (staff t a)"
    using staffed_actors [OF _ Some] by (simp add: running_inv_def)
  moreover have "todo (registry t) = None \<and> stop_errs (registry t) = [] \<and> stop_return (registry t) = None \<and>
        stops_seen (seen (registry t)) = [] \<and> (\<exists>sp. sys_sim (registry t) sp) \<and>
        (\<forall>a k. odd k \<longrightarrow> stops (staff t a) k = TIdle)"
    if unlocked: "\<not> sys_stopped (registry t)"
  proof (cases l)
    case (RegistryDoes k)
    with Some obtain r where r: "sys_step k (registry s) = Some r" "t = s\<lparr>registry := r\<rparr>"
      by (auto split: if_splits)
    show ?thesis
    proof (cases k)
      case (SysCall c)
      with r have "r = snd (sys_do c (registry s))" "c \<noteq> CallStopBegin"
        by (auto split: if_splits)
      with r unlocked inv sys_do_open [of c "registry s"] sys_do_more [of c "registry s"]
        sys_refinement.call_simulates [of "registry s" _ c] show ?thesis
        unfolding running_inv_def by auto
    next
      case (StopAllCall timeout)
      with r unlocked inv show ?thesis
        by (auto simp: stop_all_call_def stop_begin_def running_inv_def split: if_splits)
    next
      case (StopAllStep res)
      with r unlocked inv show ?thesis
        by (auto simp: stop_all_step_def running_inv_def sys_sim_def split: option.splits list.splits stop_action.splits)
    qed
  next
    case (ActorOf a k)
    with Some obtain b where b: "staff_may a k s" "actor_step k (staff s a) = Some b" "t = s\<lparr>staff := (staff s)(a := b)\<rparr>"
      by (auto split: if_splits)
    have reg: "registry t = registry s"
      using b(3) by simp
    with unlocked inv have "todo (registry s) = None" and idle: "\<forall>a k. odd k \<longrightarrow> stops (staff s a) k = TIdle"
      by (auto simp: running_inv_def)
    then have "\<forall>j. k = StopCAS j \<longrightarrow> even j"
      using b(1) by (auto simp: next_stop_def)
    with idle idle_stays [THEN keepsD, OF _ actor_step_action [OF b(2)]] have "\<forall>j. odd j \<longrightarrow> stops b j = TIdle"
      by metis
    with idle b(3) unlocked inv reg show ?thesis
      by (simp add: running_inv_def)
  qed
  ultimately show ?thesis
    using Some by (simp add: running_inv_def)
qed simp

interpretation running_machine: invariant_machine staffed_step "\<lambda>_. True" running_inv
  by unfold_locales (rule running_inv_step)

section \<open>After StopAll took the lock\<close>

text \<open>
  \<open>rs\<close> are the references to stop, \<open>A\<close> the actors that were started when StopAll took the lock.
\<close>

definition told_inv :: "ref list \<Rightarrow> nat set \<Rightarrow> ('m, 'e) staffed \<Rightarrow> bool" where
  "told_inv rs A s \<longleftrightarrow>
     (\<forall>a. actor_inv (staff s a)) \<and> stopping_inv rs (registry s) \<and>
     (\<forall>j < length rs. ref_actor (rs ! j) \<in> A \<longrightarrow> looked (2 * j + 1) (staff s (ref_actor (rs ! j)))) \<and>
     (\<forall>j x res. j < length (stops_seen (seen (registry s))) \<longrightarrow> stops_seen (seen (registry s)) ! j = (x, res) \<longrightarrow>
        stops (staff s (ref_actor x)) (2 * j + 1) = TRet res)"

lemma stops_seen_step:
  assumes "sys_step l r = Some r'" "sys_stopped r"
  shows "stops_seen (seen r') = stops_seen (seen r) \<or>
    (\<exists>x res. l = StopAllStep res \<and> next_stop r = Some x \<and> stops_seen (seen r') = stops_seen (seen r) @ [(x, res)])"
proof (cases l)
  case (SysCall c)
  with assms sys_do_more [of c r] show ?thesis
    by (auto split: if_splits)
qed (use assms in \<open>auto simp: stop_all_call_def stop_begin_def stop_all_step_def next_stop_def
    split: option.splits list.splits stop_action.splits\<close>)

lemma told_inv_step:
  assumes inv: "told_inv rs A s"
  shows "keeps (told_inv rs A) (staffed_step l s)"
proof (cases "staffed_step l s")
  case (Some t)
  have acts: "\<forall>a. actor_inv (staff t a)"
    using staffed_actors [OF _ Some] inv by (simp add: told_inv_def)
  have "told_inv rs A t"
  proof (cases l)
    case (RegistryDoes k)
    with Some obtain r where may: "registry_may k s" and r: "sys_step k (registry s) = Some r" "t = s\<lparr>registry := r\<rparr>"
      by (auto split: if_splits)
    have "stopping_inv rs r"
      using stopping_step [THEN keepsD, OF _ r(1)] inv by (simp add: told_inv_def)
    moreover have "stops_seen (seen r) = stops_seen (seen (registry s)) \<or>
        (\<exists>x res. stops_seen (seen r) = stops_seen (seen (registry s)) @ [(x, res)] \<and>
          stops (staff s (ref_actor x)) (stop_index (registry s)) = TRet res)"
      using stops_seen_step [OF r(1)] inv may by (auto simp: told_inv_def stopping_inv_def)
    ultimately show ?thesis
      using inv r(2) by (auto simp: told_inv_def stop_index_def nth_append less_Suc_eq)
  next
    case (ActorOf a k)
    with Some obtain b where b: "staff_may a k s" "actor_step k (staff s a) = Some b" "t = s\<lparr>staff := (staff s)(a := b)\<rparr>"
      by (auto split: if_splits)
    note act = actor_step_action [OF b(2)]
    have "life_inv (staff s a)"
      using inv by (simp add: told_inv_def actor_inv_def)
    then have "looked j b" if "looked j (staff s a)" for j
      using looked_action [OF that _ staff_may_solo [OF b(1)], THEN keepsD, OF _ act] by blast
    moreover have "stops b j = TRet res" if "stops (staff s a) j = TRet res" for j res
      using returned_stays [THEN keepsD, OF act] that by blast
    ultimately show ?thesis
      using inv acts b(3) unfolding told_inv_def by auto
  qed
  with Some show ?thesis
    by simp
qed simp

interpretation told_machine: invariant_machine staffed_step "\<lambda>_. True" "told_inv rs A" for rs A
  by unfold_locales (rule told_inv_step)

lemma registered_listed:
  assumes "sys_sim r sp" "Get n r = Inr x"
  shows "x \<in> set (map snd (stop_list r))"
  using assms sim_lookup [OF assms(1), of n]
  by (auto simp: Get_def stop_list_sim [OF assms(1)] split: if_splits option.splits dest!: map_of_SomeD intro: rev_image_eqI)

lemma non_nil_empty: "non_nil es = [] \<Longrightarrow> e \<in> set es \<Longrightarrow> e = None"
  by (induction es rule: non_nil.induct) auto

lemma returned_nil:
  assumes "stop_inv a" "stops a k = TRet None"
  shows "stop_closed a \<and> ga_state a \<noteq> Started"
proof -
  have "past_cas (stops a k)" "stops a k \<noteq> TClose"
    using assms(2) by simp_all
  with assms(1) show ?thesis
    unfolding stop_inv_def stop_ok_def by blast
qed

lemma running_inv_new: "\<forall>a. fresh_actor (gas a) \<Longrightarrow> running_inv (staffed_new gas)"
  using sys_of_inv new_system_sim
  by (auto simp: running_inv_def staffed_new_def sys_run_new_def actor_system.defs sys_of_def goactor.defs sys_sim_def)

text \<open>StopAll takes the lock.\<close>

lemma told_begin:
  assumes "running_inv s" "\<not> sys_stopped (registry s)"
  shows "told_inv (map snd (stop_list (registry s))) {a. started (loops (staff s a) 0)}
    (s\<lparr>registry := stop_all_call timeout (registry s)\<rparr>)"
  using assms by (auto simp: running_inv_def told_inv_def stopping_inv_def stop_all_call_def stop_begin_def looked_def)

text \<open>StopAll has returned: each reference had its Stop call.\<close>

lemma told_end:
  assumes told: "told_inv rs A t" and ret: "stop_return (registry t) = Some ret" and x: "x \<in> set rs"
  shows "\<exists>k. (ref_actor x \<in> A \<longrightarrow> looked k (staff t (ref_actor x))) \<and> stops (staff t (ref_actor x)) k \<noteq> TIdle \<and>
    (ret = None \<longrightarrow> stops (staff t (ref_actor x)) k = TRet None)"
proof -
  let ?seen = "stops_seen (seen (registry t))"
  have all: "map fst ?seen = rs" and join: "ret = errors_join (map Some (non_nil (map snd ?seen)))"
    using told ret by (simp_all add: told_inv_def stopping_inv_def)
  obtain j where j: "j < length rs" "rs ! j = x"
    using x by (metis in_set_conv_nth)
  moreover obtain res where res: "?seen ! j = (x, res)"
    using j all by (metis eq_fst_iff length_map nth_map)
  moreover have len: "j < length ?seen"
    using j(1) all by (metis length_map)
  ultimately have k: "stops (staff t (ref_actor x)) (2 * j + 1) = TRet res" "ref_actor x \<in> A \<longrightarrow> looked (2 * j + 1) (staff t (ref_actor x))"
    using told by (auto simp: told_inv_def)
  have "res \<in> set (map snd ?seen)"
    using res len by (metis length_map nth_map nth_mem snd_conv)
  then have "res = None" if "ret = None"
    using that join non_nil_empty [of "map snd ?seen" res] by (auto simp: errors_join_def split: if_splits)
  with k show ?thesis
    by (intro exI [of _ "2 * j + 1"]) simp
qed

section \<open>Properties\<close>

text \<open>
  C14: StopAll on a system of running actors, with other callers and all actors going on meanwhile:
  once it has returned, no actor that was registered and started when it was called is Started any more, and none
  is ever again; if it returned nil, each registered actor has been told to stop on its stop channel.
\<close>

theorem stop_all_ends_actors:
  assumes "\<forall>a. fresh_actor (gas a)" "runs staffed_step ls (staffed_new gas) = Some s"
    "\<not> sys_stopped (registry s)" "Get n (registry s) = Inr x"
    "runs staffed_step (RegistryDoes (StopAllCall timeout) # ks) s = Some t" "stop_return (registry t) = Some ret"
  shows "(started (loops (staff s (ref_actor x)) 0) \<longrightarrow> ga_state (staff t (ref_actor x)) \<noteq> Started) \<and>
    (ret = None \<longrightarrow> stop_closed (staff t (ref_actor x)) \<and> ga_state (staff t (ref_actor x)) \<noteq> Started)"
proof -
  let ?rs = "map snd (stop_list (registry s))" and ?A = "{a. started (loops (staff s a) 0)}" and ?a = "ref_actor x"
  have inv: "running_inv s"
    using running_machine.runs_keeps [OF running_inv_new [OF assms(1)] _ assms(2)] by (simp add: list_all_iff)
  then have x: "x \<in> set ?rs"
    using assms(3,4) registered_listed by (auto simp: running_inv_def)
  have "runs staffed_step ks (s\<lparr>registry := stop_all_call timeout (registry s)\<rparr>) = Some t"
    using assms(5) by simp
  from told_machine.runs_keeps [OF told_begin [OF inv assms(3)] _ this] have told: "told_inv ?rs ?A t"
    by (simp add: list_all_iff)
  obtain k where "?a \<in> ?A \<longrightarrow> looked k (staff t ?a)" "stops (staff t ?a) k \<noteq> TIdle" "ret = None \<longrightarrow> stops (staff t ?a) k = TRet None"
    using told_end [OF told assms(6) x] by blast
  with returned_nil [of "staff t ?a" k] told show ?thesis
    by (auto simp: looked_def told_inv_def actor_inv_def)
qed

text \<open>Two actors, 10 and 11, are started and registered; StopAll stops them in reverse order.\<close>

definition sample_setup :: "(nat, nat, nat) staffed_label list" where
  "sample_setup = map (RegistryDoes \<circ> SysCall) two_workers @ map (ActorOf 10) (boot 7) @ map (ActorOf 11) (boot 7)"

definition actor_stops :: "nat \<Rightarrow> nat \<Rightarrow> (nat, nat, nat) staffed_label list" where
  "actor_stops a k = map (ActorOf a) [StopCAS k, StopClose k, LoopStop 0, LoopBeforeStop 0 HookOk, LoopExit 0, StopDone k,
     StopAfter k HookOk]"

definition sample_stop :: "(nat, nat, nat) staffed_label list" where
  "sample_stop = [RegistryDoes (StopAllStep None)] @ actor_stops 11 1 @
     [RegistryDoes (StopAllStep None), RegistryDoes (StopAllStep None)] @ actor_stops 10 3 @
     [RegistryDoes (StopAllStep None), RegistryDoes (StopAllStep None), RegistryDoes (StopAllStep None)]"

lemma staff_runs:
  assumes "\<forall>l \<in> set ls. solo l \<and> (\<forall>k. l \<noteq> StopCAS k)" "runs actor_step ls (staff s a) = Some b"
  shows "runs staffed_step (map (ActorOf a) ls) s = Some (s\<lparr>staff := (staff s)(a := b)\<rparr>)"
  using assms
proof (induction ls arbitrary: s)
  case Nil
  then have "(staff s)(a := b) = staff s"
    by auto
  then show ?case
    by simp
next
  case (Cons l ls)
  then have "staff_may a l s"
    by (cases l) auto
  with Cons.prems obtain c where "actor_step l (staff s a) = Some c" "runs actor_step ls c = Some b"
    by (auto split: option.splits)
  with Cons.IH [of "s\<lparr>staff := (staff s)(a := c)\<rparr>"] Cons.prems(1) \<open>staff_may a l s\<close> show ?case
    by (simp cong: if_cong)
qed

lemma staff_boot:
  assumes "staff s a = sys_of ga" "fresh_actor ga"
  shows "runs staffed_step (map (ActorOf a) (boot e)) s = Some (s\<lparr>staff := (staff s)(a := booted ga e)\<rparr>)"
  using assms boot_runs [OF assms(2), of e] by (intro staff_runs) (auto simp: boot_def)

definition two_staffed :: "(nat, nat) staffed" where
  "two_staffed = \<lparr>registry = snd (history sys_do two_workers sys_run_new),
     staff = (\<lambda>a. sys_of sample_actor)(10 := booted sample_actor 7, 11 := booted sample_actor 7)\<rparr>"

lemma sample_setup_runs: "runs staffed_step sample_setup (staffed_new (\<lambda>a. sample_actor)) = Some two_staffed"
proof -
  have "runs staffed_step (map (RegistryDoes \<circ> SysCall) two_workers) (staffed_new (\<lambda>a. sample_actor) :: (nat, nat) staffed) =
      Some \<lparr>registry = snd (history sys_do two_workers sys_run_new), staff = (\<lambda>a. sys_of sample_actor)\<rparr>"
    by (simp add: two_workers_def staffed_new_def case_prod_beta)
  then show ?thesis
    unfolding sample_setup_def runs_append
    by (simp add: staff_boot [where ga = sample_actor] sample_fresh two_staffed_def)
qed

theorem stop_all_ends_actors_witness:
  "\<exists>t :: (nat, nat) staffed. runs staffed_step (RegistryDoes (StopAllCall 5) # sample_stop) two_staffed = Some t \<and>
     stop_return (registry t) = Some None \<and> stop_closed (staff t 10) \<and> ga_state (staff t 10) \<noteq> Started"
proof -
  obtain t where t: "runs staffed_step (RegistryDoes (StopAllCall 5) # sample_stop) two_staffed = Some t"
    "stop_return (registry t) = Some None"
    by (simp add: sample_stop_def actor_stops_def two_staffed_def two_workers_def sys_run_new_def actor_system.defs
        New_system_def system_defs stop_list_def List.map_filter_simps stop_all_call_def stop_all_step_def next_stop_def
        stop_index_def run_simps booted_def sample_actor_def default_actor_def errors_join_def)
  have "\<not> sys_stopped (registry two_staffed)" "Get ''a'' (registry two_staffed) = Inr \<lparr>ref_type = 1, ref_actor = 10\<rparr>"
    by (simp_all add: two_staffed_def two_workers_def sys_run_new_def actor_system.defs New_system_def system_defs)
  with stop_all_ends_actors [OF _ sample_setup_runs _ _ t] sample_fresh t show ?thesis
    by fastforce
qed

end
