(* ===== verification/System_Spawn.thy ===== *)
theory System_Spawn
  imports System_Actors
begin

text \<open>
  Spawn (\<open>pkg/system/spawn.go\<close>) on the machine of \<open>System_Actors\<close>: any number of Spawn calls, each
  running StartNew on its actor, interleaved with StopAll, other callers and the actors. What
  \<open>System_Stop.Spawn\<close> does in one go is here one step for each critical section.
\<close>

section \<open>The machine\<close>

text \<open>
  The Spawn call of actor \<open>a\<close>: in StartNew, which may fail (\<open>SpNoActor\<close>); about to register; registered, to emit
  the event; registration failed, so stopping the actor; returned with the reference; with the
  error of the registration; panicked.
\<close>

datatype spawn_pc =
    SpStartNew
  | SpNoActor gerror
  | SpRegister string nat
  | SpEmit string ref
  | SpStop gerror
  | SpReturned ref
  | SpRefused gerror
  | SpPanicked gopanic

record ('m, 'e) spawning =
  core :: "('m, 'e) staffed"
  spawns :: "nat \<Rightarrow> spawn_pc"

datatype ('c, 'm, 'e) spawn_label =
    CoreDoes "('c, 'm, 'e) staffed_label"
  | SpawnStarted nat string nat
  | SpawnRegisters nat
  | SpawnEmits nat
  | SpawnStops nat

definition spawning_new :: "(nat \<Rightarrow> 'm goactor) \<Rightarrow> ('m, 'e) spawning" where
  "spawning_new gas = \<lparr>core = staffed_new gas, spawns = (\<lambda>a. SpStartNew)\<rparr>"

text \<open>The Stop call that Spawn makes itself has number 2.\<close>

fun cleaning :: "spawn_pc \<Rightarrow> bool" where
  "cleaning (SpStop e) \<longleftrightarrow> True"
| "cleaning pc \<longleftrightarrow> False"

fun spawn_may :: "('c, 'm, 'e) staffed_label \<Rightarrow> ('m, 'e) spawning \<Rightarrow> bool" where
  "spawn_may (RegistryDoes l) s \<longleftrightarrow> True"
| "spawn_may (ActorOf a l) s \<longleftrightarrow> startnew_admits l (staff (core s) a) \<and> (l = StopCAS 2 \<longrightarrow> cleaning (spawns s a))"

definition spawn_at :: "nat \<Rightarrow> spawn_pc \<Rightarrow> ('m, 'e) spawning \<Rightarrow> ('m, 'e) spawning" where
  "spawn_at a pc s = s\<lparr>spawns := (spawns s)(a := pc)\<rparr>"

text \<open>\<open>actor.StartNew\<close> has returned.\<close>

definition spawn_started :: "nat \<Rightarrow> string \<Rightarrow> nat \<Rightarrow> ('m, 'e) spawning \<Rightarrow> ('m, 'e) spawning option" where
  "spawn_started a nm T s =
     (if spawns s a = SpStartNew
      then map_option (\<lambda>out. spawn_at a
             (case out of OutActor \<Rightarrow> SpRegister nm T | OutError e \<Rightarrow> SpNoActor e | OutPanic v \<Rightarrow> SpPanicked v) s)
           (StartNew_out (staff (core s) a))
      else None)"

definition with_registry :: "(sys_run \<Rightarrow> sys_run) \<Rightarrow> ('m, 'e) spawning \<Rightarrow> ('m, 'e) spawning" where
  "with_registry f s = s\<lparr>core := (core s)\<lparr>registry := f (registry (core s))\<rparr>\<rparr>"

text \<open>\<open>actorref.New\<close> and \<open>Register\<close>.\<close>

definition spawn_registers :: "nat \<Rightarrow> ('m, 'e) spawning \<Rightarrow> ('m, 'e) spawning option" where
  "spawn_registers a s =
     (case spawns s a of
        SpRegister nm T \<Rightarrow>
          Some (case New_ref T (Some a) of
                  Inl err \<Rightarrow> spawn_at a (SpStop err) s
                | Inr r \<Rightarrow>
                    (case Register nm (Some r) (registry (core s)) of
                       (Some regErr, r') \<Rightarrow> spawn_at a (SpStop regErr) (with_registry (\<lambda>_. r') s)
                     | (None, r') \<Rightarrow> spawn_at a (SpEmit nm r) (with_registry (\<lambda>_. r') s)))
      | _ \<Rightarrow> None)"

definition spawn_emits :: "nat \<Rightarrow> ('m, 'e) spawning \<Rightarrow> ('m, 'e) spawning option" where
  "spawn_emits a s =
     (case spawns s a of
        SpEmit nm r \<Rightarrow>
          Some (spawn_at a (SpReturned r) (with_registry
            (\<lambda>g. g\<lparr>seen := seen g @ map (\<lambda>(h, e). ObsEvent h e) (emitEvent \<lparr>Kind = EventActorStarted, ActorName = nm\<rparr> g)\<rparr>) s))
      | _ \<Rightarrow> None)"

text \<open>\<open>_ = ref.Stop(readyTimeout)\<close> has returned.\<close>

definition spawn_stops :: "nat \<Rightarrow> ('m, 'e) spawning \<Rightarrow> ('m, 'e) spawning option" where
  "spawn_stops a s =
     (case spawns s a of
        SpStop err \<Rightarrow>
          (case stops (staff (core s) a) 2 of
             TRet stopErr \<Rightarrow> Some (spawn_at a (SpRefused err) s)
           | TPanicked v \<Rightarrow> Some (spawn_at a (SpPanicked v) s)
           | _ \<Rightarrow> None)
      | _ \<Rightarrow> None)"

fun spawn_step :: "('c, 'm, 'e) spawn_label \<Rightarrow> ('m, 'e) spawning \<Rightarrow> ('m, 'e) spawning option" where
  "spawn_step (CoreDoes l) s =
     (if spawn_may l s then map_option (\<lambda>c. s\<lparr>core := c\<rparr>) (staffed_step l (core s)) else None)"
| "spawn_step (SpawnStarted a nm T) s = spawn_started a nm T s"
| "spawn_step (SpawnRegisters a) s = spawn_registers a s"
| "spawn_step (SpawnEmits a) s = spawn_emits a s"
| "spawn_step (SpawnStops a) s = spawn_stops a s"

lemmas spawn_defs = spawn_started_def spawn_registers_def spawn_emits_def spawn_stops_def spawn_at_def with_registry_def
  New_ref_def

section \<open>The actor of a Spawn\<close>

text \<open>
  What holds of the actor of a Spawn call: its second Stop call is Spawn's; from the registration on it
  is started; a Spawn that was refused has stopped it.
\<close>

definition of_spawn :: "nat \<Rightarrow> spawn_pc \<Rightarrow> ('m, 'e) actor_sys \<Rightarrow> bool" where
  "of_spawn a pc w \<longleftrightarrow> wait_inv w \<and>
     (case pc of
        SpStartNew \<Rightarrow> stops w 2 = TIdle
      | SpRegister nm T \<Rightarrow> stops w 2 = TIdle \<and> started (loops w 0)
      | SpStop e \<Rightarrow> looked 2 w
      | SpRefused e \<Rightarrow> started (loops w 0) \<and> ga_state w \<noteq> Started
      | SpEmit nm r \<Rightarrow> ref_actor r = a \<and> started (loops w 0)
      | SpReturned r \<Rightarrow> ref_actor r = a \<and> started (loops w 0)
      | _ \<Rightarrow> True)"

lemma started_stays: "life_inv w \<Longrightarrow> solo l \<Longrightarrow> keeps (\<lambda>v. started (loops w 0) \<longrightarrow> started (loops v 0)) (action l w)"
  by (cases l; simp add: branch_simps helper_defs split: step_splits; auto simp: life_inv_def life_ok_def begun_def)

lemma ended_stays:
  "life_inv w \<Longrightarrow> solo l \<Longrightarrow> started (loops w 0) \<Longrightarrow> ga_state w \<noteq> Started \<Longrightarrow> keeps (\<lambda>v. ga_state v \<noteq> Started) (action l w)"
  by (cases l; simp add: branch_simps helper_defs split: step_splits; auto simp: life_inv_def life_ok_def begun_def)

lemma of_spawn_action:
  assumes "of_spawn a pc w" "life_inv w" "solo l" "actor_step l w = Some v" "l = StopCAS 2 \<longrightarrow> cleaning pc"
  shows "of_spawn a pc v"
proof -
  note act = actor_step_action [OF assms(4)]
  have "wait_inv v"
    using wait_step [THEN keepsD, OF _ assms(4)] assms(1) by (simp add: of_spawn_def)
  moreover have "started (loops w 0) \<Longrightarrow> started (loops v 0)"
    using started_stays [OF assms(2,3), THEN keepsD, OF act] by blast
  moreover have "stops v 2 = TIdle" if "stops w 2 = TIdle" "\<not> cleaning pc"
    using idle_stays [of l 2 w, THEN keepsD, OF _ act] assms(5) that by blast
  moreover have "looked 2 w \<Longrightarrow> looked 2 v"
    using looked_action [OF _ assms(2,3), THEN keepsD, OF _ act] .
  moreover have "started (loops w 0) \<Longrightarrow> ga_state w \<noteq> Started \<Longrightarrow> ga_state v \<noteq> Started"
    using ended_stays [OF assms(2,3), THEN keepsD, OF _ _ act] .
  ultimately show ?thesis
    using assms(1) by (auto simp: of_spawn_def split: spawn_pc.splits)
qed

lemma startnew_started:
  assumes "StartNew_out w = Some OutActor" "wait_inv w" "life_inv w"
  shows "started (loops w 0)"
proof -
  from assms(1) have "waits w 0 = WRet None"
    by (auto simp: StartNew_out_def split: start_pc.splits wait_pc.splits option.splits stop_pc.splits)
  with assms(2,3) have "readied (loops w 0)"
    by (auto simp: wait_inv_def life_inv_def life_ok_def)
  then show ?thesis
    by (cases "loops w 0") simp_all
qed

section \<open>The invariant\<close>

fun holds_ref :: "spawn_pc \<Rightarrow> ref option" where
  "holds_ref (SpEmit nm r) = Some r"
| "holds_ref (SpReturned r) = Some r"
| "holds_ref pc = None"

text \<open>The references Spawn has registered are in the registry, or among those StopAll took.\<close>

definition accounted :: "(nat \<Rightarrow> spawn_pc) \<Rightarrow> ('m, 'e) staffed \<Rightarrow> bool" where
  "accounted f c \<longleftrightarrow>
     (if sys_stopped (registry c)
      then \<exists>rs A. told_inv rs A c \<and> (\<forall>a r. holds_ref (f a) = Some r \<longrightarrow> r \<in> set rs \<and> a \<in> A)
      else \<exists>sp. sys_sim (registry c) sp \<and> (\<forall>a r. holds_ref (f a) = Some r \<longrightarrow> r \<in> snd ` set (regs sp)))"

definition spawn_inv :: "('m, 'e) spawning \<Rightarrow> bool" where
  "spawn_inv s \<longleftrightarrow> running_inv (core s) \<and> (\<forall>a. of_spawn a (spawns s a) (staff (core s) a)) \<and> accounted (spawns s) (core s)"

fun keeps_names :: "('c, 'm, 'e) spawn_label \<Rightarrow> bool" where
  "keeps_names (CoreDoes (RegistryDoes (SysCall (CallUnregister nm)))) \<longleftrightarrow> False"
| "keeps_names l \<longleftrightarrow> True"

lemma spec_regs_grow:
  assumes "c \<noteq> CallStopBegin" "\<forall>nm. c \<noteq> CallUnregister nm"
  shows "set (regs sp) \<subseteq> set (regs (snd (sys_spec_do c sp)))"
proof (cases c)
  case (CallRegister nm r)
  then show ?thesis
    by (cases r) auto
qed (use assms in auto)

lemma stopped_stays:
  assumes "sys_step l r = Some r'" "sys_stopped r"
  shows "sys_stopped r'"
proof (cases l)
  case (SysCall c)
  with assms sys_do_open [of c r] show ?thesis
    by (auto split: if_splits)
qed (use assms in \<open>auto simp: stop_all_call_def stop_begin_def stop_all_step_def split: option.splits list.splits stop_action.splits\<close>)

text \<open>Before StopAll: a call keeps the references, and StopAll takes those there are.\<close>

lemma accounted_registry:
  fixes c :: "('m, 'e) staffed"
  assumes sp: "sys_sim (registry c) sp" "\<forall>a r. holds_ref (f a) = Some r \<longrightarrow> r \<in> snd ` set (regs sp)"
    and run: "running_inv c" and live: "\<not> sys_stopped (registry c)" and st: "sys_step k (registry c) = Some r"
    and names: "\<forall>nm. k \<noteq> SysCall (CallUnregister nm)"
    and on: "\<forall>a r. holds_ref (f a) = Some r \<longrightarrow> started (loops (staff c a) 0)"
  shows "accounted f (c\<lparr>registry := r\<rparr>)"
proof (cases k)
  case (SysCall call)
  with st names have call: "r = snd (sys_do call (registry c))" "call \<noteq> CallStopBegin" "\<forall>nm. call \<noteq> CallUnregister nm"
    by (auto split: if_splits)
  have "sys_sim r (snd (sys_spec_do call sp))" "\<not> sys_stopped r"
    using sys_refinement.call_simulates [OF sp(1), of call] sys_do_open [OF call(2), of "registry c"] live call(1) by simp_all
  with sp(2) spec_regs_grow [OF call(2,3), of sp] show ?thesis
    by (simp add: accounted_def) blast
next
  case (StopAllCall timeout)
  with st have d: "r = stop_all_call timeout (registry c)"
    by simp
  have "told_inv (map snd (rev (regs sp))) {a. started (loops (staff c a) 0)} (c\<lparr>registry := r\<rparr>)"
    using told_begin [OF run live, of timeout] stop_list_sim [OF sp(1)] by (simp add: d)
  moreover have "sys_stopped (registry (c\<lparr>registry := r\<rparr>))"
    using live by (simp add: d stop_all_call_def stop_begin_def)
  moreover have "\<forall>a r. holds_ref (f a) = Some r \<longrightarrow> r \<in> set (map snd (rev (regs sp))) \<and> a \<in> {a. started (loops (staff c a) 0)}"
    using sp(2) on by simp
  ultimately show ?thesis
    unfolding accounted_def by (simp only: if_True) blast
next
  case (StopAllStep res)
  with st run live show ?thesis
    by (simp add: running_inv_def stop_all_step_def)
qed

lemma accounted_step:
  fixes l :: "('c, 'm, 'e) staffed_label"
  assumes acc: "accounted f c" and run: "running_inv c" and st: "staffed_step l c = Some d"
    and names: "keeps_names (CoreDoes l)" and on: "\<forall>a r. holds_ref (f a) = Some r \<longrightarrow> started (loops (staff c a) 0)"
  shows "accounted f d"
proof (cases "sys_stopped (registry c)")
  case True
  with acc obtain rs A where told: "told_inv rs A c" "\<forall>a r. holds_ref (f a) = Some r \<longrightarrow> r \<in> set rs \<and> a \<in> A"
    by (auto simp: accounted_def)
  have "sys_stopped (registry d)"
    using st True stopped_stays by (cases l) (auto split: if_splits)
  with told told_inv_step [THEN keepsD, OF told(1) st] show ?thesis
    by (auto simp: accounted_def)
next
  case False
  with acc obtain sp where sp: "sys_sim (registry c) sp" "\<forall>a r. holds_ref (f a) = Some r \<longrightarrow> r \<in> snd ` set (regs sp)"
    by (auto simp: accounted_def)
  show ?thesis
  proof (cases l)
    case (ActorOf a k)
    with st sp False show ?thesis
      by (auto simp: accounted_def split: if_splits)
  next
    case (RegistryDoes k)
    with st obtain r where r: "sys_step k (registry c) = Some r" "d = c\<lparr>registry := r\<rparr>"
      by (auto split: if_splits)
    have "\<forall>nm. k \<noteq> SysCall (CallUnregister nm)"
      using names RegistryDoes by auto
    with accounted_registry [OF sp run False r(1) _ on] r(2) show ?thesis
      by simp
  qed
qed

lemma emits_keep:
  assumes "c' = c\<lparr>registry := (registry c)\<lparr>seen := seen (registry c) @ map (\<lambda>(h, e). ObsEvent h e) es\<rparr>\<rparr>"
  shows "running_inv c' = running_inv c" "accounted f c' = accounted f c"
proof -
  have "told_inv rs A c' = told_inv rs A c" for rs A
    using assms by (simp add: told_inv_def stopping_inv_def split: option.split)
  moreover have "sys_sim (registry c') sp = sys_sim (registry c) sp" for sp
    using assms by (simp add: sys_sim_def)
  moreover have "sys_stopped (registry c') = sys_stopped (registry c)"
    using assms by simp
  ultimately show "accounted f c' = accounted f c"
    by (simp add: accounted_def)
  show "running_inv c' = running_inv c"
    using assms by (simp add: running_inv_def sys_sim_def)
qed

lemma accounted_mono:
  assumes "accounted f c" "\<And>b r. holds_ref (g b) = Some r \<Longrightarrow> holds_ref (f b) = Some r"
  shows "accounted g c"
proof (cases "sys_stopped (registry c)")
  case True
  with assms(1) obtain rs A where "told_inv rs A c" "\<forall>a r. holds_ref (f a) = Some r \<longrightarrow> r \<in> set rs \<and> a \<in> A"
    by (auto simp: accounted_def)
  with True assms(2) show ?thesis
    unfolding accounted_def by (simp only: if_True) blast
next
  case False
  with assms(1) obtain sp where "sys_sim (registry c) sp" "\<forall>a r. holds_ref (f a) = Some r \<longrightarrow> r \<in> snd ` set (regs sp)"
    by (auto simp: accounted_def)
  with False assms(2) show ?thesis
    unfolding accounted_def by (simp only: if_False) blast
qed

text \<open>A Spawn call goes on and nothing else happens.\<close>

lemma spawn_inv_at:
  assumes "spawn_inv s" "of_spawn a pc (staff (core s) a)" "holds_ref pc = holds_ref (spawns s a) \<or> holds_ref pc = None"
  shows "spawn_inv (spawn_at a pc s)"
proof -
  have "holds_ref (((spawns s)(a := pc)) b) = Some r \<Longrightarrow> holds_ref (spawns s b) = Some r" for b r
    using assms(3) by (cases "b = a") auto
  with assms(1) have "accounted ((spawns s)(a := pc)) (core s)"
    by (auto simp: spawn_inv_def intro: accounted_mono)
  with assms(1,2) show ?thesis
    by (simp add: spawn_inv_def spawn_at_def)
qed

lemma of_spawn_started: "of_spawn a pc w \<Longrightarrow> holds_ref pc = Some r \<Longrightarrow> started (loops w 0)"
  by (cases pc) (auto simp: of_spawn_def)

lemma core_step_inv:
  assumes inv: "spawn_inv s" and may: "spawn_may l s" and st: "staffed_step l (core s) = Some d"
    and names: "keeps_names (CoreDoes l)"
  shows "spawn_inv (s\<lparr>core := d\<rparr>)"
proof -
  have run: "running_inv (core s)" and ok: "of_spawn a (spawns s a) (staff (core s) a)" and acc: "accounted (spawns s) (core s)" for a
    using inv by (simp_all add: spawn_inv_def)
  have "of_spawn a (spawns s a) (staff d a)" for a
  proof (cases l)
    case (RegistryDoes k)
    with st ok show ?thesis
      by (auto split: if_splits)
  next
    case (ActorOf b k)
    with st obtain v where v: "staff_may b k (core s)" "actor_step k (staff (core s) b) = Some v"
      "d = (core s)\<lparr>staff := (staff (core s))(b := v)\<rparr>"
      by (auto split: if_splits)
    have "life_inv (staff (core s) b)"
      using run by (simp add: running_inv_def actor_inv_def)
    with of_spawn_action [OF ok _ staff_may_solo [OF v(1)] v(2)] may ActorOf ok v(3) show ?thesis
      by auto
  qed
  moreover have "accounted (spawns s) d"
    using accounted_step [OF acc run st names] of_spawn_started [OF ok] by blast
  ultimately show ?thesis
    using running_inv_step [OF run, THEN keepsD, OF st] by (simp add: spawn_inv_def)
qed

lemma spawn_inv_actor:
  assumes "spawn_inv s"
  shows "of_spawn a (spawns s a) (staff (core s) a)" "life_inv (staff (core s) a)"
  using assms by (simp_all add: spawn_inv_def running_inv_def actor_inv_def)

lemma spawn_started_inv:
  assumes inv: "spawn_inv s" and st: "spawn_started a nm T s = Some t"
  shows "spawn_inv t"
proof -
  have ok: "of_spawn a SpStartNew (staff (core s) a)"
    using spawn_inv_actor(1) [OF inv, of a] st by (simp add: spawn_started_def split: if_splits)
  obtain out where out: "StartNew_out (staff (core s) a) = Some out"
    and t: "t = spawn_at a (case out of OutActor \<Rightarrow> SpRegister nm T | OutError e \<Rightarrow> SpNoActor e | OutPanic v \<Rightarrow> SpPanicked v) s"
    using st by (auto simp: spawn_started_def split: if_splits)
  have "out = OutActor \<Longrightarrow> started (loops (staff (core s) a) 0)"
    using startnew_started [OF _ _ spawn_inv_actor(2) [OF inv]] out ok by (simp add: of_spawn_def)
  with ok show ?thesis
    unfolding t by (intro spawn_inv_at [OF inv]) (cases out; simp add: of_spawn_def)+
qed

lemma spawn_registers_inv:
  assumes inv: "spawn_inv s" and st: "spawn_registers a s = Some t"
  shows "spawn_inv t"
proof -
  obtain nm T where pc: "spawns s a = SpRegister nm T"
    using st by (auto simp: spawn_registers_def split: spawn_pc.splits)
  let ?r = "\<lparr>ref_type = T, ref_actor = a\<rparr>" and ?c = "CallRegister nm (Some \<lparr>ref_type = T, ref_actor = a\<rparr>) :: nat sys_call"
  obtain err r' where reg: "Register nm (Some ?r) (registry (core s)) = (err, r')"
    by fastforce
  let ?d = "(core s)\<lparr>registry := r'\<rparr>"
  have "staffed_step (RegistryDoes (SysCall ?c)) (core s) = Some ?d"
    by (simp add: reg)
  from core_step_inv [OF inv _ this] have mid: "spawn_inv (s\<lparr>core := ?d\<rparr>)"
    by simp
  have ok: "stops (staff (core s) a) 2 = TIdle" "started (loops (staff (core s) a) 0)" "wait_inv (staff (core s) a)"
    using spawn_inv_actor(1) [OF inv, of a] pc by (simp_all add: of_spawn_def)
  show ?thesis
  proof (cases err)
    case (Some e)
    then have "t = spawn_at a (SpStop e) (s\<lparr>core := ?d\<rparr>)"
      using st pc reg by (simp add: spawn_registers_def New_ref_def spawn_at_def with_registry_def)
    with ok show ?thesis
      by (auto simp: of_spawn_def looked_def intro!: spawn_inv_at [OF mid])
  next
    case None
    then have t: "t = spawn_at a (SpEmit nm ?r) (s\<lparr>core := ?d\<rparr>)"
      using st pc reg by (simp add: spawn_registers_def New_ref_def spawn_at_def with_registry_def)
    have free: "\<not> sys_stopped (registry (core s))" "\<not> sys_stopped r'"
      using reg None by (auto simp: Register_def register_def split: if_splits option.splits)
    with inv obtain sp where sp: "sys_sim (registry (core s)) sp"
      "\<forall>a r. holds_ref (spawns s a) = Some r \<longrightarrow> r \<in> snd ` set (regs sp)"
      by (auto simp: spawn_inv_def accounted_def)
    obtain sp' where sim: "sys_sim r' sp'" and regs: "regs sp' = regs sp @ [(nm, ?r)]"
    proof
      have ans: "fst (sys_spec_do ?c sp) = AnsErr None"
        using sys_refinement.call_simulates [OF sp(1), of ?c] reg None by simp
      then show "regs (snd (sys_spec_do ?c sp)) = regs sp @ [(nm, ?r)]"
        by (auto split: if_splits)
      show "sys_sim r' (snd (sys_spec_do ?c sp))"
        using sys_refinement.call_simulates [OF sp(1), of ?c] reg None by simp
    qed
    with sp(2) free(2) have "accounted ((spawns s)(a := SpEmit nm ?r)) ?d"
      unfolding accounted_def by (auto intro!: exI [of _ sp'])
    with mid ok show ?thesis
      by (simp add: t spawn_at_def spawn_inv_def of_spawn_def)
  qed
qed

lemma spawn_emits_inv:
  assumes inv: "spawn_inv s" and st: "spawn_emits a s = Some t"
  shows "spawn_inv t"
proof -
  obtain nm r where pc: "spawns s a = SpEmit nm r"
    using st by (auto simp: spawn_emits_def split: spawn_pc.splits)
  define c where "c = (core s)\<lparr>registry := (registry (core s))\<lparr>seen := seen (registry (core s)) @
    map (\<lambda>(h, e). ObsEvent h e) (emitEvent \<lparr>Kind = EventActorStarted, ActorName = nm\<rparr> (registry (core s)))\<rparr>\<rparr>"
  have t: "t = spawn_at a (SpReturned r) (s\<lparr>core := c\<rparr>)"
    using st pc by (simp add: spawn_emits_def with_registry_def c_def spawn_at_def)
  have "spawn_inv (s\<lparr>core := c\<rparr>)"
    using inv emits_keep [OF c_def] by (simp add: spawn_inv_def) (simp add: c_def)
  moreover have "of_spawn a (SpReturned r) (staff c a)"
    using spawn_inv_actor(1) [OF inv, of a] pc by (simp add: of_spawn_def c_def)
  ultimately show ?thesis
    unfolding t using pc by (intro spawn_inv_at) simp_all
qed

lemma spawn_stops_inv:
  assumes inv: "spawn_inv s" and st: "spawn_stops a s = Some t"
  shows "spawn_inv t"
proof -
  obtain e where pc: "spawns s a = SpStop e"
    using st by (auto simp: spawn_stops_def split: spawn_pc.splits)
  with spawn_inv_actor(1) [OF inv, of a] have "looked 2 (staff (core s) a)" "wait_inv (staff (core s) a)"
    by (simp_all add: of_spawn_def)
  with st pc show ?thesis
    by (auto simp: spawn_stops_def of_spawn_def looked_def split: stop_pc.splits intro!: spawn_inv_at [OF inv])
qed

lemma spawn_inv_step:
  assumes "keeps_names l" "spawn_inv s"
  shows "keeps spawn_inv (spawn_step l s)"
proof (cases "spawn_step l s")
  case (Some t)
  have "spawn_inv t"
  proof (cases l)
    case (CoreDoes k)
    with Some obtain d where "spawn_may k s" "staffed_step k (core s) = Some d" "t = s\<lparr>core := d\<rparr>"
      by (auto split: if_splits)
    with core_step_inv [OF assms(2)] assms(1) CoreDoes show ?thesis
      by simp
  qed (use Some assms(2) in \<open>auto intro: spawn_started_inv spawn_registers_inv spawn_emits_inv spawn_stops_inv\<close>)
  with Some show ?thesis
    by simp
qed simp

interpretation spawn_machine: invariant_machine spawn_step keeps_names spawn_inv
  by unfold_locales (rule spawn_inv_step)

lemma spawn_inv_new:
  assumes "\<forall>a. fresh_actor (gas a)"
  shows "spawn_inv (spawning_new gas)"
proof -
  have run: "running_inv (staffed_new gas)"
    using running_inv_new [OF assms] .
  have free: "\<not> sys_stopped (registry (staffed_new gas))"
    by (simp add: staffed_new_def sys_run_new_def actor_system.defs New_system_def)
  with run have "\<exists>sp. sys_sim (registry (staffed_new gas)) sp"
    unfolding running_inv_def by blast
  with free have "accounted (\<lambda>_. SpStartNew) (staffed_new gas)"
    unfolding accounted_def by auto
  with run show ?thesis
    by (simp add: spawn_inv_def spawning_new_def of_spawn_def wait_inv_def staffed_new_def sys_of_def goactor.defs)
qed

section \<open>Properties\<close>

text \<open>
  C15: No actor that Spawn started outlives StopAll: with any number of Spawn calls, other callers and
  StopAll interleaved, but nothing unregistered, once StopAll has returned, the actor of a Spawn that returned its reference,
  and of one whose registration was refused, is not Started and never will be.
\<close>

theorem spawned_actors_are_stopped:
  assumes "\<forall>a. fresh_actor (gas a)" "list_all keeps_names ls" "runs spawn_step ls (spawning_new gas) = Some t"
    "stop_return (registry (core t)) = Some ret" "spawns t a = SpReturned r \<or> spawns t a = SpRefused err"
  shows "ga_state (staff (core t) a) \<noteq> Started"
proof -
  have inv: "spawn_inv t"
    using spawn_machine.runs_keeps [OF spawn_inv_new [OF assms(1)] assms(2,3)] .
  then have "sys_stopped (registry (core t))"
    using assms(4) by (auto simp: spawn_inv_def running_inv_def)
  with inv obtain rs A where told: "told_inv rs A (core t)"
    and held: "\<forall>a r. holds_ref (spawns t a) = Some r \<longrightarrow> r \<in> set rs \<and> a \<in> A"
    by (auto simp: spawn_inv_def accounted_def)
  have ok: "of_spawn a (spawns t a) (staff (core t) a)"
    using spawn_inv_actor(1) [OF inv] .
  show ?thesis
  proof (cases "spawns t a = SpReturned r")
    case True
    then have "holds_ref (spawns t a) = Some r" "ref_actor r = a"
      using ok by (simp_all add: of_spawn_def)
    with held have "r \<in> set rs" "a \<in> A" "ref_actor r = a"
      by blast+
    with told_end [OF told assms(4), of r] show ?thesis
      by (auto simp: looked_def)
  next
    case False
    with assms(5) ok show ?thesis
      by (simp add: of_spawn_def)
  qed
qed

text \<open>
  Actor 10 is spawned as a; that of Spawn b, 11, is ready when StopAll takes the lock, so its
  registration is refused.
\<close>

definition spawn_setup :: "(nat, nat, nat) spawn_label list" where
  "spawn_setup = map CoreDoes (map (ActorOf 10) (boot 7)) @ map CoreDoes (map (ActorOf 11) (boot 7))"

definition spawned_run :: "(nat, nat, nat) spawn_label list" where
  "spawned_run =
     [CoreDoes (ActorOf 10 (WaitOk 0)), SpawnStarted 10 ''a'' 1, SpawnRegisters 10, SpawnEmits 10,
      CoreDoes (ActorOf 11 (WaitOk 0)), SpawnStarted 11 ''b'' 1, CoreDoes (RegistryDoes (StopAllCall 5)),
      CoreDoes (RegistryDoes (StopAllStep None))] @ map CoreDoes (actor_stops 10 1) @
     [CoreDoes (RegistryDoes (StopAllStep None)), CoreDoes (RegistryDoes (StopAllStep None)),
      CoreDoes (RegistryDoes (StopAllStep None)), SpawnRegisters 11] @ map CoreDoes (actor_stops 11 2) @ [SpawnStops 11]"

lemma core_runs:
  assumes "\<forall>l \<in> set ls. \<forall>s :: ('m, 'e) spawning. spawn_may l s" "runs staffed_step ls (core s) = Some c"
  shows "runs spawn_step (map CoreDoes ls) (s :: ('m, 'e) spawning) = Some (s\<lparr>core := c\<rparr>)"
  using assms by (induction ls arbitrary: s) (auto split: option.splits)

lemma spawn_boot:
  assumes "staff (core s) a = sys_of ga" "fresh_actor ga"
  shows "runs spawn_step (map CoreDoes (map (ActorOf a) (boot e))) s =
    Some (s\<lparr>core := (core s)\<lparr>staff := (staff (core s))(a := booted ga e)\<rparr>\<rparr>)"
  using staff_boot [OF assms] by (intro core_runs) (auto simp: boot_def)

definition two_started :: "(nat, nat) spawning" where
  "two_started = \<lparr>core = \<lparr>registry = sys_run_new,
     staff = (\<lambda>a. sys_of sample_actor)(10 := booted sample_actor 7, 11 := booted sample_actor 7)\<rparr>, spawns = (\<lambda>a. SpStartNew)\<rparr>"

lemma spawn_setup_runs: "runs spawn_step spawn_setup (spawning_new (\<lambda>a. sample_actor)) = Some two_started"
  unfolding spawn_setup_def runs_append
  by (simp add: spawn_boot [where ga = sample_actor] sample_fresh two_started_def spawning_new_def staffed_new_def del: map_map)

theorem spawned_actors_are_stopped_witness:
  "\<exists>t. runs spawn_step (spawn_setup @ spawned_run) (spawning_new (\<lambda>a. sample_actor)) = Some t \<and>
     spawns t 10 = SpReturned \<lparr>ref_type = 1, ref_actor = 10\<rparr> \<and> ga_state (staff (core t) 10) \<noteq> Started \<and>
     spawns t 11 = SpRefused (SystemErr ErrSystemStopped) \<and> ga_state (staff (core t) 11) \<noteq> Started"
proof -
  obtain t where t: "runs spawn_step (spawn_setup @ spawned_run) (spawning_new (\<lambda>a. sample_actor)) = Some t"
    "stop_return (registry (core t)) = Some None" "spawns t 10 = SpReturned \<lparr>ref_type = 1, ref_actor = 10\<rparr>"
    "spawns t 11 = SpRefused (SystemErr ErrSystemStopped)"
    unfolding runs_append spawn_setup_runs option.case
    by (simp add: spawned_run_def two_started_def spawn_defs StartNew_out_def
        actor_stops_def sys_run_new_def actor_system.defs New_system_def system_defs stop_list_def List.map_filter_simps
        stop_all_call_def stop_all_step_def next_stop_def stop_index_def run_simps booted_def sample_actor_def default_actor_def
        errors_join_def)
  have "list_all keeps_names (spawn_setup @ spawned_run)"
    by (simp add: spawn_setup_def spawned_run_def actor_stops_def boot_def)
  with t spawned_actors_are_stopped [OF _ _ t(1,2)] sample_fresh show ?thesis
    by blast
qed

end
