(* ===== verification/Supervisor_Monitor.thy ===== *)
theory Supervisor_Monitor
  imports Supervisor
begin

text \<open>
  \<open>pkg/supervision/supervisor.go\<close>, the concurrent part: StartAll, StopAll and the goroutine that
  monitors each started child and restarts it (monitor, handleTermination, restartOne,
  restartAll), as threads numbered by \<open>nat\<close>. One step is one critical section under the
  supervisor's mutex, or one call of a child spec or a child reference outside it. What specs and
  references do is in the labels; \<open>inst_done\<close> and \<open>inst_state\<close> are Done() and State() of a
  reference. Add, Watch and OnRestartError may be called at any time.
\<close>

section \<open>Threads\<close>

text \<open>
  \<open>PStart cs again\<close>: the children \<open>cs\<close> are to be started; \<open>again\<close> tells a restart, which reports
  an error and goes on, from StartAll, which returns it. \<open>PGot c r cs again\<close>: the spec of \<open>c\<close>
  gave the reference \<open>r\<close>. \<open>PMon\<close> to \<open>PDecide\<close>: monitor and handleTermination. \<open>PAllSnap\<close> to
  \<open>PStopRef\<close>: restartAll. \<open>PSaStop\<close>, \<open>PSaRef\<close>: StopAll.
\<close>

datatype sup_pc =
    PIdle
  | PStart "nat list" bool
  | PGot nat nat "nat list" bool
  | PMon nat "64 word"
  | PWait nat "64 word" nat
  | PCheck nat "64 word"
  | PTerm nat
  | PDecide nat "64 word"
  | PAllSnap
  | PBump "nat list" "nat list"
  | PStopRef nat nat "nat list" "nat list"
  | PSaStop "nat list" "gerror option list"
  | PSaRef nat "nat list" "gerror option list"
  | PRet "gerror option"

text \<open>\<open>started\<close>: the references specs gave, with the child; \<open>stopped_refs\<close>: Stop was called.\<close>

record sup_sys = supervisor +
  threads :: "nat \<Rightarrow> sup_pc"
  inst_done :: "nat \<Rightarrow> bool"
  inst_state :: "nat \<Rightarrow> 64 word"
  ctx_over :: bool
  started_refs :: "(nat \<times> nat) list"
  stopped_refs :: "nat list"
  watch_calls :: "(nat \<times> string \<times> 64 word) list"
  error_calls :: "(nat \<times> string \<times> gerror) list"

definition sup_sys_of :: "supervisor \<Rightarrow> sup_sys" where
  "sup_sys_of s = supervisor.extend s
     \<lparr>threads = (\<lambda>_. PIdle), inst_done = (\<lambda>_. False), inst_state = (\<lambda>_. state_code Started),
      ctx_over = False, started_refs = [], stopped_refs = [], watch_calls = [], error_calls = []\<rparr>"

datatype sup_label =
    CallStartAll nat
  | CallStopAll nat
  | SpecStart nat "gerror + nat"
  | SetRef nat nat
  | MonRead nat
  | MonDone nat
  | MonCtx nat
  | MonCheck nat
  | Terminated nat
  | Decide nat int
  | AllSnap nat
  | Bump nat
  | StopRef nat "gerror option"
  | SaRead nat
  | SaStop nat "gerror option"
  | CallAdd string "nat option"
  | CallWatch nat
  | CallOnRestartError nat
  | InstDone nat
  | InstState nat "64 word"
  | CtxOver

definition go_to :: "nat \<Rightarrow> sup_pc \<Rightarrow> sup_sys \<Rightarrow> sup_sys" where
  "go_to i pc s = s\<lparr>threads := (threads s)(i := pc)\<rparr>"

definition notifyRestartError :: "nat \<Rightarrow> gerror option \<Rightarrow> sup_sys \<Rightarrow> sup_sys" where
  "notifyRestartError c err s =
     (case err of
        None \<Rightarrow> s
      | Some e \<Rightarrow>
          s\<lparr>error_calls := error_calls s @
              map (\<lambda>h. (h, c_name (children s ! c), e)) (restartErrorHandlers s)\<rparr>)"

section \<open>Starting\<close>

definition call_start_all :: "nat \<Rightarrow> sup_sys \<Rightarrow> sup_sys option" where
  "call_start_all i s =
     (if threads s i = PIdle
      then Some (if sup_stopped s then go_to i (PRet (Some (SupErr ErrSupervisorStopped))) s
                 else go_to i (PStart [0..<length (children s)] False) s)
      else None)"

text \<open>\<open>c.spec.Start(ctx)\<close> of the next child: a new reference, or an error.\<close>

definition spec_start :: "nat \<Rightarrow> gerror + nat \<Rightarrow> sup_sys \<Rightarrow> sup_sys option" where
  "spec_start i res s =
     (case threads s i of
        PStart (c # cs) again \<Rightarrow>
          (case res of
             Inl err \<Rightarrow>
               Some (if again then go_to i (PStart cs True) (notifyRestartError c (Some err) s)
                     else go_to i (PRet (Some err)) s)
           | Inr r \<Rightarrow>
               if r \<in> snd ` set (started_refs s) then None
               else Some (go_to i (PGot c r cs again) (s\<lparr>started_refs := started_refs s @ [(c, r)]\<rparr>)))
      | PStart [] again \<Rightarrow> Some (go_to i (PRet None) s)
      | _ \<Rightarrow> None)"

text \<open>The locked part of startChild, and \<open>go s.monitor(...)\<close> as thread \<open>j\<close>.\<close>

definition set_ref_step :: "nat \<Rightarrow> nat \<Rightarrow> sup_sys \<Rightarrow> sup_sys option" where
  "set_ref_step i j s =
     (case threads s i of
        PGot c r cs again \<Rightarrow>
          if threads s j = PIdle
          then Some (case set_ref c r s of (v, s') \<Rightarrow> go_to i (PStart cs again) (go_to j (PMon c v) s'))
          else None
      | _ \<Rightarrow> None)"

section \<open>Monitoring\<close>

definition mon_read :: "nat \<Rightarrow> sup_sys \<Rightarrow> sup_sys option" where
  "mon_read i s =
     (case threads s i of
        PMon c v \<Rightarrow> map_option (\<lambda>r. go_to i (PWait c v r) s) (c_ref (children s ! c))
      | _ \<Rightarrow> None)"

definition mon_done :: "nat \<Rightarrow> sup_sys \<Rightarrow> sup_sys option" where
  "mon_done i s =
     (case threads s i of
        PWait c v r \<Rightarrow> if inst_done s r then Some (go_to i (PCheck c v) s) else None
      | _ \<Rightarrow> None)"

definition mon_ctx :: "nat \<Rightarrow> sup_sys \<Rightarrow> sup_sys option" where
  "mon_ctx i s =
     (case threads s i of
        PWait c v r \<Rightarrow> if ctx_over s then Some (go_to i (PRet None) s) else None
      | _ \<Rightarrow> None)"

definition mon_check :: "nat \<Rightarrow> sup_sys \<Rightarrow> sup_sys option" where
  "mon_check i s =
     (case threads s i of
        PCheck c v \<Rightarrow>
          Some (if version (children s ! c) \<noteq> v then go_to i (PRet None) s else go_to i (PTerm c) s)
      | _ \<Rightarrow> None)"

text \<open>handleTermination: the state of the reference the child has now, and the watchers.\<close>

definition terminated :: "nat \<Rightarrow> sup_sys \<Rightarrow> sup_sys option" where
  "terminated i s =
     (case threads s i of
        PTerm c \<Rightarrow>
          map_option
            (\<lambda>r. go_to i (PDecide c (inst_state s r))
              (s\<lparr>watch_calls := watch_calls s @
                   map (\<lambda>cb. (cb, c_name (children s ! c), inst_state s r)) (watchers s)\<rparr>))
            (c_ref (children s ! c))
      | _ \<Rightarrow> None)"

definition decide_step :: "nat \<Rightarrow> int \<Rightarrow> sup_sys \<Rightarrow> sup_sys option" where
  "decide_step i now s =
     (case threads s i of
        PDecide c st \<Rightarrow>
          Some (if st = state_code Done then go_to i (PRet None) s
                else
                  (case decide now s of
                     (None, s') \<Rightarrow> go_to i (PRet None) s'
                   | (Some OneForOne, s') \<Rightarrow> go_to i (PStart [c] True) s'
                   | (Some AllForOne, s') \<Rightarrow> go_to i PAllSnap s'
                   | (Some (OtherStrategy n), s') \<Rightarrow> go_to i (PRet None) s'))
      | _ \<Rightarrow> None)"

section \<open>Restarting all\<close>

definition all_snap :: "nat \<Rightarrow> sup_sys \<Rightarrow> sup_sys option" where
  "all_snap i s =
     (if threads s i = PAllSnap
      then Some (go_to i (PBump [0..<length (children s)] [0..<length (children s)]) s) else None)"

definition bump_step :: "nat \<Rightarrow> sup_sys \<Rightarrow> sup_sys option" where
  "bump_step i s =
     (case threads s i of
        PBump (c # cs) all \<Rightarrow>
          Some (case bump c s of
                  (None, s') \<Rightarrow> go_to i (PBump cs all) s'
                | (Some r, s') \<Rightarrow> go_to i (PStopRef c r cs all) s')
      | PBump [] all \<Rightarrow> Some (go_to i (PStart all True) s)
      | _ \<Rightarrow> None)"

definition stop_ref :: "nat \<Rightarrow> gerror option \<Rightarrow> sup_sys \<Rightarrow> sup_sys option" where
  "stop_ref i err s =
     (case threads s i of
        PStopRef c r cs all \<Rightarrow>
          Some (go_to i (PBump cs all)
            (notifyRestartError c err (s\<lparr>stopped_refs := stopped_refs s @ [r]\<rparr>)))
      | _ \<Rightarrow> None)"

section \<open>Stopping\<close>

definition call_stop_all :: "nat \<Rightarrow> sup_sys \<Rightarrow> sup_sys option" where
  "call_stop_all i s =
     (if threads s i = PIdle
      then Some (case sup_stop_begin s of
                   (Inl err, s') \<Rightarrow> go_to i (PRet (Some err)) s'
                 | (Inr cs, s') \<Rightarrow> go_to i (PSaStop cs []) s')
      else None)"

definition sa_read :: "nat \<Rightarrow> sup_sys \<Rightarrow> sup_sys option" where
  "sa_read i s =
     (case threads s i of
        PSaStop (c # cs) errs \<Rightarrow>
          Some (case c_ref (children s ! c) of
                  None \<Rightarrow> go_to i (PSaStop cs errs) s
                | Some r \<Rightarrow> go_to i (PSaRef r cs errs) s)
      | PSaStop [] errs \<Rightarrow> Some (go_to i (PRet (errors_join errs)) s)
      | _ \<Rightarrow> None)"

definition sa_stop :: "nat \<Rightarrow> gerror option \<Rightarrow> sup_sys \<Rightarrow> sup_sys option" where
  "sa_stop i err s =
     (case threads s i of
        PSaRef r cs errs \<Rightarrow>
          Some (go_to i (PSaStop cs (errs @ [err])) (s\<lparr>stopped_refs := stopped_refs s @ [r]\<rparr>))
      | _ \<Rightarrow> None)"

section \<open>The machine\<close>

fun sup_step :: "sup_label \<Rightarrow> sup_sys \<Rightarrow> sup_sys option" where
  "sup_step (CallStartAll i) s = call_start_all i s"
| "sup_step (CallStopAll i) s = call_stop_all i s"
| "sup_step (SpecStart i res) s = spec_start i res s"
| "sup_step (SetRef i j) s = set_ref_step i j s"
| "sup_step (MonRead i) s = mon_read i s"
| "sup_step (MonDone i) s = mon_done i s"
| "sup_step (MonCtx i) s = mon_ctx i s"
| "sup_step (MonCheck i) s = mon_check i s"
| "sup_step (Terminated i) s = terminated i s"
| "sup_step (Decide i now) s = decide_step i now s"
| "sup_step (AllSnap i) s = all_snap i s"
| "sup_step (Bump i) s = bump_step i s"
| "sup_step (StopRef i err) s = stop_ref i err s"
| "sup_step (SaRead i) s = sa_read i s"
| "sup_step (SaStop i err) s = sa_stop i err s"
| "sup_step (CallAdd nm sp) s = Some (snd (Add nm sp s))"
| "sup_step (CallWatch cb) s = Some (Watch cb s)"
| "sup_step (CallOnRestartError cb) s = Some (OnRestartError cb s)"
| "sup_step (InstDone r) s = Some (s\<lparr>inst_done := (inst_done s)(r := True)\<rparr>)"
| "sup_step (InstState r st) s = Some (s\<lparr>inst_state := (inst_state s)(r := st)\<rparr>)"
| "sup_step CtxOver s = Some (s\<lparr>ctx_over := True\<rparr>)"

lemmas sup_step_defs = call_start_all_def call_stop_all_def spec_start_def set_ref_step_def
  mon_read_def mon_done_def mon_ctx_def mon_check_def terminated_def decide_step_def all_snap_def
  bump_step_def stop_ref_def sa_read_def sa_stop_def

lemmas sup_splits = option.split if_split sup_pc.split list.split sum.split prod.split strategy.split

end
