(* ===== verification/Supervisor_Restart.thy ===== *)
theory Supervisor_Restart
  imports Supervisor_Monitor
begin

text \<open>
  What restarting guarantees, on the machine of \<open>Supervisor_Monitor\<close>: with the strategy OneForOne
  at most one goroutine is concerned with a child (\<open>one_ok\<close> on the threads, the references and what
  was started; \<open>one_inv\<close> on the state) and its monitor is not stale (\<open>current_inv\<close>); then the
  properties that rest on them, and two interleavings that go wrong.
\<close>

section \<open>One goroutine for each child\<close>

text \<open>
  With the strategy OneForOne and one StartAll at most one thread is concerned with a child:
  the one that starts it, its monitor, or the monitor that restarts it.
\<close>

fun concerns :: "nat \<Rightarrow> sup_pc \<Rightarrow> bool" where
  "concerns c (PStart cs again) \<longleftrightarrow> c \<in> set cs"
| "concerns c (PGot c' r cs again) \<longleftrightarrow> c = c' \<or> c \<in> set cs"
| "concerns c (PMon c' v) \<longleftrightarrow> c = c'"
| "concerns c (PWait c' v r) \<longleftrightarrow> c = c'"
| "concerns c (PCheck c' v) \<longleftrightarrow> c = c'"
| "concerns c (PTerm c') \<longleftrightarrow> c = c'"
| "concerns c (PDecide c' st) \<longleftrightarrow> c = c'"
| "concerns c pc \<longleftrightarrow> False"

text \<open>The thread knows that the reference the child had has ended (or that there is none).\<close>

fun after_end :: "nat \<Rightarrow> sup_pc \<Rightarrow> bool" where
  "after_end c (PMon c' v) \<longleftrightarrow> False"
| "after_end c (PWait c' v r) \<longleftrightarrow> False"
| "after_end c pc \<longleftrightarrow> concerns c pc"

fun proper :: "(nat \<Rightarrow> nat option) \<Rightarrow> sup_pc \<Rightarrow> bool" where
  "proper refs (PStart cs again) \<longleftrightarrow> distinct cs"
| "proper refs (PGot c r cs again) \<longleftrightarrow> distinct (c # cs)"
| "proper refs (PWait c v r) \<longleftrightarrow> refs c = Some r"
| "proper refs PAllSnap \<longleftrightarrow> False"
| "proper refs (PBump cs all) \<longleftrightarrow> False"
| "proper refs (PStopRef c r cs all) \<longleftrightarrow> False"
| "proper refs pc \<longleftrightarrow> True"

fun has_got :: "nat \<Rightarrow> nat \<Rightarrow> sup_pc \<Rightarrow> bool" where
  "has_got c r (PGot c' r' cs again) \<longleftrightarrow> c = c' \<and> r = r'"
| "has_got c r pc \<longleftrightarrow> False"

definition one_ok ::
  "(nat \<Rightarrow> sup_pc) \<Rightarrow> (nat \<Rightarrow> nat option) \<Rightarrow> (nat \<times> nat) list \<Rightarrow> (nat \<Rightarrow> bool) \<Rightarrow> bool" where
  "one_ok f refs st dn \<longleftrightarrow>
     (\<forall>c i j. concerns c (f i) \<longrightarrow> concerns c (f j) \<longrightarrow> i = j) \<and>
     (\<forall>i. proper refs (f i)) \<and>
     (\<forall>c i r. after_end c (f i) \<longrightarrow> refs c = Some r \<longrightarrow> dn r) \<and>
     (\<forall>c r. (c, r) \<in> set st \<longrightarrow> refs c = Some r \<or> dn r \<or> (\<exists>i. has_got c r (f i)))"

lemma after_end_concerns: "after_end c pc \<Longrightarrow> concerns c pc"
  by (cases pc) auto

lemma has_got_concerns: "has_got c r pc \<Longrightarrow> after_end c pc"
  by (cases pc) auto

lemma one_okD:
  assumes "one_ok f refs st dn"
  shows "concerns c (f i) \<Longrightarrow> concerns c (f j) \<Longrightarrow> i = j" "proper refs (f i)"
    "after_end c (f i) \<Longrightarrow> refs c = Some r \<Longrightarrow> dn r"
    "(c, r) \<in> set st \<Longrightarrow> refs c = Some r \<or> dn r \<or> (\<exists>i. has_got c r (f i))"
  using assms unfolding one_ok_def by blast+

lemma one_okI:
  assumes "\<And>c i j. concerns c (f i) \<Longrightarrow> concerns c (f j) \<Longrightarrow> i = j" "\<And>i. proper refs (f i)"
    "\<And>c i r. after_end c (f i) \<Longrightarrow> refs c = Some r \<Longrightarrow> dn r"
    "\<And>c r. (c, r) \<in> set st \<Longrightarrow> refs c = Some r \<or> dn r \<or> (\<exists>i. has_got c r (f i))"
  shows "one_ok f refs st dn"
  using assms unfolding one_ok_def by blast

lemma has_got_other: "has_got c r (f a) \<Longrightarrow> a \<noteq> i \<Longrightarrow> \<exists>a. has_got c r ((f(i := pc)) a)"
  by (intro exI [of _ a]) simp

lemma one_ok_move:
  assumes ok: "one_ok f refs st dn" and sub: "\<And>c. concerns c pc \<Longrightarrow> concerns c (f i)"
    and pr: "proper refs pc"
    and ae: "\<And>c r. after_end c pc \<Longrightarrow> refs c = Some r \<Longrightarrow> after_end c (f i) \<or> dn r"
    and ng: "\<And>c r. \<not> has_got c r (f i)"
  shows "one_ok (f(i := pc)) refs st dn"
proof (rule one_okI)
  fix c a b assume "concerns c ((f(i := pc)) a)" "concerns c ((f(i := pc)) b)"
  then have "concerns c (f a)" "concerns c (f b)"
    using sub by (auto split: if_splits)
  then show "a = b"
    by (rule one_okD(1) [OF ok])
next
  fix c a r assume "after_end c ((f(i := pc)) a)" "refs c = Some r"
  then show "dn r"
    using ae one_okD(3) [OF ok, of c a r] one_okD(3) [OF ok, of c i r] by (auto split: if_splits)
next
  fix c r assume "(c, r) \<in> set st"
  with one_okD(4) [OF ok] ng have "refs c = Some r \<or> dn r \<or> (\<exists>a. a \<noteq> i \<and> has_got c r (f a))"
    by metis
  then show "refs c = Some r \<or> dn r \<or> (\<exists>a. has_got c r ((f(i := pc)) a))"
    using has_got_other [of c r f _ i pc] by blast
qed (use pr one_okD(2) [OF ok] in simp)

lemma one_ok_done:
  assumes "one_ok f refs st dn"
  shows "one_ok f refs st (dn(r := True))"
  using assms unfolding one_ok_def by (auto simp: fun_upd_apply)

lemma one_ok_start:
  assumes ok: "one_ok f refs st dn" and i: "f i = PStart (c # cs) again"
  shows "one_ok (f(i := PGot c r cs again)) refs (st @ [(c, r)]) dn"
proof (rule one_okI)
  fix k a b assume "concerns k ((f(i := PGot c r cs again)) a)" "concerns k ((f(i := PGot c r cs again)) b)"
  then have "concerns k (f a)" "concerns k (f b)"
    using i by (auto split: if_splits)
  then show "a = b"
    by (rule one_okD(1) [OF ok])
next
  fix a show "proper refs ((f(i := PGot c r cs again)) a)"
    using one_okD(2) [OF ok, of a] one_okD(2) [OF ok, of i] i by auto
next
  fix k a r' assume "after_end k ((f(i := PGot c r cs again)) a)" "refs k = Some r'"
  then show "dn r'"
    using i one_okD(3) [OF ok, of k a r'] one_okD(3) [OF ok, of k i r'] by (auto split: if_splits)
next
  fix k r' assume "(k, r') \<in> set (st @ [(c, r)])"
  then have "k = c \<and> r' = r \<or> refs k = Some r' \<or> dn r' \<or> (\<exists>a. a \<noteq> i \<and> has_got k r' (f a))"
    using one_okD(4) [OF ok, of k r'] i by (auto; metis has_got.simps(3))
  moreover have "has_got c r ((f(i := PGot c r cs again)) i)"
    by simp
  ultimately show "refs k = Some r' \<or> dn r' \<or> (\<exists>a. has_got k r' ((f(i := PGot c r cs again)) a))"
    using has_got_other [of k r' f _ i "PGot c r cs again"] by blast
qed

lemma one_ok_set:
  assumes ok: "one_ok f refs st dn" and i: "f i = PGot c r cs again" and j: "f j = PIdle"
  shows "one_ok (f(j := PMon c v, i := PStart cs again)) (refs(c := Some r)) st dn"
proof (rule one_okI)
  have other: "\<not> concerns c (f a)" if "a \<noteq> i" for a
    using that one_okD(1) [OF ok, of c a i] i by auto
  have cs: "c \<notin> set cs" "distinct cs"
    using one_okD(2) [OF ok, of i] i by auto
  have old: "dn r'" if "refs c = Some r'" for r'
    using one_okD(3) [OF ok, of c i r'] that i by simp
  let ?f = "f(j := PMon c v, i := PStart cs again)"
  have new: "if k = c then a = j else concerns k (f a)" if "concerns k (?f a)" for k a
    using that i j cs(1) other [of a] by (cases "a = i"; cases "a = j") auto
  have ae: "k \<noteq> c \<and> after_end k (f a)" if "after_end k (?f a)" for k a
    using that i j cs(1) other [of a] by (cases "a = i"; cases "a = j") (auto dest: after_end_concerns)
  {
    fix k a b assume "concerns k (?f a)" "concerns k (?f b)"
    then show "a = b"
      using new [of k a] new [of k b] one_okD(1) [OF ok, of k a b] by (simp split: if_splits)
  next
    fix a show "proper (refs(c := Some r)) (?f a)"
      using one_okD(2) [OF ok, of a] cs other [of a] by (cases "f a") auto
  next
    fix k a r' assume "after_end k (?f a)" "(refs(c := Some r)) k = Some r'"
    then show "dn r'"
      using ae [of k a] one_okD(3) [OF ok, of k a r'] by simp
  next
    fix k r' assume "(k, r') \<in> set st"
    with one_okD(4) [OF ok, of k r'] consider "refs k = Some r'" | "dn r'" | a where "has_got k r' (f a)"
      by blast
    then show "(refs(c := Some r)) k = Some r' \<or> dn r' \<or> (\<exists>a. has_got k r' (?f a))"
    proof cases
      case 3
      show ?thesis
      proof (cases "a = i")
        case False
        then have "has_got k r' (?f a)"
          using 3 j by auto
        then show ?thesis by blast
      qed (use 3 i in auto)
    qed (use old in auto)
  }
qed

definition refs_of :: "'x supervisor_scheme \<Rightarrow> nat \<Rightarrow> nat option" where
  "refs_of s c = (if c < length (children s) then c_ref (children s ! c) else None)"

definition one_inv :: "sup_sys \<Rightarrow> bool" where
  "one_inv s \<longleftrightarrow>
     Strategy (policy s) = OneForOne \<and>
     (\<forall>i c. concerns c (threads s i) \<longrightarrow> c < length (children s)) \<and>
     one_ok (threads s) (refs_of s) (started_refs s) (inst_done s)"

fun no_start :: "sup_label \<Rightarrow> bool" where
  "no_start (CallStartAll i) \<longleftrightarrow> False"
| "no_start _ \<longleftrightarrow> True"

text \<open>The child a monitor watches, and the version it captured.\<close>

fun watches :: "sup_pc \<Rightarrow> (nat \<times> 64 word) option" where
  "watches (PMon c v) = Some (c, v)"
| "watches (PWait c v r) = Some (c, v)"
| "watches (PCheck c v) = Some (c, v)"
| "watches pc = None"

text \<open>What a step that only moves thread \<open>i\<close> has to show.\<close>

definition moves :: "nat \<Rightarrow> sup_sys \<Rightarrow> sup_sys \<Rightarrow> bool" where
  "moves i s t \<longleftrightarrow>
     (\<exists>pc. threads t = (threads s)(i := pc) \<and> (\<forall>c. concerns c pc \<longrightarrow> concerns c (threads s i)) \<and>
        proper (refs_of s) pc \<and>
        (\<forall>c r. after_end c pc \<longrightarrow> refs_of s c = Some r \<longrightarrow> after_end c (threads s i) \<or> inst_done s r) \<and>
        (\<forall>c r. \<not> has_got c r (threads s i)) \<and>
        (\<forall>w. watches pc = Some w \<longrightarrow> watches (threads s i) = Some w)) \<and>
     policy t = policy s \<and> children t = children s \<and> started_refs t = started_refs s \<and>
     inst_done t = inst_done s"

lemma moves_keeps: "moves i s t \<Longrightarrow> one_inv s \<Longrightarrow> one_inv t"
  unfolding moves_def one_inv_def
  by (clarsimp simp: refs_of_def [abs_def] cong: if_cong) (intro conjI allI impI; (rule one_ok_move; simp?)?; fastforce)

lemmas moves_defs = moves_def go_to_def notifyRestartError_def decide_def sup_stop_begin_def

lemma mon_read_moves:
  assumes inv: "one_inv s" and st: "mon_read i s = Some t"
  shows "moves i s t"
proof -
  obtain c v r where i: "threads s i = PMon c v" and r: "c_ref (children s ! c) = Some r"
    and t: "t = go_to i (PWait c v r) s"
    using st by (auto simp: mon_read_def split: sup_pc.splits)
  have "concerns c (threads s i)"
    using i by simp
  with inv have "c < length (children s)"
    unfolding one_inv_def by blast
  with r have "refs_of s c = Some r"
    by (simp add: refs_of_def)
  with i t show ?thesis
    by (auto simp: moves_defs intro!: exI [of _ "PWait c v r"])
qed

lemma mon_done_moves:
  assumes inv: "one_inv s" and st: "mon_done i s = Some t"
  shows "moves i s t"
proof -
  obtain c v r where i: "threads s i = PWait c v r" and r: "inst_done s r" and t: "t = go_to i (PCheck c v) s"
    using st by (auto simp: mon_done_def split: sup_pc.splits if_splits)
  have "refs_of s c = Some r"
    using inv i one_okD(2) [of "threads s" "refs_of s" _ _ i] by (fastforce simp: one_inv_def)
  with i r t show ?thesis
    by (auto simp: moves_defs intro!: exI [of _ "PCheck c v"])
qed

lemma thread_moves:
  shows mon_ctx_moves: "mon_ctx i s = Some t \<Longrightarrow> moves i s t"
    and mon_check_moves: "mon_check i s = Some t \<Longrightarrow> moves i s t"
    and terminated_moves: "terminated i s = Some t \<Longrightarrow> moves i s t"
    and sa_read_moves: "sa_read i s = Some t \<Longrightarrow> moves i s t"
    and sa_stop_moves: "sa_stop i e s = Some t \<Longrightarrow> moves i s t"
  by (cases "threads s i"; auto simp: mon_ctx_def mon_check_def terminated_def sa_read_def sa_stop_def moves_defs
      split: if_splits list.splits option.splits)+

lemma call_stop_all_moves: "call_stop_all i s = Some t \<Longrightarrow> moves i s t"
  by (auto simp: call_stop_all_def moves_defs split: if_splits)

lemma decide_moves: "one_inv s \<Longrightarrow> decide_step i now s = Some t \<Longrightarrow> moves i s t"
  by (cases "threads s i")
    (auto simp: decide_step_def moves_defs one_inv_def split: if_splits prod.splits)

text \<open>The threads of restartAll do not exist under OneForOne.\<close>

lemma no_restart_all:
  assumes "one_inv s"
  shows "all_snap i s = None" "bump_step i s = None" "stop_ref i e s = None"
  using assms one_okD(2) [of "threads s" "refs_of s" _ _ i]
  by (cases "threads s i"; force simp: one_inv_def all_snap_def bump_step_def stop_ref_def)+

lemma spec_start_cases:
  assumes inv: "one_inv s" and st: "spec_start i res s = Some t"
  obtains (got) c cs again r where "threads s i = PStart (c # cs) again"
      "t = go_to i (PGot c r cs again) (s\<lparr>started_refs := started_refs s @ [(c, r)]\<rparr>)"
  | (moves) "moves i s t"
proof (cases "\<exists>c cs again r. threads s i = PStart (c # cs) again \<and> res = Inr r")
  case True
  with st that(1) show ?thesis
    by (auto simp: spec_start_def split: if_splits)
next
  case False
  have "distinct cs" if "threads s i = PStart cs again" for cs again
  proof -
    have "one_ok (threads s) (refs_of s) (started_refs s) (inst_done s)"
      using inv by (simp add: one_inv_def)
    from one_okD(2) [OF this, of i] that show ?thesis
      by simp
  qed
  with False st have "moves i s t"
    by (cases "threads s i")
      (fastforce simp: spec_start_def moves_defs split: list.splits sum.splits if_splits)+
  then show ?thesis
    by (rule that(2))
qed

lemma spec_start_one:
  assumes inv: "one_inv s" and st: "spec_start i res s = Some t"
  shows "one_inv t"
  using inv st
proof (cases rule: spec_start_cases)
  case (got c cs again r)
  have "\<forall>k. concerns k (PGot c r cs again) \<longrightarrow> concerns k (threads s i)"
    using got(1) by auto
  moreover have "one_ok (threads t) (refs_of s) (started_refs t) (inst_done s)"
    using one_ok_start [where f = "threads s", OF _ got(1)] inv by (simp add: got(2) go_to_def one_inv_def)
  moreover have "refs_of t = refs_of s"
    by (simp add: got(2) go_to_def refs_of_def fun_eq_iff)
  ultimately show ?thesis
    using inv by (auto simp: got(2) go_to_def one_inv_def)
qed (auto intro: moves_keeps [OF _ inv])

lemma set_ref_one:
  assumes inv: "one_inv s" and st: "set_ref_step i j s = Some t"
  shows "one_inv t"
proof -
  obtain c r cs again where i: "threads s i = PGot c r cs again" and j: "threads s j = PIdle"
    using st by (auto simp: set_ref_step_def split: sup_pc.splits if_splits)
  have c: "c < length (children s)"
    using inv i unfolding one_inv_def by (metis concerns.simps(2))
  obtain v s' where sr: "set_ref c r s = (v, s')"
    by (cases "set_ref c r s")
  then have t: "t = go_to i (PStart cs again) (go_to j (PMon c v) s')"
    using st i j by (simp add: set_ref_step_def)
  have same: "threads s' = threads s" "policy s' = policy s" "started_refs s' = started_refs s"
    "inst_done s' = inst_done s" "length (children s') = length (children s)"
    "refs_of s' = (refs_of s)(c := Some r)"
    using sr c by (auto simp: set_ref_def Let_def refs_of_def fun_eq_iff)
  have "one_ok ((threads s)(j := PMon c v, i := PStart cs again)) ((refs_of s)(c := Some r)) (started_refs s) (inst_done s)"
    using inv by (intro one_ok_set [OF _ i j]) (simp add: one_inv_def)
  moreover have "\<forall>k. concerns k (PStart cs again) \<longrightarrow> concerns k (threads s i)"
    using i by simp
  moreover have "refs_of t = refs_of s'"
    by (simp add: t go_to_def refs_of_def fun_eq_iff)
  ultimately show ?thesis
    using inv c by (auto simp: t go_to_def one_inv_def same)
qed

text \<open>Add, Watch and OnRestartError: at most a child without reference is new.\<close>

definition extends :: "sup_sys \<Rightarrow> sup_sys \<Rightarrow> bool" where
  "extends s t \<longleftrightarrow>
     threads t = threads s \<and> policy t = policy s \<and> started_refs t = started_refs s \<and> inst_done t = inst_done s \<and>
     (\<exists>cs. children t = children s @ cs \<and> (\<forall>c\<in>set cs. c_ref c = None))"

lemma client_extends: "extends s (snd (Add nm sp s))" "extends s (Watch cb s)" "extends s (OnRestartError cb s)"
  by (auto simp: extends_def Add_def Watch_def OnRestartError_def split: option.split)

lemma extends_refs:
  assumes "extends s t"
  shows "refs_of t = refs_of s"
proof
  fix c
  obtain cs where "children t = children s @ cs" "\<forall>c\<in>set cs. c_ref c = None"
    using assms by (auto simp: extends_def)
  then show "refs_of t c = refs_of s c"
    using nth_mem [of "c - length (children s)" cs] by (auto simp: refs_of_def nth_append simp del: nth_mem)
qed

lemma extends_one: "extends s t \<Longrightarrow> one_inv s \<Longrightarrow> one_inv t"
  using extends_refs [of s t] by (fastforce simp: one_inv_def extends_def intro: trans_less_add1)

lemma one_inv_step:
  assumes "no_start l" "one_inv s" "sup_step l s = Some t"
  shows "one_inv t"
proof (cases l)
  case (InstDone r)
  with assms show ?thesis
    by (auto simp: one_inv_def refs_of_def [abs_def] one_ok_done cong: if_cong)
next
  case (InstState r st)
  with assms show ?thesis
    by (auto simp: one_inv_def refs_of_def [abs_def] cong: if_cong)
next
  case CtxOver
  with assms show ?thesis
    by (auto simp: one_inv_def refs_of_def [abs_def] cong: if_cong)
qed (use assms in \<open>auto simp: no_restart_all intro: spec_start_one set_ref_one
  extends_one [OF client_extends(1)] extends_one [OF client_extends(2)] extends_one [OF client_extends(3)]
  moves_keeps [OF mon_read_moves] moves_keeps [OF mon_done_moves] moves_keeps [OF mon_ctx_moves]
  moves_keeps [OF mon_check_moves] moves_keeps [OF terminated_moves] moves_keeps [OF decide_moves]
  moves_keeps [OF call_stop_all_moves] moves_keeps [OF sa_read_moves] moves_keeps [OF sa_stop_moves]\<close>)

interpretation one_machine: invariant_machine sup_step no_start one_inv
  by unfold_locales (auto simp: keeps_def intro: one_inv_step split: option.split)

lemma one_inv_begin:
  assumes "Strategy (policy sv) = OneForOne" "\<forall>c\<in>set (children sv). c_ref c = None"
    "sup_step (CallStartAll i) (sup_sys_of sv) = Some s"
  shows "one_inv s"
  using assms
  by (auto simp: one_inv_def one_ok_def sup_sys_of_def supervisor.defs call_start_all_def go_to_def refs_of_def
    split: if_splits)

lemma one_inv_single:
  assumes "one_inv s" "(c, r) \<in> set (started_refs s)" "(c, r') \<in> set (started_refs s)"
    "\<not> inst_done s r" "\<not> inst_done s r'"
  shows "r = r'"
proof -
  have ok: "one_ok (threads s) (refs_of s) (started_refs s) (inst_done s)"
    using assms(1) by (simp add: one_inv_def)
  have got: "refs_of s c = None \<or> inst_done s (the (refs_of s c))" if "has_got c q (threads s k)" for q k
    by (cases "refs_of s c") (simp_all add: one_okD(3) [OF ok has_got_concerns [OF that]])
  have "refs_of s c = Some q \<or> (\<exists>k. has_got c q (threads s k))" if "q \<in> {r, r'}" for q
    using one_okD(4) [OF ok, of c q] that assms(2-5) by auto
  moreover have "q = q'" if "has_got c q (threads s k)" "has_got c q' (threads s k')" for q q' k k'
  proof -
    have "k = k'"
      using that by (meson one_okD(1) [OF ok] after_end_concerns has_got_concerns)
    with that show ?thesis
      by (cases "threads s k") auto
  qed
  ultimately show ?thesis
    using got assms(4,5) by (metis insertI1 insertI2 option.distinct(1) option.sel)
qed

text \<open>A monitor that is not stale stays so, as nobody else starts its child.\<close>

definition current_inv :: "sup_sys \<Rightarrow> bool" where
  "current_inv s \<longleftrightarrow> one_inv s \<and> (\<forall>i c v. watches (threads s i) = Some (c, v) \<longrightarrow> version (children s ! c) = v)"

lemma watches_concerns: "watches pc = Some (c, v) \<Longrightarrow> concerns c pc"
  by (cases pc) auto

lemma current_inv_moves:
  assumes "moves i s t" "current_inv s"
  shows "current_inv t"
proof -
  from assms(1) obtain pc where "threads t = (threads s)(i := pc)" "children t = children s"
    "\<forall>w. watches pc = Some w \<longrightarrow> watches (threads s i) = Some w"
    by (auto simp: moves_def)
  with assms(2) moves_keeps [OF assms(1)] show ?thesis
    by (auto simp: current_inv_def split: if_splits)
qed

lemma current_inv_extends:
  assumes "extends s t" "current_inv s"
  shows "current_inv t"
proof -
  have one: "one_inv s"
    using assms(2) by (simp add: current_inv_def)
  have "version (children t ! c) = v" if "watches (threads s i) = Some (c, v)" for i c v
  proof -
    have "c < length (children s)"
      using one watches_concerns [OF that] unfolding one_inv_def by blast
    with assms that show ?thesis
      by (auto simp: extends_def current_inv_def nth_append)
  qed
  with assms(1) extends_one [OF assms(1) one] show ?thesis
    by (simp add: current_inv_def extends_def)
qed

lemma current_inv_set_ref:
  assumes inv: "current_inv s" and st: "set_ref_step i j s = Some t"
  shows "current_inv t"
proof -
  have one: "one_inv s" "one_inv t"
    using inv set_ref_one [OF _ st] by (simp_all add: current_inv_def)
  from st obtain c r cs again where i: "threads s i = PGot c r cs again"
    and t: "t = (case set_ref c r s of (v, s') \<Rightarrow> go_to i (PStart cs again) (go_to j (PMon c v) s'))"
    by (auto simp: set_ref_step_def split: sup_pc.splits if_splits)
  have "c < length (children s)"
    using one(1) i unfolding one_inv_def by (metis concerns.simps(2))
  moreover have "k = i" if "watches (threads s k) = Some (c, v)" for k v
    using one(1) watches_concerns [OF that] i one_okD(1) [of "threads s" "refs_of s" _ _ c k i]
    by (auto simp: one_inv_def)
  ultimately show ?thesis
    using inv one(2) i t
    by (fastforce simp: current_inv_def set_ref_def Let_def go_to_def nth_list_update split: if_splits)
qed

lemma current_inv_step:
  assumes l: "no_start l" and inv: "current_inv s" and st: "sup_step l s = Some t"
  shows "current_inv t"
proof -
  have one: "one_inv s"
    using inv by (simp add: current_inv_def)
  have stay: "current_inv t" if "threads t = threads s" "children t = children s"
    using that inv one_inv_step [OF l one st] by (simp add: current_inv_def)
  show ?thesis
  proof (cases l)
    case (SpecStart i res)
    with st have "spec_start i res s = Some t"
      by simp
    with one show ?thesis
    proof (cases rule: spec_start_cases)
      case (got c cs again r)
      with inv one_inv_step [OF l one st] show ?thesis
        by (auto simp: current_inv_def go_to_def)
    qed (rule current_inv_moves [OF _ inv])
  qed (use st l stay one in \<open>auto simp: no_restart_all [OF one] intro: current_inv_set_ref [OF inv]
    current_inv_extends [OF client_extends(1) inv] current_inv_extends [OF client_extends(2) inv]
    current_inv_extends [OF client_extends(3) inv]
    current_inv_moves [OF mon_read_moves inv] current_inv_moves [OF mon_done_moves inv]
    current_inv_moves [OF mon_ctx_moves inv] current_inv_moves [OF mon_check_moves inv]
    current_inv_moves [OF terminated_moves inv] current_inv_moves [OF decide_moves inv]
    current_inv_moves [OF call_stop_all_moves inv] current_inv_moves [OF sa_read_moves inv]
    current_inv_moves [OF sa_stop_moves inv]\<close>)
qed

interpretation current_machine: invariant_machine sup_step no_start current_inv
  by unfold_locales (auto simp: keeps_def intro: current_inv_step split: option.split)

lemma current_inv_begin:
  assumes "Strategy (policy sv) = OneForOne" "\<forall>c\<in>set (children sv). c_ref c = None"
    "sup_step (CallStartAll i) (sup_sys_of sv) = Some s"
  shows "current_inv s"
  using one_inv_begin [OF assms] assms(3)
  by (auto simp: current_inv_def sup_sys_of_def supervisor.defs call_start_all_def go_to_def split: if_splits)

section \<open>Properties\<close>

text \<open>
  Under OneForOne, with one StartAll on a supervisor whose children have not been started,
  whatever the children, StopAll, Add, the clock and the scheduler do, a child never has two instances
  alive: of two references that the spec of one child gave, at least one is done.
\<close>

theorem one_for_one_single_instance:
  assumes "Strategy (policy sv) = OneForOne" "\<forall>c\<in>set (children sv). c_ref c = None"
    "list_all no_start ls" "runs sup_step (CallStartAll i # ls) (sup_sys_of sv) = Some t"
    "(c, r) \<in> set (started_refs t)" "(c, r') \<in> set (started_refs t)" "r \<noteq> r'"
  shows "inst_done t r \<or> inst_done t r'"
proof -
  obtain s where "sup_step (CallStartAll i) (sup_sys_of sv) = Some s" "runs sup_step ls s = Some t"
    using assms(4) by (auto split: option.splits)
  with one_machine.runs_keeps [OF one_inv_begin [OF assms(1,2)] assms(3)] have "one_inv t"
    by blast
  then show ?thesis
    using one_inv_single assms(5-7) by blast
qed

definition two_children :: "strategy \<Rightarrow> supervisor" where
  "two_children st =
     snd (Add ''b'' (Some 2) (snd (Add ''a'' (Some 1)
       (NewSupervisor [WithPolicy \<lparr>Strategy = st, MaxRestarts = 3, WithinDuration = 5\<rparr>]))))"

text \<open>
  StartAll by thread 0 gives the children the references 10 and 11, watched by the threads 1 and 2.
\<close>

definition started_two :: "sup_label list" where
  "started_two =
     [CallStartAll 0, SpecStart 0 (Inr 10), SetRef 0 1, SpecStart 0 (Inr 11), SetRef 0 2,
      SpecStart 0 (Inr 0), MonRead 1, MonRead 2]"

text \<open>The instance \<open>r\<close> fails; its monitor \<open>i\<close> gets to its decision.\<close>

definition fails :: "nat \<Rightarrow> nat \<Rightarrow> sup_label list" where
  "fails r i =
     [InstState r (state_code Panicked), InstDone r, MonDone i, MonCheck i, Terminated i, Decide i 0]"

definition stops_two :: "nat \<Rightarrow> sup_label list" where
  "stops_two i = [AllSnap i, Bump i, StopRef i None, Bump i, StopRef i None, Bump i]"

definition stop_two :: "nat \<Rightarrow> sup_label list" where
  "stop_two i = [CallStopAll i, SaRead i, SaStop i None, SaRead i, SaStop i None, SaRead i]"

lemmas run_defs = started_two_def fails_def stops_two_def stop_two_def sup_sys_of_def supervisor.defs
  sup_step_defs go_to_def notifyRestartError_def set_ref_def bump_def decide_def account_def
  sup_stop_begin_def errors_join_def Let_def

lemma two_children_eq:
  "two_children st =
     \<lparr>policy = \<lparr>Strategy = st, MaxRestarts = 3, WithinDuration = 5\<rparr>,
      children = [\<lparr>c_name = ''a'', c_spec = 1, c_ref = None, version = 0\<rparr>,
                  \<lparr>c_name = ''b'', c_spec = 2, c_ref = None, version = 0\<rparr>],
      names = [(''a'', 0), (''b'', 1)], restarts = [], sup_stopped = False, watchers = [],
      restartErrorHandlers = [], stopTimeout = 5 * second\<rparr>"
  by (simp add: two_children_def Add_def NewSupervisor_def WithPolicy_def)

theorem one_for_one_single_instance_witness:
  "\<exists>t. runs sup_step (started_two @ fails 10 1 @ [SpecStart 1 (Inr 20), SetRef 1 3]) (sup_sys_of (two_children OneForOne)) = Some t \<and>
     (0, 20) \<in> set (started_refs t) \<and> (inst_done t 10 \<or> inst_done t 20)"
proof -
  let ?ls = "tl started_two @ fails 10 1 @ [SpecStart 1 (Inr 20), SetRef 1 3]"
  obtain t where t: "runs sup_step (CallStartAll 0 # ?ls) (sup_sys_of (two_children OneForOne)) = Some t"
    "(0, 10) \<in> set (started_refs t)" "(0, 20) \<in> set (started_refs t)"
    by (simp add: two_children_eq run_defs)
  have "inst_done t 10 \<or> inst_done t 20"
    by (rule one_for_one_single_instance [OF _ _ _ t]) (simp_all add: two_children_eq run_defs)
  with t show ?thesis
    by (simp add: started_two_def)
qed

text \<open>
  C18: Under OneForOne the end of a child is answered: its monitor, left to run, is not stale; it
  tells every watcher the name and the state, once and in order, and then starts the child again,
  unless it is Done, the supervisor is stopped or the budget is spent; if the spec then gives a new
  reference, this becomes the child's, watched by a monitor for the next version.
\<close>

theorem failure_is_answered:
  assumes "Strategy (policy sv) = OneForOne" "\<forall>c\<in>set (children sv). c_ref c = None"
    "list_all no_start ls" "runs sup_step (CallStartAll k # ls) (sup_sys_of sv) = Some t"
    "threads t i = PWait c v r" "inst_done t r" "threads t j = PIdle" "r' \<notin> snd ` set (started_refs t)"
  shows "\<exists>u. runs sup_step [MonDone i, MonCheck i, Terminated i, Decide i now] t = Some u \<and>
    watch_calls u = watch_calls t @ map (\<lambda>cb. (cb, c_name (children t ! c), inst_state t r)) (watchers t) \<and>
    (if inst_state t r = state_code Done \<or> sup_stopped t \<or> \<not> fst (account (policy t) now (restarts t))
     then threads u i = PRet None
     else \<exists>u'. runs sup_step [SpecStart i (Inr r'), SetRef i j, MonRead j] u = Some u' \<and>
       c_ref (children u' ! c) = Some r' \<and> threads u' j = PWait c (v + 1) r')"
proof -
  obtain s where "sup_step (CallStartAll k) (sup_sys_of sv) = Some s" "runs sup_step ls s = Some t"
    using assms(4) by (auto split: option.splits)
  with current_machine.runs_keeps [OF current_inv_begin [OF assms(1,2)] assms(3)] have inv: "current_inv t"
    by blast
  have "watches (threads t i) = Some (c, v)"
    using assms(5) by simp
  with inv have "version (children t ! c) = v" "Strategy (policy t) = OneForOne"
    unfolding current_inv_def one_inv_def by blast+
  moreover have "refs_of t c = Some r" and c: "c < length (children t)"
  proof -
    have "one_ok (threads t) (refs_of t) (started_refs t) (inst_done t)" "concerns c (threads t i)"
      using inv assms(5) by (simp_all add: current_inv_def one_inv_def)
    with inv one_okD(2) [OF this(1), of i] assms(5) show "refs_of t c = Some r" "c < length (children t)"
      unfolding current_inv_def one_inv_def by (simp, blast)
  qed
  moreover obtain ok rs where "account (policy t) now (restarts t) = (ok, rs)"
    by (cases "account (policy t) now (restarts t)")
  moreover have "i \<noteq> j"
    using assms(5,7) by auto
  ultimately show ?thesis
    using assms(5-8)
    by (auto simp: mon_done_def mon_check_def terminated_def decide_step_def decide_def go_to_def refs_of_def
        spec_start_def set_ref_step_def set_ref_def Let_def mon_read_def)
qed

theorem failure_is_answered_witness:
  "\<exists>t u u'. runs sup_step (started_two @ [InstState 10 (state_code Panicked), InstDone 10]) (sup_sys_of (two_children OneForOne)) = Some t \<and>
     runs sup_step [MonDone 1, MonCheck 1, Terminated 1, Decide 1 0] t = Some u \<and>
     runs sup_step [SpecStart 1 (Inr 20), SetRef 1 3, MonRead 3] u = Some u' \<and> c_ref (children u' ! 0) = Some 20"
proof -
  let ?ls = "tl started_two @ [InstState 10 (state_code Panicked), InstDone 10]"
  obtain t where t: "runs sup_step (CallStartAll 0 # ?ls) (sup_sys_of (two_children OneForOne)) = Some t"
    "threads t 1 = PWait 0 1 10" "inst_done t 10" "threads t 3 = PIdle" "20 \<notin> snd ` set (started_refs t)"
    and d: "inst_state t 10 \<noteq> state_code Done" "\<not> sup_stopped t" "fst (account (policy t) 0 (restarts t))"
    by (simp add: two_children_eq run_defs)
  have "Strategy (policy (two_children OneForOne)) = OneForOne" "\<forall>c\<in>set (children (two_children OneForOne)). c_ref c = None"
    "list_all no_start ?ls"
    by (simp_all add: two_children_eq run_defs)
  note answered = failure_is_answered [OF this t, of 0]
  have "CallStartAll 0 # ?ls = started_two @ [InstState 10 (state_code Panicked), InstDone 10]"
    by (simp add: started_two_def)
  with t(1) have "runs sup_step (started_two @ [InstState 10 (state_code Panicked), InstDone 10])
    (sup_sys_of (two_children OneForOne)) = Some t"
    by (simp only:)
  with answered d show ?thesis
    by (auto simp del: runs.simps state_code.simps)
qed

text \<open>
  Under AllForOne two failures that overlap leak an instance: both monitors pass the version
  check before either restart moves the versions on, both restart all children, and the second
  overwrites the reference 20 that the first gave a child: the StopAll that follows returns nil
  without having stopped it, and it runs on beside 30, started by the same spec.
\<close>

theorem overlapping_restarts_leak:
  "\<exists>t. runs sup_step
      (started_two @ fails 10 1 @ fails 11 2 @ stops_two 1 @ stops_two 2 @
       [SpecStart 1 (Inr 20), SetRef 1 3, SpecStart 2 (Inr 30), SetRef 2 4, SpecStart 1 (Inr 21), SetRef 1 5,
        SpecStart 2 (Inr 31), SetRef 2 6] @ stop_two 9)
      (sup_sys_of (two_children AllForOne)) = Some t \<and>
     threads t 9 = PRet None \<and> stopped_refs t = [10, 11, 10, 11, 31, 30] \<and>
     (0, 20) \<in> set (started_refs t) \<and> (0, 30) \<in> set (started_refs t) \<and>
     \<not> inst_done t 20 \<and> refs_of t 0 = Some 30"
  by (simp add: two_children_eq run_defs refs_of_def)

text \<open>
  A StopAll that overlaps a restart leaves a child running: the restart has been decided
  before StopAll takes the lock, StopAll stops the old reference and returns nil, then the spec
  starts the instance 20, which nobody stops: the supervisor is stopped, and StopAll once more
  returns ErrSupervisorStopped.
\<close>

theorem stop_all_misses_restart:
  "\<exists>t. runs sup_step
      (started_two @ fails 10 1 @ stop_two 9 @ [SpecStart 1 (Inr 20), SetRef 1 3, CallStopAll 8])
      (sup_sys_of (two_children OneForOne)) = Some t \<and>
     threads t 9 = PRet None \<and> stopped_refs t = [11, 10] \<and>
     (0, 20) \<in> set (started_refs t) \<and> \<not> inst_done t 20 \<and> refs_of t 0 = Some 20 \<and>
     threads t 8 = PRet (Some (SupErr ErrSupervisorStopped))"
  by (simp add: two_children_eq run_defs refs_of_def)

end
