(* ===== verification/Supervised_Actor.thy ===== *)
theory Supervised_Actor
  imports Supervisor_Restart Actor_StartNew
begin

text \<open>
  A supervisor of actors: the machine of \<open>Supervisor_Monitor\<close> with its references given by actors.
  The reference \<open>r\<close> is an actor on the machine of \<open>Actor_Loop\<close>; a spec gives \<open>r\<close> when its StartNew
  returned the actor, Done and State of the reference are those of the actor, and Stop is a Stop
  call on it.
\<close>

section \<open>The machine\<close>

record ('m, 'e) supervised =
  monitors :: sup_sys
  instances :: "nat \<Rightarrow> ('m, 'e) actor_sys"

definition supervised_new :: "supervisor \<Rightarrow> (nat \<Rightarrow> 'm goactor) \<Rightarrow> ('m, 'e) supervised" where
  "supervised_new sv gas = \<lparr>monitors = sup_sys_of sv, instances = (\<lambda>r. sys_of (gas r))\<rparr>"

datatype ('m, 'e) supervised_label =
    SupDoes sup_label
  | InstanceDoes nat "('m, 'e) label"

text \<open>
  Stop called by thread \<open>i\<close> of the supervisor is the Stop call \<open>2 * i + 1\<close> of the actor; 0 is that
  of StartNew, and the other even numbers are for other callers.
\<close>

definition stop_call :: "nat \<Rightarrow> nat" where
  "stop_call i = 2 * i + 1"

fun stopping :: "sup_pc \<Rightarrow> nat option" where
  "stopping (PStopRef c r cs all) = Some r"
| "stopping (PSaRef r cs errs) = Some r"
| "stopping pc = None"

fun sup_may :: "sup_label \<Rightarrow> ('m, 'e) supervised \<Rightarrow> bool" where
  "sup_may (SpecStart i (Inr r)) s \<longleftrightarrow> StartNew_out (instances s r) = Some OutActor"
| "sup_may (StopRef i err) s \<longleftrightarrow>
     (\<exists>r\<in>set_option (stopping (threads (monitors s) i)). stops (instances s r) (stop_call i) = TRet err)"
| "sup_may (SaStop i err) s \<longleftrightarrow>
     (\<exists>r\<in>set_option (stopping (threads (monitors s) i)). stops (instances s r) (stop_call i) = TRet err)"
| "sup_may (InstDone r) s \<longleftrightarrow> False"
| "sup_may (InstState r st) s \<longleftrightarrow> False"
| "sup_may l s \<longleftrightarrow> True"

fun instance_may :: "nat \<Rightarrow> ('m, 'e) label \<Rightarrow> ('m, 'e) supervised \<Rightarrow> bool" where
  "instance_may r (StopCAS k) s \<longleftrightarrow> even k \<or> stopping (threads (monitors s) (k div 2)) = Some r"
| "instance_may r l s \<longleftrightarrow> solo l"

text \<open>What the supervisor sees of an actor that moved.\<close>

definition report :: "nat \<Rightarrow> ('m, 'e) actor_sys \<Rightarrow> sup_sys \<Rightarrow> sup_sys" where
  "report r a m = m\<lparr>inst_done := (inst_done m)(r := done_closed a), inst_state := (inst_state m)(r := State a)\<rparr>"

fun supervised_step ::
  "('m, 'e) supervised_label \<Rightarrow> ('m, 'e) supervised \<Rightarrow> ('m, 'e) supervised option" where
  "supervised_step (SupDoes l) s =
     (if sup_may l s then map_option (\<lambda>m. s\<lparr>monitors := m\<rparr>) (sup_step l (monitors s)) else None)"
| "supervised_step (InstanceDoes r l) s =
     (if instance_may r l s
      then map_option (\<lambda>a. s\<lparr>instances := (instances s)(r := a), monitors := report r a (monitors s)\<rparr>)
        (StartNew_step l (instances s r))
      else None)"

section \<open>Invariants\<close>

fun one_start :: "('m, 'e) supervised_label \<Rightarrow> bool" where
  "one_start (SupDoes l) \<longleftrightarrow> no_start l"
| "one_start (InstanceDoes r l) \<longleftrightarrow> True"

definition instances_inv :: "('m, 'e) supervised \<Rightarrow> bool" where
  "instances_inv s \<longleftrightarrow> (\<forall>r. actor_inv (instances s r) \<and> inst_done (monitors s) r = done_closed (instances s r))"

definition supervised_inv :: "('m, 'e) supervised \<Rightarrow> bool" where
  "supervised_inv s \<longleftrightarrow> current_inv (monitors s) \<and> instances_inv s"

lemma instance_may_solo: "instance_may r l s \<Longrightarrow> solo l"
  by (cases l) auto

lemma done_stays: "keeps (\<lambda>b. done_closed a \<longrightarrow> done_closed b) (action l a)"
  by (cases l; simp add: branch_simps helper_defs split: step_splits)

lemma sup_done_kept: "\<forall>r. l \<noteq> InstDone r \<Longrightarrow> keeps (\<lambda>t. inst_done t = inst_done m) (sup_step l m)"
  by (cases l; simp add: sup_step_defs go_to_def notifyRestartError_def decide_def set_ref_def bump_def sup_stop_begin_def
      Add_def Watch_def OnRestartError_def Let_def split: sup_splits)

lemma report_current:
  assumes "current_inv m" "inst_done m r \<longrightarrow> done_closed a"
  shows "current_inv (report r a m)"
proof -
  have "current_inv (m\<lparr>inst_state := (inst_state m)(r := State a)\<rparr>)"
    using current_inv_step [OF _ assms(1), of "InstState r (State a)"] by simp
  moreover have "report r a m = (if done_closed a then
      m\<lparr>inst_state := (inst_state m)(r := State a), inst_done := (inst_done m)(r := True)\<rparr>
      else m\<lparr>inst_state := (inst_state m)(r := State a)\<rparr>)"
    using assms(2) by (auto simp: report_def fun_upd_idem)
  ultimately show ?thesis
    using current_inv_step [of "InstDone r"] by auto
qed

lemma current_inv_label:
  "no_start l \<Longrightarrow> current_inv m \<Longrightarrow> keeps current_inv (sup_step l m)"
  using current_inv_step by (auto simp: keeps_def split: option.split)

lemma instance_step_inv:
  assumes "StartNew_step l a = Some b" "solo l" "actor_inv a"
  shows "actor_inv b" "done_closed a \<Longrightarrow> done_closed b"
proof -
  from assms(1) have "actor_step l a = Some b" "action l a = Some b"
    by (auto simp: StartNew_step_def actor_step_def split: if_splits)
  with assms(2,3) show "actor_inv b" "done_closed a \<Longrightarrow> done_closed b"
    using actor_inv_step [THEN keepsD] done_stays [THEN keepsD] by blast+
qed

lemma supervised_inv_step:
  assumes "one_start l" "supervised_inv s"
  shows "keeps supervised_inv (supervised_step l s)"
proof (cases "supervised_step l s")
  case (Some t)
  have cur: "current_inv (monitors s)" and inst: "actor_inv (instances s r)" 
    "inst_done (monitors s) r = done_closed (instances s r)" for r
    using assms(2) by (simp_all add: supervised_inv_def instances_inv_def)
  show ?thesis
  proof (cases l)
    case (SupDoes k)
    with Some obtain m where m: "sup_may k s" "sup_step k (monitors s) = Some m" "t = s\<lparr>monitors := m\<rparr>"
      by (auto split: if_splits)
    moreover have "\<forall>r. k \<noteq> InstDone r"
      using m(1) by auto
    ultimately have "inst_done m = inst_done (monitors s)" "current_inv m"
      using sup_done_kept [THEN keepsD] current_inv_label [OF _ cur, THEN keepsD] assms(1) SupDoes by auto
    with m inst Some show ?thesis
      by (simp add: supervised_inv_def instances_inv_def)
  next
    case (InstanceDoes r k)
    with Some obtain a where a: "instance_may r k s" "StartNew_step k (instances s r) = Some a"
      and t: "t = s\<lparr>instances := (instances s)(r := a), monitors := report r a (monitors s)\<rparr>"
      by (auto split: if_splits)
    note a' = instance_step_inv [OF a(2) instance_may_solo [OF a(1)] inst(1)]
    then have "current_inv (report r a (monitors s))"
      using inst(2) [of r] by (intro report_current [OF cur]) simp
    with a' inst t Some show ?thesis
      by (simp add: supervised_inv_def instances_inv_def report_def)
  qed
qed simp

interpretation supervised_machine: invariant_machine supervised_step one_start supervised_inv
  by unfold_locales (rule supervised_inv_step)

lemma supervised_begin:
  fixes gas :: "nat \<Rightarrow> 'm goactor" and s :: "('m, 'e) supervised"
  assumes "Strategy (policy sv) = OneForOne" "\<forall>c\<in>set (children sv). c_ref c = None" "\<forall>r. fresh_actor (gas r)"
    "supervised_step (SupDoes (CallStartAll i)) (supervised_new sv gas) = Some s"
  shows "supervised_inv s"
proof -
  from assms(4) obtain m where m: "sup_step (CallStartAll i) (sup_sys_of sv) = Some m"
    and s: "s = \<lparr>monitors = m, instances = (\<lambda>r. sys_of (gas r))\<rparr>"
    by (auto simp: supervised_new_def)
  have "inst_done m = inst_done (sup_sys_of sv)"
    using sup_done_kept [THEN keepsD, OF _ m] by blast
  moreover have "actor_inv (instances s r)" "\<not> done_closed (instances s r)" for r
    using assms(3) sys_of_inv [of "gas r"] by (simp_all add: s sys_of_def goactor.defs fresh_actor_def)
  ultimately show ?thesis
    using current_inv_begin [OF assms(1,2) m]
    by (simp add: supervised_inv_def instances_inv_def s sup_sys_of_def supervisor.defs)
qed

lemma supervised_run:
  assumes "Strategy (policy sv) = OneForOne" "\<forall>c\<in>set (children sv). c_ref c = None" "\<forall>r. fresh_actor (gas r)"
    "list_all one_start ls" "runs supervised_step (SupDoes (CallStartAll k) # ls) (supervised_new sv gas) = Some t"
  shows "supervised_inv t"
proof -
  obtain s where "supervised_step (SupDoes (CallStartAll k)) (supervised_new sv gas) = Some s"
    "runs supervised_step ls s = Some t"
    using assms(5) by (auto simp del: supervised_step.simps split: option.splits)
  with supervised_machine.runs_keeps [OF supervised_begin [OF assms(1-3)] assms(4)] show ?thesis
    by blast
qed

section \<open>A panicked child\<close>

text \<open>
  The child \<open>c\<close> has the reference \<open>r\<close>, which only its monitor for version \<open>v\<close> is concerned with, and
  the instances it had are \<open>rs\<close>.
\<close>

definition undisturbed :: "nat \<Rightarrow> 64 word \<Rightarrow> nat \<Rightarrow> nat list \<Rightarrow> sup_sys \<Rightarrow> bool" where
  "undisturbed c v r rs m \<longleftrightarrow>
     (\<forall>j. concerns c (threads m j) \<longrightarrow> threads m j = PWait c v r) \<and> refs_of m c = Some r \<and>
     map snd (filter (\<lambda>x. fst x = c) (started_refs m)) = rs"

lemma refs_of_children: "children t = children m \<Longrightarrow> refs_of t = refs_of m"
  by (simp add: refs_of_def fun_eq_iff)

lemma undisturbed_moves:
  assumes "moves i m t" "undisturbed c v r rs m" "threads m i \<noteq> PWait c v r"
  shows "undisturbed c v r rs t"
  using assms refs_of_children [of t m] by (auto simp: moves_def undisturbed_def)

lemma undisturbed_other: "undisturbed c v r rs m \<Longrightarrow> threads m i \<noteq> PWait c v r \<Longrightarrow> \<not> concerns c (threads m i)"
  by (auto simp: undisturbed_def)

lemma undisturbed_extends: "extends m t \<Longrightarrow> undisturbed c v r rs m \<Longrightarrow> undisturbed c v r rs t"
  using extends_refs [of m t] by (simp add: undisturbed_def extends_def)

lemma undisturbed_set_ref:
  assumes "undisturbed c v r rs m" "set_ref_step i j m = Some t"
  shows "undisturbed c v r rs t"
proof -
  obtain k q cs again where i: "threads m i = PGot k q cs again"
    using assms(2) by (auto simp: set_ref_step_def split: sup_pc.splits)
  with undisturbed_other [OF assms(1), of i] have "k \<noteq> c" "c \<notin> set cs"
    by auto
  with assms i show ?thesis
    by (auto simp: set_ref_step_def set_ref_def Let_def go_to_def undisturbed_def refs_of_def nth_list_update split: if_splits)
qed

lemma undisturbed_same:
  "undisturbed c v r rs m \<Longrightarrow> threads t = threads m \<Longrightarrow> children t = children m \<Longrightarrow> started_refs t = started_refs m \<Longrightarrow>
    undisturbed c v r rs t"
  using refs_of_children [of t m] by (simp add: undisturbed_def)

lemma not_waiting:
  assumes "threads m i = PWait c v r"
  shows "spec_start i res m = None" "mon_read i m = None" "mon_check i m = None" "terminated i m = None"
    "decide_step i now m = None" "call_stop_all i m = None" "sa_read i m = None" "sa_stop i err m = None"
  using assms by (simp_all add: sup_step_defs)

lemma undisturbed_step:
  assumes und: "undisturbed c v r rs m" and live: "\<not> inst_done m r" and one: "one_inv m" and l: "no_start l"
    and st: "sup_step l m = Some t"
  shows "undisturbed c v r rs t"
proof (cases l)
  case (SpecStart i res)
  with st have st: "spec_start i res m = Some t"
    by simp
  show ?thesis
    using one st
  proof (cases rule: spec_start_cases)
    case (got k cs again q)
    with undisturbed_other [OF und, of i] have "k \<noteq> c" "c \<notin> set cs"
      by auto
    with und got refs_of_children [of t m] show ?thesis
      by (auto simp: undisturbed_def go_to_def)
  next
    case moves
    moreover have "threads m i \<noteq> PWait c v r"
      using st not_waiting(1) by fastforce
    ultimately show ?thesis
      using und undisturbed_moves by blast
  qed
next
  case (MonCtx i)
  with st und show ?thesis
    using refs_of_children [of t m] by (auto simp: mon_ctx_def undisturbed_def go_to_def split: sup_pc.splits if_splits)
next
  case (MonDone i)
  with st live have "threads m i \<noteq> PWait c v r" "mon_done i m = Some t"
    by (auto simp: mon_done_def)
  with mon_done_moves [OF one] undisturbed_moves [OF _ und] show ?thesis
    by blast
qed (use assms in \<open>auto simp: no_restart_all [OF one] undisturbed_set_ref
    intro: undisturbed_extends [OF client_extends(1)] undisturbed_extends [OF client_extends(2)]
      undisturbed_extends [OF client_extends(3)] undisturbed_same [OF und]
      undisturbed_moves [OF mon_read_moves [OF one] und] undisturbed_moves [OF mon_check_moves und]
      undisturbed_moves [OF terminated_moves und] undisturbed_moves [OF decide_moves [OF one] und]
      undisturbed_moves [OF call_stop_all_moves und] undisturbed_moves [OF sa_read_moves und]
      undisturbed_moves [OF sa_stop_moves und] simp: not_waiting\<close>)


text \<open>The reference of a panicked child: nothing ends its goroutine but the context.\<close>

fun calm_label :: "nat \<Rightarrow> ('m, 'e) supervised_label \<Rightarrow> bool" where
  "calm_label r (SupDoes l) \<longleftrightarrow> no_start l"
| "calm_label r (InstanceDoes q l) \<longleftrightarrow> q = r \<longrightarrow> (\<forall>e. l \<noteq> CtxDone 0 e)"

definition panicked_inv :: "nat \<Rightarrow> 64 word \<Rightarrow> nat \<Rightarrow> nat list \<Rightarrow> ('m, 'e) supervised \<Rightarrow> bool" where
  "panicked_inv c v r rs s \<longleftrightarrow>
     supervised_inv s \<and> undisturbed c v r rs (monitors s) \<and> zombie (instances s r)"

lemma zombie_stays:
  assumes "zombie a" "quiet l" "StartNew_step l a = Some b"
  shows "zombie b"
  using zombie_step [of l a "{}" "{}"] assms by (auto simp: turned_away_def StartNew_step_def split: if_splits)

lemma panicked_inv_step:
  assumes "calm_label r l" "panicked_inv c v r rs s"
  shows "keeps (panicked_inv c v r rs) (supervised_step l s)"
proof (cases "supervised_step l s")
  case (Some t)
  have inv: "supervised_inv s" "undisturbed c v r rs (monitors s)" "zombie (instances s r)"
    using assms(2) by (simp_all add: panicked_inv_def)
  have "one_start l"
    using assms(1) by (cases l) auto
  with inv(1) Some have t: "supervised_inv t"
    using supervised_inv_step [THEN keepsD] by blast
  have one: "one_inv (monitors s)" and live: "\<not> inst_done (monitors s) r"
    using inv by (simp_all add: supervised_inv_def current_inv_def instances_inv_def zombie_def)
  have "undisturbed c v r rs (monitors t) \<and> zombie (instances t r)"
  proof (cases l)
    case (SupDoes k)
    with Some assms(1) undisturbed_step [OF inv(2) live one] inv(3) show ?thesis
      by (auto split: if_splits)
  next
    case (InstanceDoes q k)
    with Some obtain a where a: "instance_may q k s" "StartNew_step k (instances s q) = Some a"
      and t: "t = s\<lparr>instances := (instances s)(q := a), monitors := report q a (monitors s)\<rparr>"
      by (auto split: if_splits)
    have "zombie a" if "q = r"
      using zombie_stays [of "instances s q" k a] a inv(3) assms(1) InstanceDoes that instance_may_solo
      by (auto simp: quiet_def)
    with t inv show ?thesis
      by (auto simp: report_def intro: undisturbed_same)
  qed
  with t Some show ?thesis
    by (simp add: panicked_inv_def)
qed simp

interpretation panicked_machine: invariant_machine supervised_step "calm_label r" "panicked_inv c v r rs" for c v r rs
  by unfold_locales (rule panicked_inv_step)

section \<open>Samples\<close>

text \<open>One child under the default policy; thread 0 starts it as 10, thread 1 is its monitor.\<close>

definition one_child :: supervisor where
  "one_child = snd (Add ''a'' (Some 1) (NewSupervisor []))"

definition boots_as :: "nat \<Rightarrow> (nat, nat) supervised_label list" where
  "boots_as r = map (InstanceDoes r) (boot 7 @ [WaitOk 0])"

definition child_started :: "(nat, nat) supervised_label list" where
  "child_started = boots_as 10 @
     map SupDoes [SpecStart 0 (Inr 10), SetRef 0 1, SpecStart 0 (Inl CtxCanceled), MonRead 1]"

text \<open>The context of 10 is cancelled; the monitor has 20 started.\<close>

definition ends :: "(nat, nat) label list" where
  "ends = [CtxDone 0 CtxCanceled, LoopCtx 0, LoopHandleCtx 0 None, LoopExit 0]"

definition child_restarted :: "(nat, nat) supervised_label list" where
  "child_restarted = child_started @ map (InstanceDoes 10) ends @
     map SupDoes [MonDone 1, MonCheck 1, Terminated 1, Decide 1 0] @ boots_as 20 @
     map SupDoes [SpecStart 1 (Inr 20), SetRef 1 2]"

text \<open>10 gets a message, on which its handler panics.\<close>

definition panics :: "(nat, nat) label list" where
  "panics = [RecvCall 0 (Some 5), RecvSend 0, LoopTake 0, LoopRun 0, LoopReturn 0 [] (Some (PanicValue 3))]"

lemma report_report [simp]: "report r b (report r a m) = report r b m"
  by (simp add: report_def)

lemma instance_runs:
  assumes "runs StartNew_step ls (instances s r) = Some a" "ls \<noteq> []" "list_all (\<lambda>l. solo l \<and> (\<forall>k. l \<noteq> StopCAS k)) ls"
  shows "runs supervised_step (map (InstanceDoes r) ls) s =
    Some (s\<lparr>instances := (instances s)(r := a), monitors := report r a (monitors s)\<rparr>)"
  using assms
proof (induction ls arbitrary: s)
  case (Cons l ls)
  then obtain b where b: "StartNew_step l (instances s r) = Some b" "runs StartNew_step ls b = Some a"
    by (auto split: option.splits)
  have "instance_may r l s"
    using Cons.prems(3) by (cases l) auto
  with b Cons.prems Cons.IH [of "s\<lparr>instances := (instances s)(r := b), monitors := report r b (monitors s)\<rparr>"] show ?case
    by (cases "ls = []") (simp_all add: fun_upd_def cong: if_cong)
qed simp

definition ready_actor :: "(nat, nat) actor_sys" where
  "ready_actor = (booted sample_actor 7)\<lparr>waits := (\<lambda>_. WIdle)(0 := WRet None)\<rparr>"

lemma boots_new: "runs StartNew_step (boot 7 @ [WaitOk 0]) (sys_of sample_actor) = Some ready_actor"
  by (simp add: ready_actor_def boot_def booted_def StartNew_step_def run_simps sample_actor_def default_actor_def)

lemma boots_as_runs:
  assumes "instances s r = sys_of sample_actor"
  shows "runs supervised_step (boots_as r) s =
    Some (s\<lparr>instances := (instances s)(r := ready_actor), monitors := report r ready_actor (monitors s)\<rparr>)"
  unfolding boots_as_def
proof (rule instance_runs)
  show "runs StartNew_step (boot 7 @ [WaitOk 0]) (instances s r) = Some ready_actor"
    by (simp only: assms boots_new)
qed (simp_all add: boot_def)

lemma one_child_eq:
  "one_child =
     \<lparr>policy = \<lparr>Strategy = OneForOne, MaxRestarts = 3, WithinDuration = 5 * second\<rparr>,
      children = [\<lparr>c_name = ''a'', c_spec = 1, c_ref = None, version = 0\<rparr>], names = [(''a'', 0)], restarts = [],
      sup_stopped = False, watchers = [], restartErrorHandlers = [], stopTimeout = 5 * second\<rparr>"
  by (simp add: one_child_def Add_def NewSupervisor_def DefaultRestartPolicy_def)

lemma ready_fields:
  "StartNew_out ready_actor = Some OutActor" "done_closed ready_actor = False" "State ready_actor = state_code Started"
  by (simp_all add: ready_actor_def StartNew_out_def booted_def sys_of_def goactor.defs State_def sample_actor_def default_actor_def)

lemma child_runs:
  "\<exists>s. runs supervised_step (SupDoes (CallStartAll 0) # child_started) (supervised_new one_child (\<lambda>_. sample_actor)) = Some s \<and>
     threads (monitors s) = (\<lambda>_. PIdle)(0 := PRet None, 1 := PWait 0 1 10) \<and> instances s 10 = ready_actor \<and>
     instances s 20 = sys_of sample_actor \<and> started_refs (monitors s) = [(0, 10)] \<and>
     children (monitors s) = [\<lparr>c_name = ''a'', c_spec = 1, c_ref = Some 10, version = 1\<rparr>] \<and>
     policy (monitors s) = DefaultRestartPolicy \<and> restarts (monitors s) = [] \<and> \<not> sup_stopped (monitors s)"
  unfolding child_started_def runs.simps runs_append
  by (simp add: supervised_new_def one_child_eq run_defs boots_as_runs ready_fields report_def DefaultRestartPolicy_def fun_upd_twist)

lemma ends_runs: "\<exists>a. runs StartNew_step ends ready_actor = Some a \<and> done_closed a \<and> State a = state_code Canceled"
  by (simp add: ends_def ready_actor_def StartNew_step_def run_simps booted_def sample_actor_def default_actor_def State_def)

lemma restarted_runs:
  "\<exists>s. runs supervised_step (SupDoes (CallStartAll 0) # child_restarted) (supervised_new one_child (\<lambda>_. sample_actor)) = Some s \<and>
     started_refs (monitors s) = [(0, 10), (0, 20)]"
proof -
  obtain s where s: "runs supervised_step (SupDoes (CallStartAll 0) # child_started) (supervised_new one_child (\<lambda>_. sample_actor)) = Some s"
    "threads (monitors s) = (\<lambda>_. PIdle)(0 := PRet None, 1 := PWait 0 1 10)" "instances s 10 = ready_actor" "instances s 20 = sys_of sample_actor"
    "started_refs (monitors s) = [(0, 10)]" "children (monitors s) = [\<lparr>c_name = ''a'', c_spec = 1, c_ref = Some 10, version = 1\<rparr>]"
    "policy (monitors s) = DefaultRestartPolicy" "restarts (monitors s) = []" "\<not> sup_stopped (monitors s)"
    using child_runs by blast
  obtain a where a: "runs StartNew_step ends ready_actor = Some a" "done_closed a" "State a = state_code Canceled"
    using ends_runs by blast
  have "runs supervised_step (map (InstanceDoes 10) ends) s =
    Some (s\<lparr>instances := (instances s)(10 := a), monitors := report 10 a (monitors s)\<rparr>)"
    by (rule instance_runs) (simp_all add: s(3) a(1), simp_all add: ends_def)
  with s a show ?thesis
    unfolding child_restarted_def append_Cons [symmetric] runs_append
    by (simp add: boots_as_runs ready_fields report_def sup_step_defs go_to_def set_ref_def decide_def account_def
        DefaultRestartPolicy_def Let_def)
qed

lemma panics_runs:
  "\<exists>a. runs StartNew_step panics ready_actor = Some a \<and> loops a 0 = LRecover (PanicValue 3) \<and> start_ctx a 0 = None \<and>
     stops a = (\<lambda>_. TIdle) \<and> (\<exists>b. StartNew_step (LoopRecover 0 None) a = Some b \<and>
       (\<exists>c. runs StartNew_step [StopCAS 2, StopFail 2] b = Some c))"
  by (simp add: panics_def ready_actor_def StartNew_step_def run_simps booted_def sample_actor_def default_actor_def make_chan_def
      Current_def newBehaviorStack_def)

section \<open>Properties\<close>

text \<open>
  C5: A supervisor of actors, under OneForOne: a child never has two goroutines alive. Of two
  actors that the spec of one child has started, the goroutine of at least one has ended, whatever
  the actors, their users, the supervisor and the scheduler do.
\<close>

theorem one_for_one_single_goroutine:
  assumes "Strategy (policy sv) = OneForOne" "\<forall>c\<in>set (children sv). c_ref c = None" "\<forall>r. fresh_actor (gas r)"
    "list_all one_start ls" "runs supervised_step (SupDoes (CallStartAll k) # ls) (supervised_new sv gas) = Some t"
    "(c, r) \<in> set (started_refs (monitors t))" "(c, r') \<in> set (started_refs (monitors t))" "r \<noteq> r'"
  shows "loops (instances t r) 0 = LEnded \<or> loops (instances t r') 0 = LEnded"
proof -
  have inv: "supervised_inv t"
    using supervised_run [OF assms(1-5)] .
  then have "inst_done (monitors t) r \<or> inst_done (monitors t) r'"
    using one_inv_single [OF _ assms(6,7)] assms(8) by (auto simp: supervised_inv_def current_inv_def)
  moreover have "loops (instances t q) 0 = LEnded" if "inst_done (monitors t) q" for q
    using inv that by (cases "loops (instances t q) 0")
      (auto simp: supervised_inv_def instances_inv_def actor_inv_def life_inv_def life_ok_def dest!: spec [of _ q])
  ultimately show ?thesis
    by blast
qed

theorem one_for_one_single_goroutine_witness:
  "\<exists>t. runs supervised_step (SupDoes (CallStartAll 0) # child_restarted) (supervised_new one_child (\<lambda>_. sample_actor)) = Some t \<and>
     started_refs (monitors t) = [(0, 10), (0, 20)] \<and>
     (loops (instances t 10) 0 = LEnded \<or> loops (instances t 20) 0 = LEnded)"
proof -
  obtain t where t: "runs supervised_step (SupDoes (CallStartAll 0) # child_restarted)
      (supervised_new one_child (\<lambda>_. sample_actor)) = Some t" "started_refs (monitors t) = [(0, 10), (0, 20)]"
    using restarted_runs by blast
  have "loops (instances t 10) 0 = LEnded \<or> loops (instances t 20) 0 = LEnded"
    by (rule one_for_one_single_goroutine [OF _ _ _ _ t(1), of 0])
      (simp_all add: t(2) one_child_eq sample_fresh child_restarted_def child_started_def boots_as_def boot_def ends_def)
  with t show ?thesis
    by blast
qed

text \<open>
  C40: Under OneForOne and one StartAll, a child whose handler panicked while no Stop of its actor was past the compare-and-swap
  is never restarted: as long as the context of its actor is not done the actor stays Panicked with its goroutine
  alive, its reference stays the child's, no other instance of the child is started, and whatever
  goroutine of the supervisor still has to do with the child is a monitor that waits on this same actor; and this
  although the supervisor is to restart what panics. (Under AllForOne the failure of a sibling restarts it.)
\<close>

theorem panicked_child_not_restarted:
  assumes "Strategy (policy sv) = OneForOne" "\<forall>c\<in>set (children sv). c_ref c = None" "\<forall>r. fresh_actor (gas r)"
    "list_all one_start ls" "runs supervised_step (SupDoes (CallStartAll k) # ls) (supervised_new sv gas) = Some s"
    "threads (monitors s) i = PWait c v r" "loops (instances s r) 0 = LRecover p" "start_ctx (instances s r) 0 = None"
    "\<forall>j. \<not> past_cas (stops (instances s r) j)" "supervised_step (InstanceDoes r (LoopRecover 0 None)) s = Some s'"
    "list_all (calm_label r) ks" "runs supervised_step ks s' = Some t"
  shows "State (instances t r) = state_code Panicked \<and> loops (instances t r) 0 \<noteq> LEnded \<and>
    refs_of (monitors t) c = Some r \<and>
    {q. (c, q) \<in> set (started_refs (monitors t))} = {q. (c, q) \<in> set (started_refs (monitors s))} \<and>
    (\<forall>j. concerns c (threads (monitors t) j) \<longrightarrow> threads (monitors t) j = PWait c v r)"
proof -
  have inv: "supervised_inv s"
    using supervised_run [OF assms(1-5)] .
  then have one: "one_ok (threads (monitors s)) (refs_of (monitors s)) (started_refs (monitors s)) (inst_done (monitors s))"
    and act: "actor_inv (instances s r)"
    by (simp_all add: supervised_inv_def current_inv_def one_inv_def instances_inv_def)
  define rs where "rs = map snd (filter (\<lambda>x. fst x = c) (started_refs (monitors s)))"
  have "threads (monitors s) j = PWait c v r" if "concerns c (threads (monitors s) j)" for j
    using one_okD(1) [OF one that, of i] assms(6) by simp
  moreover have "refs_of (monitors s) c = Some r"
    using one_okD(2) [OF one, of i] assms(6) by simp
  ultimately have und: "undisturbed c v r rs (monitors s)"
    by (simp add: undisturbed_def rs_def)
  obtain a where a: "StartNew_step (LoopRecover 0 None) (instances s r) = Some a"
    and s': "s' = s\<lparr>instances := (instances s)(r := a), monitors := report r a (monitors s)\<rparr>"
    using assms(10) by (auto split: if_splits)
  have "zombie (instances s' r)"
    using panic_makes_zombie [OF act assms(7-9), of a] a by (simp add: s' StartNew_step_def)
  moreover have "supervised_inv s'"
    using supervised_inv_step [OF _ inv, THEN keepsD, OF _ assms(10)] by simp
  moreover have "undisturbed c v r rs (monitors s')"
    by (rule undisturbed_same [OF und]) (simp_all add: s' report_def)
  ultimately have "panicked_inv c v r rs s'"
    by (simp add: panicked_inv_def)
  from panicked_machine.runs_keeps [OF this assms(11,12)]
  have t: "undisturbed c v r rs (monitors t)" "zombie (instances t r)"
    by (simp_all add: panicked_inv_def)
  have same: "{q. (c, q) \<in> set (started_refs m)} = set (map snd (filter (\<lambda>x. fst x = c) (started_refs m)))" for m
    by force
  from t show ?thesis
    unfolding same by (auto simp: undisturbed_def zombie_def State_def rs_def)
qed

theorem panicked_child_not_restarted_witness:
  "\<exists>t. runs supervised_step (SupDoes (CallStartAll 0) # child_started @ map (InstanceDoes 10) panics @
       [InstanceDoes 10 (LoopRecover 0 None), InstanceDoes 10 (StopCAS 2), InstanceDoes 10 (StopFail 2)])
       (supervised_new one_child (\<lambda>_. sample_actor)) = Some t \<and>
     State (instances t 10) = 6 \<and> refs_of (monitors t) 0 = Some 10"
proof -
  obtain s where s: "runs supervised_step (SupDoes (CallStartAll 0) # child_started) (supervised_new one_child (\<lambda>_. sample_actor)) = Some s"
    "threads (monitors s) 1 = PWait 0 1 10" "instances s 10 = ready_actor"
    using child_runs by force
  obtain a b c where a: "runs StartNew_step panics ready_actor = Some a" "loops a 0 = LRecover (PanicValue 3)"
      "start_ctx a 0 = None" "stops a = (\<lambda>_. TIdle)"
    and b: "StartNew_step (LoopRecover 0 None) a = Some b" and c: "runs StartNew_step [StopCAS 2, StopFail 2] b = Some c"
    using panics_runs by blast
  let ?s = "\<lambda>a. s\<lparr>instances := (instances s)(10 := a), monitors := report 10 a (monitors s)\<rparr>"
  have "runs supervised_step (map (InstanceDoes 10) panics) s = Some (?s a)"
    by (rule instance_runs) (simp_all add: s(3) a(1), simp_all add: panics_def)
  with s(1) have run: "runs supervised_step (SupDoes (CallStartAll 0) # child_started @ map (InstanceDoes 10) panics)
      (supervised_new one_child (\<lambda>_. sample_actor)) = Some (?s a)"
    by (simp only: append_Cons [symmetric] runs_append option.case)
  have recover: "supervised_step (InstanceDoes 10 (LoopRecover 0 None)) (?s a) = Some (?s b)"
    using b by simp
  have stop: "runs supervised_step [InstanceDoes 10 (StopCAS 2), InstanceDoes 10 (StopFail 2)] (?s b) = Some (?s c)"
    using c by (auto split: option.splits)
  have "State (instances (?s c) 10) = state_code Panicked \<and> refs_of (monitors (?s c)) 0 = Some 10"
    using panicked_child_not_restarted [OF _ _ _ _ run _ _ _ _ recover _ stop, of 1 0 1 "PanicValue 3"] a s(2)
    by (auto simp: report_def one_child_eq sample_fresh child_started_def boots_as_def boot_def panics_def refs_of_def split: if_splits)
  moreover have "runs supervised_step (SupDoes (CallStartAll 0) # child_started @ map (InstanceDoes 10) panics @
      [InstanceDoes 10 (LoopRecover 0 None), InstanceDoes 10 (StopCAS 2), InstanceDoes 10 (StopFail 2)])
      (supervised_new one_child (\<lambda>_. sample_actor)) = Some (?s c)"
    using runs_append [of supervised_step "SupDoes (CallStartAll 0) # child_started @ map (InstanceDoes 10) panics"] run recover stop
    by (simp del: supervised_step.simps)
  ultimately show ?thesis
    by auto
qed

end
