(* ===== verification/Supervisor_All.thy ===== *)
theory Supervisor_All
  imports Supervisor_Restart
begin

text \<open>
  restartAll with nobody interfering (\<open>pkg/supervision/supervisor.go\<close>): the steps of the thread that
  found a child failed under AllForOne, run to the end, on every outcome of the Stop and Start calls.
\<close>

section \<open>Stopping all children\<close>

text \<open>
  The steps of the first loop for the children \<open>cs\<close> of \<open>chs\<close>, of the second loop, and what they
  report; \<open>es c\<close> is what Stop of the child \<open>c\<close> returns, \<open>res c\<close> what its spec gives and \<open>js c\<close> the
  thread of its new monitor.
\<close>

primrec stop_labels :: "nat \<Rightarrow> (nat \<Rightarrow> gerror option) \<Rightarrow> child list \<Rightarrow> nat list \<Rightarrow> sup_label list" where
  "stop_labels i es chs [] = [Bump i]"
| "stop_labels i es chs (c # cs) =
     (if c_ref (chs ! c) = None then [Bump i] else [Bump i, StopRef i (es c)]) @ stop_labels i es chs cs"

primrec start_labels :: "nat \<Rightarrow> (nat \<Rightarrow> gerror + nat) \<Rightarrow> (nat \<Rightarrow> nat) \<Rightarrow> nat list \<Rightarrow> sup_label list" where
  "start_labels i res js [] = [SpecStart i (Inl CtxCanceled)]"
| "start_labels i res js (c # cs) =
     SpecStart i (res c) # (case res c of Inl e \<Rightarrow> [] | Inr r \<Rightarrow> [SetRef i (js c)]) @ start_labels i res js cs"

definition reports :: "nat list \<Rightarrow> string \<Rightarrow> gerror option \<Rightarrow> (nat \<times> string \<times> gerror) list" where
  "reports hs nm err = (case err of None \<Rightarrow> [] | Some e \<Rightarrow> map (\<lambda>h. (h, nm, e)) hs)"

definition stop_reports :: "nat list \<Rightarrow> (nat \<Rightarrow> gerror option) \<Rightarrow> child list \<Rightarrow> nat \<Rightarrow> (nat \<times> string \<times> gerror) list" where
  "stop_reports hs es chs c = (if c_ref (chs ! c) = None then [] else reports hs (c_name (chs ! c)) (es c))"

definition start_reports :: "nat list \<Rightarrow> (nat \<Rightarrow> gerror + nat) \<Rightarrow> child list \<Rightarrow> nat \<Rightarrow> (nat \<times> string \<times> gerror) list" where
  "start_reports hs res chs c =
     (case res c of Inl e \<Rightarrow> reports hs (c_name (chs ! c)) (Some e) | Inr r \<Rightarrow> [])"

definition bumped :: "child \<Rightarrow> child" where
  "bumped c = c\<lparr>version := version c + 1\<rparr>"

lemma notify_reports:
  "notifyRestartError c err s =
     s\<lparr>error_calls := error_calls s @ reports (restartErrorHandlers s) (c_name (children s ! c)) err\<rparr>"
  by (simp add: notifyRestartError_def reports_def split: option.split)

text \<open>\<open>xs\<close> with \<open>f c\<close> applied at each index \<open>c\<close> of \<open>cs\<close>.\<close>

definition map_at :: "(nat \<Rightarrow> 'a \<Rightarrow> 'a) \<Rightarrow> nat list \<Rightarrow> 'a list \<Rightarrow> 'a list" where
  "map_at f cs xs = fold (\<lambda>c xs. xs[c := f c (xs ! c)]) cs xs"

lemma map_at_simps [simp]:
  "map_at f [] xs = xs"
  "map_at f (c # cs) xs = map_at f cs (xs[c := f c (xs ! c)])"
  by (simp_all add: map_at_def)

lemma length_map_at [simp]: "length (map_at f cs xs) = length xs"
  by (induction cs arbitrary: xs) auto

lemma nth_map_at:
  "distinct cs \<Longrightarrow> k < length xs \<Longrightarrow> map_at f cs xs ! k = (if k \<in> set cs then f k (xs ! k) else xs ! k)"
proof (induction cs arbitrary: xs)
  case (Cons c cs)
  then show ?case
    by (cases "k = c") auto
qed simp

lemma stop_labels_run:
  assumes "threads s i = PBump cs all" "distinct cs" "set cs \<subseteq> {..<length (children s)}"
    "\<forall>c\<in>set cs. children s ! c = chs ! c"
  shows "runs sup_step (stop_labels i es chs cs) s =
    Some (go_to i (PStart all True) (s\<lparr>children := map_at (\<lambda>_. bumped) cs (children s),
      stopped_refs := stopped_refs s @ List.map_filter (\<lambda>c. c_ref (chs ! c)) cs,
      error_calls := error_calls s @ concat (map (stop_reports (restartErrorHandlers s) es chs) cs)\<rparr>))"
  using assms
proof (induction cs arbitrary: s)
  case Nil
  then show ?case
    by (simp add: bump_step_def map_filter_simps)
next
  case (Cons c cs)
  define t where "t = go_to i (PBump cs all) (s\<lparr>children := (children s)[c := bumped (children s ! c)],
    stopped_refs := stopped_refs s @ (case c_ref (chs ! c) of None \<Rightarrow> [] | Some r \<Rightarrow> [r]),
    error_calls := error_calls s @ stop_reports (restartErrorHandlers s) es chs c\<rparr>)"
  have "runs sup_step (if c_ref (chs ! c) = None then [Bump i] else [Bump i, StopRef i (es c)]) s = Some t"
    using Cons.prems
    by (auto simp: bump_step_def bump_def stop_ref_def go_to_def notify_reports stop_reports_def t_def bumped_def Let_def
        split: option.split)
  moreover have "runs sup_step (stop_labels i es chs cs) t =
    Some (go_to i (PStart all True) (t\<lparr>children := map_at (\<lambda>_. bumped) cs (children t),
      stopped_refs := stopped_refs t @ List.map_filter (\<lambda>c. c_ref (chs ! c)) cs,
      error_calls := error_calls t @ concat (map (stop_reports (restartErrorHandlers t) es chs) cs)\<rparr>))"
    using Cons.prems by (intro Cons.IH) (auto simp: t_def go_to_def nth_list_update)
  ultimately show ?case
    by (simp add: runs_append) (simp add: t_def go_to_def map_filter_simps split: option.split)
qed


lemma map_filter_nth: "List.map_filter (\<lambda>c. f (xs ! c)) [0..<length xs] = List.map_filter f xs"
proof -
  have "List.map_filter (\<lambda>c. f (g c)) ys = List.map_filter f (map g ys)" for g and ys :: "nat list"
    by (induction ys) (simp_all split: option.split)
  then show ?thesis
    by (metis map_nth)
qed

lemma map_at_all: "map_at f [0..<length xs] xs = map (\<lambda>k. f k (xs ! k)) [0..<length xs]"
  by (rule nth_equalityI) (simp_all add: nth_map_at)

text \<open>The whole stopping phase, from the decision on: what it leaves of the supervisor.\<close>

lemma stop_phase:
  assumes "threads s i = PDecide c st" "st \<noteq> state_code Done" "\<not> sup_stopped s" "Strategy (policy s) = AllForOne"
    "account (policy s) now (restarts s) = (True, rs)" "n = length (children s)"
  obtains t where "runs sup_step (Decide i now # AllSnap i # stop_labels i es (children s) [0..<n]) s = Some t"
    "threads t = (threads s)(i := PStart [0..<n] True)" "restarts t = rs"
    "children t = map (\<lambda>k. bumped (children s ! k)) [0..<n]" "started_refs t = started_refs s"
    "stopped_refs t = stopped_refs s @ List.map_filter c_ref (children s)" "restartErrorHandlers t = restartErrorHandlers s"
    "error_calls t = error_calls s @ concat (map (stop_reports (restartErrorHandlers s) es (children s)) [0..<n])"
proof -
  let ?cs = "[0..<n]"
  define s1 where "s1 = go_to i (PBump ?cs ?cs) (s\<lparr>restarts := rs\<rparr>)"
  have "runs sup_step [Decide i now, AllSnap i] s = Some s1"
    using assms by (simp add: decide_step_def decide_def all_snap_def go_to_def s1_def)
  moreover have "List.map_filter (\<lambda>c. c_ref (children s ! c)) ?cs = List.map_filter c_ref (children s)"
    by (simp add: assms(6) map_filter_nth)
  then have "runs sup_step (stop_labels i es (children s) ?cs) s1 =
    Some (go_to i (PStart ?cs True) (s1\<lparr>children := map (\<lambda>k. bumped (children s ! k)) ?cs,
      stopped_refs := stopped_refs s @ List.map_filter c_ref (children s),
      error_calls := error_calls s @ concat (map (stop_reports (restartErrorHandlers s) es (children s)) ?cs)\<rparr>))"
    (is "_ = Some ?t")
    using stop_labels_run [of s1 i ?cs ?cs "children s" es] assms(6)
    by (simp add: s1_def go_to_def map_at_all subset_eq)
  ultimately have "runs sup_step ([Decide i now, AllSnap i] @ stop_labels i es (children s) ?cs) s = Some ?t"
    by (simp only: runs_append option.case)
  then have "runs sup_step (Decide i now # AllSnap i # stop_labels i es (children s) ?cs) s = Some ?t"
    by (simp only: append_Cons append_Nil)
  then show ?thesis
    by (rule that) (simp_all add: s1_def go_to_def)
qed


section \<open>Starting all children\<close>

definition restarted :: "(nat \<Rightarrow> gerror + nat) \<Rightarrow> nat \<Rightarrow> child \<Rightarrow> child" where
  "restarted res k c = (case res k of Inl e \<Rightarrow> c | Inr r \<Rightarrow> c\<lparr>c_ref := Some r, version := version c + 1\<rparr>)"

definition gives :: "(nat \<Rightarrow> gerror + nat) \<Rightarrow> nat \<Rightarrow> (nat \<times> nat) list" where
  "gives res k = (case res k of Inl e \<Rightarrow> [] | Inr r \<Rightarrow> [(k, r)])"

text \<open>The threads of the new monitors, on the children as they are before.\<close>

definition monitored ::
  "(nat \<Rightarrow> gerror + nat) \<Rightarrow> (nat \<Rightarrow> nat) \<Rightarrow> child list \<Rightarrow> nat list \<Rightarrow> (nat \<Rightarrow> sup_pc) \<Rightarrow> nat \<Rightarrow> sup_pc" where
  "monitored res js chs cs f =
     fold (\<lambda>c f. case res c of Inl e \<Rightarrow> f | Inr r \<Rightarrow> f(js c := PMon c (version (chs ! c) + 1))) cs f"

lemma monitored_simps [simp]:
  "monitored res js chs [] f = f"
  "monitored res js chs (c # cs) f =
     monitored res js chs cs (case res c of Inl e \<Rightarrow> f | Inr r \<Rightarrow> f(js c := PMon c (version (chs ! c) + 1)))"
  by (simp_all add: monitored_def)

lemma monitored_other: "j \<notin> js ` set cs \<Longrightarrow> monitored res js chs cs f j = f j"
  by (induction cs arbitrary: f) (auto split: sum.split)

lemma monitored_upd:
  "i \<notin> js ` set cs \<Longrightarrow> monitored res js chs cs (f(i := x)) = (monitored res js chs cs f)(i := x)"
proof (induction cs arbitrary: f)
  case (Cons c cs)
  then have ne: "i \<noteq> js c" "i \<notin> js ` set cs"
    by auto
  have upd: "monitored res js chs cs ((f(i := x))(js c := y)) = (monitored res js chs cs (f(js c := y)))(i := x)" for y
    using Cons.IH [OF ne(2), of "f(js c := y)"] by (simp only: fun_upd_twist [OF ne(1)])
  show ?case
    by (cases "res c") (simp_all only: monitored_simps sum.case upd Cons.IH [OF ne(2)])
qed simp

lemma monitored_at:
  assumes "distinct cs" "inj_on js (set cs)" "c \<in> set cs"
  shows "monitored res js chs cs f (js c) =
    (case res c of Inl e \<Rightarrow> f (js c) | Inr r \<Rightarrow> PMon c (version (chs ! c) + 1))"
  using assms
proof (induction cs arbitrary: f)
  case (Cons k cs)
  show ?case
  proof (cases "k = c")
    case True
    with Cons.prems have "js c \<notin> js ` set cs"
      by auto
    with True show ?thesis
      by (simp add: monitored_other split: sum.split)
  next
    case False
    with Cons.prems have "c \<in> set cs" "js c \<noteq> js k"
      by (auto simp: inj_on_def)
    with Cons show ?thesis
      by (auto split: sum.split)
  qed
qed simp

text \<open>The steps of one child: its spec answers, and the new reference is stored and its monitor started.\<close>

lemma start_one_run:
  assumes "threads s i = PStart (c # cs) True" "c < length (children s)" "children s ! c = chs ! c"
    "threads s (js c) = PIdle" "\<And>r. res c = Inr r \<Longrightarrow> r \<notin> snd ` set (started_refs s)"
  shows "runs sup_step (SpecStart i (res c) # (case res c of Inl e \<Rightarrow> [] | Inr r \<Rightarrow> [SetRef i (js c)])) s =
    Some (s\<lparr>threads := (monitored res js chs [c] (threads s))(i := PStart cs True),
      children := (children s)[c := restarted res c (children s ! c)], started_refs := started_refs s @ gives res c,
      error_calls := error_calls s @ start_reports (restartErrorHandlers s) res chs c\<rparr>)"
proof (cases "res c")
  case (Inl e)
  have "(children s)[c := chs ! c] = children s"
    using assms(3) list_update_id [of "children s" c] by simp
  with Inl assms(1-3) show ?thesis
    by (simp add: spec_start_def go_to_def notify_reports start_reports_def restarted_def gives_def)
next
  case (Inr r)
  have "js c \<noteq> i"
    using assms(1,4) by auto
  moreover from this have "(threads s)(i := x, js c := y, i := z) = (threads s)(js c := y, i := z)" for x y z
    by (simp add: fun_upd_twist)
  ultimately show ?thesis
    using Inr assms(1-4) assms(5) [OF Inr]
    by (simp add: spec_start_def set_ref_step_def set_ref_def go_to_def start_reports_def restarted_def gives_def Let_def)
qed

lemma start_labels_run:
  assumes "threads s i = PStart cs True" "distinct cs" "set cs \<subseteq> {..<length (children s)}"
    "\<forall>c\<in>set cs. children s ! c = chs ! c" "inj_on js (set cs)" "\<forall>c\<in>set cs. threads s (js c) = PIdle"
    "distinct (map snd (started_refs s @ concat (map (gives res) cs)))"
  shows "runs sup_step (start_labels i res js cs) s =
    Some (s\<lparr>threads := (monitored res js chs cs (threads s))(i := PRet None), children := map_at (restarted res) cs (children s),
      started_refs := started_refs s @ concat (map (gives res) cs),
      error_calls := error_calls s @ concat (map (start_reports (restartErrorHandlers s) res chs) cs)\<rparr>)"
  using assms
proof (induction cs arbitrary: s)
  case Nil
  have "spec_start i (Inl CtxCanceled) s = Some (s\<lparr>threads := (threads s)(i := PRet None)\<rparr>)"
    using Nil.prems(1) by (simp add: spec_start_def go_to_def)
  then show ?case
    by (simp add: fun_upd_def)
next
  case (Cons c cs)
  define t where "t = s\<lparr>threads := (monitored res js chs [c] (threads s))(i := PStart cs True),
    children := (children s)[c := restarted res c (children s ! c)], started_refs := started_refs s @ gives res c,
    error_calls := error_calls s @ start_reports (restartErrorHandlers s) res chs c\<rparr>"
  have i: "i \<notin> js ` set (c # cs)"
    using Cons.prems(1,6) by auto
  have "runs sup_step (SpecStart i (res c) # (case res c of Inl e \<Rightarrow> [] | Inr r \<Rightarrow> [SetRef i (js c)])) s = Some t"
    unfolding t_def using Cons.prems by (intro start_one_run) (auto simp: gives_def)
  moreover have "runs sup_step (start_labels i res js cs) t =
    Some (t\<lparr>threads := (monitored res js chs cs (threads t))(i := PRet None), children := map_at (restarted res) cs (children t),
      started_refs := started_refs t @ concat (map (gives res) cs),
      error_calls := error_calls t @ concat (map (start_reports (restartErrorHandlers t) res chs) cs)\<rparr>)"
    using Cons.prems i by (intro Cons.IH) (auto simp: t_def nth_list_update gives_def inj_on_def split: sum.splits)
  moreover have "(monitored res js chs cs (threads t))(i := PRet None) = (monitored res js chs (c # cs) (threads s))(i := PRet None)"
    using i by (simp add: t_def monitored_upd)
  ultimately have "runs sup_step (start_labels i res js (c # cs)) s =
    Some (t\<lparr>threads := (monitored res js chs (c # cs) (threads s))(i := PRet None), children := map_at (restarted res) cs (children t),
      started_refs := started_refs t @ concat (map (gives res) cs),
      error_calls := error_calls t @ concat (map (start_reports (restartErrorHandlers t) res chs) cs)\<rparr>)"
    by (simp only: start_labels.simps append_Cons [symmetric] runs_append option.case)
  then show ?case
    by (simp add: t_def fun_upd_def)
qed


section \<open>Properties\<close>

text \<open>The child \<open>c\<close>, with the version bumped, and started again if its spec gave a reference.\<close>

definition renewed :: "(nat \<Rightarrow> gerror + nat) \<Rightarrow> nat \<Rightarrow> child \<Rightarrow> child" where
  "renewed res k c =
     (case res k of
        Inl e \<Rightarrow> c\<lparr>version := version c + 1\<rparr>
      | Inr r \<Rightarrow> c\<lparr>c_ref := Some r, version := version c + 2\<rparr>)"

text \<open>
  C19: Under AllForOne a failure restarts every child, in order: the thread that decided it, nobody
  interfering, returns after it has stopped every child that has a reference, each once, and then
  asked every spec for a new instance, whatever the Stop calls return; a child whose spec gave one has
  it as its reference, watched by a new monitor for its version, which is two higher than before so
  that every older monitor is stale; each error is reported to every handler, and a child whose spec
  failed keeps the reference that was stopped.
\<close>

theorem all_for_one_restarts_all:
  assumes "threads s i = PDecide c st" "st \<noteq> state_code Done" "\<not> sup_stopped s" "Strategy (policy s) = AllForOne"
    "account (policy s) now (restarts s) = (True, rs)" "n = length (children s)" "inj_on js {..<n}"
    "list_all (\<lambda>k. threads s (js k) = PIdle) [0..<n]"
    "distinct (map snd (started_refs s @ concat (map (gives res) [0..<n])))"
  shows "\<exists>t. runs sup_step (Decide i now # AllSnap i # stop_labels i es (children s) [0..<n] @ start_labels i res js [0..<n]) s
      = Some t \<and>
    threads t i = PRet None \<and> restarts t = rs \<and>
    children t = map (\<lambda>k. renewed res k (children s ! k)) [0..<n] \<and>
    stopped_refs t = stopped_refs s @ List.map_filter c_ref (children s) \<and>
    started_refs t = started_refs s @ concat (map (gives res) [0..<n]) \<and>
    error_calls t = error_calls s @ concat (map (stop_reports (restartErrorHandlers s) es (children s)) [0..<n]) @
      concat (map (start_reports (restartErrorHandlers s) res (children s)) [0..<n]) \<and>
    map (\<lambda>k. threads t (js k)) [0..<n] =
      map (\<lambda>k. case res k of Inl e \<Rightarrow> PIdle | Inr r \<Rightarrow> PMon k (version (children t ! k))) [0..<n]"
proof -
  let ?cs = "[0..<n]" and ?hs = "restartErrorHandlers s"
  obtain s2 where s2: "runs sup_step (Decide i now # AllSnap i # stop_labels i es (children s) ?cs) s = Some s2"
    "threads s2 = (threads s)(i := PStart ?cs True)" "restarts s2 = rs"
    "children s2 = map (\<lambda>k. bumped (children s ! k)) ?cs" "started_refs s2 = started_refs s"
    "stopped_refs s2 = stopped_refs s @ List.map_filter c_ref (children s)" "restartErrorHandlers s2 = ?hs"
    "error_calls s2 = error_calls s @ concat (map (stop_reports ?hs es (children s)) ?cs)"
    using assms(1-6) by (rule stop_phase)
  define t where "t = s2\<lparr>threads := (monitored res js (children s2) ?cs (threads s2))(i := PRet None),
    children := map_at (restarted res) ?cs (children s2), started_refs := started_refs s2 @ concat (map (gives res) ?cs),
    error_calls := error_calls s2 @ concat (map (start_reports (restartErrorHandlers s2) res (children s2)) ?cs)\<rparr>"
  have js: "js k \<noteq> i \<and> threads s (js k) = PIdle" if "k < n" for k
    using assms(1,8) that by (auto simp: list_all_iff)
  have inj: "inj_on js (set ?cs)"
    using assms(7) by (simp add: lessThan_atLeast0)
  have "runs sup_step (start_labels i res js ?cs) s2 = Some t"
    unfolding t_def using assms(9) js inj by (intro start_labels_run) (auto simp: s2)
  then have "runs sup_step ((Decide i now # AllSnap i # stop_labels i es (children s) ?cs) @ start_labels i res js ?cs) s = Some t"
    by (simp only: runs_append s2(1) option.case)
  moreover have ch_t: "children t = map (\<lambda>k. renewed res k (children s ! k)) ?cs"
    by (rule nth_equalityI)
      (auto simp: t_def nth_map_at s2(4) restarted_def renewed_def bumped_def split: sum.split)
  moreover have "threads t (js k) = (case res k of Inl e \<Rightarrow> PIdle | Inr r \<Rightarrow> PMon k (version (children t ! k)))"
    if k: "k < n" for k
    using monitored_at [of ?cs js k res "children s2" "threads s2"] k inj js [OF k]
    by (auto simp: s2(2,4) t_def nth_map_at restarted_def bumped_def split: sum.split)
  moreover have "map (start_reports ?hs res (children s2)) ?cs = map (start_reports ?hs res (children s)) ?cs"
    by (auto simp: start_reports_def s2(4) bumped_def split: sum.split)
  then have "error_calls t = error_calls s @ concat (map (stop_reports ?hs es (children s)) ?cs) @
      concat (map (start_reports ?hs res (children s)) ?cs)"
    by (simp only: t_def s2 append_assoc) (simp add: s2)
  ultimately show ?thesis
    by (intro exI [of _ t] conjI) (simp_all add: t_def s2)
qed

theorem all_for_one_restarts_all_witness:
  "\<exists>s t. runs sup_step (started_two @ butlast (fails 10 1)) (sup_sys_of (two_children AllForOne)) = Some s \<and>
     runs sup_step (Decide 1 0 # AllSnap 1 # stop_labels 1 (\<lambda>_. Some CtxCanceled) (children s) [0, 1] @
       start_labels 1 (\<lambda>k. if k = 0 then Inl CtxCanceled else Inr 20) (\<lambda>k. 5 + k) [0, 1]) s = Some t \<and>
     stopped_refs t = [10, 11] \<and> map c_ref (children t) = [Some 10, Some 20] \<and> threads t 6 = PMon 1 3"
proof -
  let ?res = "\<lambda>k. if k = 0 then Inl CtxCanceled else Inr (20 :: nat)"
  obtain s where s: "runs sup_step (started_two @ butlast (fails 10 1)) (sup_sys_of (two_children AllForOne)) = Some s"
    "threads s 1 = PDecide 0 6" "\<not> sup_stopped s" "policy s = policy (two_children AllForOne)" "restarts s = []"
    "map c_ref (children s) = [Some 10, Some 11]" "map version (children s) = [1, 1]" "started_refs s = [(0, 10), (1, 11)]"
    "stopped_refs s = []" "threads s 5 = PIdle" "threads s 6 = PIdle"
    by (simp add: two_children_eq run_defs)
  have n: "length (children s) = 2"
    using arg_cong [OF s(6), of length] by simp
  then obtain a b where ch: "children s = [a, b]"
    by (auto simp: numeral_2_eq_2 length_Suc_conv)
  have two: "[0..<2] = [0, 1 :: nat]"
    by (simp add: numeral_2_eq_2)
  have prems: "(6 :: 64 word) \<noteq> state_code Done" "Strategy (policy s) = AllForOne" "account (policy s) 0 (restarts s) = (True, [0])"
    "2 = length (children s)" "inj_on (\<lambda>k. 5 + k :: nat) {..<2}" "list_all (\<lambda>k. threads s (5 + k) = PIdle) [0..<2]"
    "distinct (map snd (started_refs s @ concat (map (gives ?res) [0..<2])))"
    using s(4,5,8,10,11) n by (simp_all add: two two_children_eq account_def gives_def)
  obtain t where t: "runs sup_step (Decide 1 0 # AllSnap 1 # stop_labels 1 (\<lambda>_. Some CtxCanceled) (children s) [0..<2] @
       start_labels 1 ?res (\<lambda>k. 5 + k) [0..<2]) s = Some t"
    "children t = map (\<lambda>k. renewed ?res k (children s ! k)) [0..<2]"
    "stopped_refs t = stopped_refs s @ List.map_filter c_ref (children s)"
    "map (\<lambda>k. threads t (5 + k)) [0..<2] =
       map (\<lambda>k. case ?res k of Inl e \<Rightarrow> PIdle | Inr r \<Rightarrow> PMon k (version (children t ! k))) [0..<2]"
    using all_for_one_restarts_all [OF s(2) prems(1) s(3) prems(2-7), of "\<lambda>_. Some CtxCanceled"] by blast
  have ends: "stopped_refs t = [10, 11]" "map c_ref (children t) = [Some 10, Some 20]" "threads t 6 = PMon 1 3"
    using t(2-4) s(6,7,9) by (simp_all add: two ch renewed_def map_filter_simps)
  show ?thesis
    by (intro exI [of _ s] exI [of _ t] conjI s(1) t(1) [unfolded two] ends)
qed

end
