(* ===== verification/Supervisor_Shutdown.thy ===== *)
theory Supervisor_Shutdown
  imports Supervisor_Restart
begin

text \<open>
  StopAll of a supervisor on the machine of \<open>Supervisor_Monitor\<close>: from the moment it took the lock
  no failure is answered any more, so a StopAll that begins while no child is being started stops
  all there is. \<open>stop_all_misses_restart\<close> shows why that condition is needed.
\<close>

section \<open>A supervisor that is not starting anything\<close>

fun idle_pc :: "sup_pc \<Rightarrow> bool" where
  "idle_pc (PStart cs again) \<longleftrightarrow> cs = []"
| "idle_pc (PGot c r cs again) \<longleftrightarrow> False"
| "idle_pc PAllSnap \<longleftrightarrow> False"
| "idle_pc (PBump cs all) \<longleftrightarrow> False"
| "idle_pc (PStopRef c r cs all) \<longleftrightarrow> False"
| "idle_pc (PSaStop cs errs) \<longleftrightarrow> False"
| "idle_pc (PSaRef r cs errs) \<longleftrightarrow> False"
| "idle_pc pc \<longleftrightarrow> True"

text \<open>The references of the children \<open>cs\<close>, as StopAll reads them.\<close>

definition refs_in :: "child list \<Rightarrow> nat list \<Rightarrow> nat list" where
  "refs_in chs cs = List.map_filter (\<lambda>c. c_ref (chs ! c)) cs"

lemma refs_in_simps [simp]:
  "refs_in chs [] = []"
  "refs_in chs (c # cs) = (case c_ref (chs ! c) of None \<Rightarrow> refs_in chs cs | Some r \<Rightarrow> r # refs_in chs cs)"
  by (simp_all add: refs_in_def List.map_filter_simps split: option.split)

lemma refs_in_all: "refs_in chs (rev [0..<length chs]) = List.map_filter c_ref (rev chs)"
proof -
  have "List.map_filter c_ref (map ((!) chs) cs) = refs_in chs cs" for cs
    by (induction cs) (auto simp: List.map_filter_simps split: option.split)
  then show ?thesis
    by (metis map_nth rev_map)
qed

text \<open>\<open>rs\<close>: what is stopped in the end, with what was stopped before.\<close>

fun at_stop :: "child list \<Rightarrow> nat list \<Rightarrow> sup_pc \<Rightarrow> nat list \<Rightarrow> bool" where
  "at_stop chs rs (PSaStop cs errs) done \<longleftrightarrow> done @ refs_in chs cs = rs"
| "at_stop chs rs (PSaRef r cs errs) done \<longleftrightarrow> done @ r # refs_in chs cs = rs"
| "at_stop chs rs (PRet ret) done \<longleftrightarrow> done = rs"
| "at_stop chs rs pc done \<longleftrightarrow> False"

definition shutting ::
  "nat \<Rightarrow> nat list \<Rightarrow> child list \<Rightarrow> (nat \<times> nat) list \<Rightarrow> nat set \<Rightarrow> sup_sys \<Rightarrow> bool" where
  "shutting i rs chs st D s \<longleftrightarrow>
     sup_stopped s \<and> children s = chs \<and> started_refs s = st \<and> (\<forall>r\<in>D. inst_done s r) \<and>
     (\<forall>j. j \<noteq> i \<longrightarrow> idle_pc (threads s j)) \<and> at_stop chs rs (threads s i) (stopped_refs s)"

text \<open>The thread a label belongs to.\<close>

fun mover :: "sup_label \<Rightarrow> nat option" where
  "mover (CallStartAll i) = Some i"
| "mover (CallStopAll i) = Some i"
| "mover (SpecStart i res) = Some i"
| "mover (SetRef i j) = Some i"
| "mover (MonRead i) = Some i"
| "mover (MonDone i) = Some i"
| "mover (MonCtx i) = Some i"
| "mover (MonCheck i) = Some i"
| "mover (Terminated i) = Some i"
| "mover (Decide i now) = Some i"
| "mover (AllSnap i) = Some i"
| "mover (Bump i) = Some i"
| "mover (StopRef i err) = Some i"
| "mover (SaRead i) = Some i"
| "mover (SaStop i err) = Some i"
| "mover l = None"

lemma idle_moves:
  assumes "mover l = Some j" "idle_pc (threads s j)" "sup_stopped s"
  shows "keeps (\<lambda>t. sup_stopped t \<and> children t = children s \<and> started_refs t = started_refs s \<and>
      inst_done t = inst_done s \<and> stopped_refs t = stopped_refs s \<and> idle_pc (threads t j) \<and>
      (\<forall>k. k \<noteq> j \<longrightarrow> threads t k = threads s k)) (sup_step l s)"
  using assms
  by (cases l) (auto simp: keeps_def sup_step_defs go_to_def decide_def sup_stop_begin_def split: sup_splits)

lemma stopper_moves:
  assumes "mover l = Some i" "at_stop chs rs (threads s i) (stopped_refs s)" "children s = chs"
  shows "keeps (\<lambda>t. sup_stopped t = sup_stopped s \<and> children t = chs \<and> started_refs t = started_refs s \<and>
      inst_done t = inst_done s \<and> at_stop chs rs (threads t i) (stopped_refs t) \<and>
      (\<forall>k. k \<noteq> i \<longrightarrow> threads t k = threads s k)) (sup_step l s)"
  using assms
  by (cases l) (auto simp: keeps_def sup_step_defs go_to_def split: sup_splits)

lemma nobody_moves:
  assumes "mover l = None" "sup_stopped s"
  shows "keeps (\<lambda>t. sup_stopped t \<and> children t = children s \<and> started_refs t = started_refs s \<and>
      (\<forall>r. inst_done s r \<longrightarrow> inst_done t r) \<and> stopped_refs t = stopped_refs s \<and> threads t = threads s) (sup_step l s)"
  using assms by (cases l) (auto simp: Add_def Watch_def OnRestartError_def)

lemma shutting_step:
  assumes inv: "shutting i rs chs st D s"
  shows "keeps (shutting i rs chs st D) (sup_step l s)"
proof (cases "sup_step l s")
  case (Some t)
  consider (idle) j where "mover l = Some j" "j \<noteq> i" | (stopper) "mover l = Some i" | (nobody) "mover l = None"
    by (cases "mover l") auto
  then have "shutting i rs chs st D t"
  proof cases
    case idle
    with inv have "idle_pc (threads s j)" "sup_stopped s"
      by (simp_all add: shutting_def)
    with inv idle idle_moves [OF idle(1) this, THEN keepsD, OF Some] show ?thesis
      unfolding shutting_def by metis
  next
    case stopper
    from inv have "at_stop chs rs (threads s i) (stopped_refs s)" "children s = chs"
      by (simp_all add: shutting_def)
    with inv stopper_moves [OF stopper this, THEN keepsD, OF Some] show ?thesis
      by (simp add: shutting_def)
  next
    case nobody
    with inv nobody_moves [OF nobody _, THEN keepsD, OF _ Some] show ?thesis
      by (auto simp: shutting_def)
  qed
  with Some show ?thesis
    by simp
qed simp

interpretation shutting_machine: invariant_machine sup_step "\<lambda>_. True" "shutting i rs chs st D" for i rs chs st D
  by unfold_locales (rule shutting_step)

section \<open>Properties\<close>

text \<open>
  C20: A StopAll that begins while no child is being started or restarted is final: whatever fails
  meanwhile, no child is started any more, and when it returns it has stopped the
  current reference of each child, once, in reverse order; under OneForOne every instance a spec
  ever gave is then done or was told to stop.
\<close>

theorem quiet_stop_all_is_final:
  assumes "\<forall>c\<in>set (children sv). c_ref c = None" "list_all no_start ks"
    "runs sup_step (CallStartAll k # ks) (sup_sys_of sv) = Some s"
    "\<forall>j. idle_pc (threads s j)" "threads s i = PIdle" "\<not> sup_stopped s"
    "runs sup_step (CallStopAll i # ls) s = Some t" "threads t i = PRet ret"
  shows "started_refs t = started_refs s \<and> children t = children s \<and>
    stopped_refs t = stopped_refs s @ List.map_filter c_ref (rev (children s)) \<and>
    (Strategy (policy sv) = OneForOne \<longrightarrow>
      (\<forall>(c, r) \<in> set (started_refs t). inst_done t r \<or> r \<in> set (stopped_refs t)))"
proof -
  let ?rs = "stopped_refs s @ List.map_filter c_ref (rev (children s))" and ?D = "{r. inst_done s r}"
  obtain s1 where s1: "sup_step (CallStopAll i) s = Some s1" "runs sup_step ls s1 = Some t"
    using assms(7) by (auto split: option.splits)
  then have "shutting i ?rs (children s) (started_refs s) ?D s1"
    using assms(4-6) by (auto simp: shutting_def call_stop_all_def sup_stop_begin_def go_to_def refs_in_all)
  with s1(2) have "shutting i ?rs (children s) (started_refs s) ?D t"
    using shutting_machine.runs_keeps by (simp add: list_all_iff)
  then have t: "started_refs t = started_refs s" "children t = children s" "stopped_refs t = ?rs"
    "\<forall>r. inst_done s r \<longrightarrow> inst_done t r"
    using assms(8) by (auto simp: shutting_def)
  have "inst_done t r \<or> r \<in> set ?rs" if one: "Strategy (policy sv) = OneForOne" and r: "(c, r) \<in> set (started_refs s)" for c r
  proof -
    obtain s0 where "sup_step (CallStartAll k) (sup_sys_of sv) = Some s0" "runs sup_step ks s0 = Some s"
      using assms(3) by (auto split: option.splits)
    with one_machine.runs_keeps [OF one_inv_begin [OF one assms(1)] assms(2)] have "one_inv s"
      by blast
    then have "one_ok (threads s) (refs_of s) (started_refs s) (inst_done s)"
      by (simp add: one_inv_def)
    from one_okD(4) [OF this r] consider "refs_of s c = Some r" | "inst_done s r" | j where "has_got c r (threads s j)"
      by blast
    then show ?thesis
    proof cases
      case 1
      then have "children s ! c \<in> set (children s)" "c_ref (children s ! c) = Some r"
        by (auto simp: refs_of_def split: if_splits)
      then show ?thesis
        by (force simp: List.map_filter_def)
    next
      case 2
      with t(4) show ?thesis
        by blast
    next
      case 3
      with assms(4) have False
        by (metis has_got.elims(2) idle_pc.simps(2))
      then show ?thesis ..
    qed
  qed
  with t show ?thesis
    by auto
qed

theorem quiet_stop_all_is_final_witness:
  "\<exists>s t. runs sup_step started_two (sup_sys_of (two_children OneForOne)) = Some s \<and>
     runs sup_step (stop_two 9 @ fails 10 1) s = Some t \<and> stopped_refs t = [11, 10] \<and> started_refs t = [(0, 10), (1, 11)]"
proof -
  obtain s where s: "runs sup_step (CallStartAll 0 # tl started_two) (sup_sys_of (two_children OneForOne)) = Some s"
    "\<forall>j. idle_pc (threads s j)" "threads s 9 = PIdle" "\<not> sup_stopped s"
    "stopped_refs s = []" "started_refs s = [(0, 10), (1, 11)]" "map c_ref (children s) = [Some 10, Some 11]"
    and t: "\<exists>t. runs sup_step (CallStopAll 9 # tl (stop_two 9) @ fails 10 1) s = Some t \<and> threads t 9 = PRet None"
    by (simp add: two_children_eq run_defs)
  from t obtain t where t: "runs sup_step (CallStopAll 9 # tl (stop_two 9) @ fails 10 1) s = Some t" "threads t 9 = PRet None"
    by blast
  have pre: "\<forall>c\<in>set (children (two_children OneForOne)). c_ref c = None" "list_all no_start (tl started_two)"
    by (simp_all add: two_children_eq started_two_def)
  obtain a b where "children s = [a, b]" "c_ref a = Some 10" "c_ref b = Some 11"
    using s(7) by (auto simp: map_eq_Cons_conv)
  with quiet_stop_all_is_final [OF pre s(1-4) t] s(5,6) have
    "stopped_refs t = [11, 10]" "started_refs t = [(0, 10), (1, 11)]"
    by (simp_all add: List.map_filter_simps)
  moreover have "CallStartAll 0 # tl started_two = started_two" "CallStopAll 9 # tl (stop_two 9) @ fails 10 1 = stop_two 9 @ fails 10 1"
    by (simp_all add: started_two_def stop_two_def)
  ultimately show ?thesis
    using s(1) t(1) by metis
qed

end
