(* ===== verification/Supervisor_Budget.thy ===== *)
theory Supervisor_Budget
  imports Supervisor_Restart
begin

text \<open>
  The restart budget of \<open>Supervisor\<close> on the machine of \<open>Supervisor_Monitor\<close>, where the decisions
  are taken by the monitors of several children in any interleaving.
\<close>

section \<open>The decisions of a run\<close>

text \<open>
  The failures a run accounts for, with their times and whether the monitor then set out to
  restart: those that are not Done and not met by a stopped supervisor.
\<close>

definition decided_by :: "sup_label \<Rightarrow> sup_sys \<Rightarrow> sup_sys \<Rightarrow> (int \<times> bool) list" where
  "decided_by l s t =
     (case l of
        Decide i now \<Rightarrow>
          (case threads s i of
             PDecide c st \<Rightarrow>
               if st = state_code Done \<or> sup_stopped s then [] else [(now, threads t i \<noteq> PRet None)]
           | _ \<Rightarrow> [])
      | _ \<Rightarrow> [])"

fun decided :: "sup_label list \<Rightarrow> sup_sys \<Rightarrow> (int \<times> bool) list" where
  "decided [] s = []"
| "decided (l # ls) s = (case sup_step l s of None \<Rightarrow> [] | Some t \<Rightarrow> decided_by l s t @ decided ls t)"

lemma budget_kept:
  assumes "\<forall>i now. l \<noteq> Decide i now"
  shows "keeps (\<lambda>t. policy t = policy s \<and> restarts t = restarts s) (sup_step l s)"
  using assms
  by (cases l; simp add: sup_step_defs go_to_def notifyRestartError_def set_ref_def bump_def sup_stop_begin_def
      Add_def Watch_def OnRestartError_def Let_def split: sup_splits)

lemma decide_accounts:
  assumes "sup_step (Decide i now) s = Some t"
  shows "policy t = policy s \<and>
    (decided_by (Decide i now) s t = [] \<and> restarts t = restarts s \<or>
     (\<exists>b ok. decided_by (Decide i now) s t = [(now, b)] \<and> account (policy s) now (restarts s) = (ok, restarts t) \<and> (b \<longrightarrow> ok)))"
  using assms by (auto simp: decide_step_def decide_def decided_by_def go_to_def split: sup_splits)

lemma decided_accounts:
  "list_all2 (\<lambda>(now, b) ok. b \<longrightarrow> ok) (decided ls s) (decisions (policy s) (restarts s) (map fst (decided ls s)))"
proof (induction ls arbitrary: s)
  case (Cons l ls)
  show ?case
  proof (cases "sup_step l s")
    case (Some t)
    show ?thesis
    proof (cases "\<exists>i now. l = Decide i now")
      case True
      then obtain i now where l: "l = Decide i now"
        by blast
      with Cons.IH [of t] decide_accounts [of i now s t] Some show ?thesis
        by (auto split: prod.split)
    next
      case False
      with budget_kept [THEN keepsD, OF _ Some] Cons.IH [of t] Some show ?thesis
        by (auto simp: decided_by_def split: sup_label.split)
    qed
  qed simp
qed simp

section \<open>Properties\<close>

text \<open>
  C30: Whatever the children, the monitors and the callers do, in no period as long as
  WithinDuration does a supervisor set out to restart more than MaxRestarts times, if the clock does not
  go back between the decisions.
\<close>

theorem restarts_within_budget:
  assumes "MaxRestarts (policy sv) > 0" "0 \<le> WithinDuration (policy sv)" "restarts sv = []"
    "sorted (map fst (decided ls (sup_sys_of sv)))"
  shows "int (length (filter (\<lambda>(now, again). again \<and> x \<le> now \<and> now \<le> x + WithinDuration (policy sv)) (decided ls (sup_sys_of sv))))
    \<le> MaxRestarts (policy sv)"
proof -
  let ?ds = "decided ls (sup_sys_of sv)" and ?W = "WithinDuration (policy sv)"
  let ?ts = "map fst ?ds"
  have acc: "list_all2 (\<lambda>(now, b) ok. b \<longrightarrow> ok) ?ds (decisions (policy sv) [] ?ts)"
    using decided_accounts [of ls "sup_sys_of sv"] assms(3) by (simp add: sup_sys_of_def supervisor.defs)
  have "{i. i < length ?ds \<and> (\<lambda>(now, again). again \<and> x \<le> now \<and> now \<le> x + ?W) (?ds ! i)} \<subseteq>
      {i. i < length ?ts \<and> decisions (policy sv) [] ?ts ! i \<and> x \<le> ?ts ! i \<and> ?ts ! i \<le> x + ?W}"
    using list_all2_nthD [OF acc] by (fastforce split: prod.splits)
  then have "length (filter (\<lambda>(now, again). again \<and> x \<le> now \<and> now \<le> x + ?W) ?ds) \<le>
      card {i. i < length ?ts \<and> decisions (policy sv) [] ?ts ! i \<and> x \<le> ?ts ! i \<and> ?ts ! i \<le> x + ?W}"
    unfolding length_filter_conv_card by (intro card_mono) simp_all
  with restart_rate_bounded [OF assms(1,2,4), of x] show ?thesis
    by linarith
qed

text \<open>Two children fail in turn, at the times 0, 1, 2 and 4; three restarts are allowed in 5.\<close>

definition failing_turns :: "sup_label list" where
  "failing_turns = started_two @
     [InstState 10 (state_code Panicked), InstDone 10, MonDone 1, MonCheck 1, Terminated 1, Decide 1 0,
      SpecStart 1 (Inr 20), SetRef 1 3, MonRead 3, InstState 11 (state_code Panicked), InstDone 11, MonDone 2, MonCheck 2,
      Terminated 2, Decide 2 1, SpecStart 2 (Inr 21), SetRef 2 4, MonRead 4, InstState 20 (state_code Panicked), InstDone 20,
      MonDone 3, MonCheck 3, Terminated 3, Decide 3 2, SpecStart 3 (Inr 30), SetRef 3 5, MonRead 5,
      InstState 21 (state_code Panicked), InstDone 21, MonDone 4, MonCheck 4, Terminated 4, Decide 4 4]"

theorem restarts_within_budget_witness:
  "decided failing_turns (sup_sys_of (two_children OneForOne)) = [(0, True), (1, True), (2, True), (4, False)] \<and>
   int (length (filter (\<lambda>(now, again). again \<and> 0 \<le> now \<and> now \<le> 0 + WithinDuration (policy (two_children OneForOne)))
     (decided failing_turns (sup_sys_of (two_children OneForOne))))) \<le> MaxRestarts (policy (two_children OneForOne))"
proof -
  have ds: "decided failing_turns (sup_sys_of (two_children OneForOne)) = [(0, True), (1, True), (2, True), (4, False)]"
    by (simp add: failing_turns_def two_children_eq run_defs decided_by_def)
  have "MaxRestarts (policy (two_children OneForOne)) > 0" "0 \<le> WithinDuration (policy (two_children OneForOne))"
    "restarts (two_children OneForOne) = []" "sorted (map fst (decided failing_turns (sup_sys_of (two_children OneForOne))))"
    by (simp_all only: ds) (simp_all add: two_children_eq)
  from restarts_within_budget [OF this, of 0] ds show ?thesis
    by blast
qed

end
