(* ===== verification/Actor_World.thy ===== *)
theory Actor_World
  imports Actor_Safety Middleware
begin

text \<open>
  The machine of \<open>Actor_Loop\<close> with its handlers given their meaning: the middleware chain of
  \<open>Middleware\<close> around the message's Execute, and the handlers user code puts on the behavior
  stack. Where \<open>Actor_Loop\<close> leaves what a handler does to the label, here it is computed from the
  message, the entity and a world only handlers change. The machine refines a sequential server.
\<close>

section \<open>What handlers mean\<close>

text \<open>The world of handlers, with the \<open>*GoActorContext\<close> they find in their context.\<close>

record actor_world = world +
  own :: "handler_id go_actor_context"

text \<open>
  User code: Execute of a message, the middlewares and the handlers by their address, the name of
  the entity type, and the context given to Start.
\<close>

record ('m, 'e, 'w) user_code =
  uc_execute :: "'m \<Rightarrow> handler_id actor_ctx \<Rightarrow> 'e \<Rightarrow> 'w \<Rightarrow> 'w outcome"
  uc_middleware :: "nat \<Rightarrow> (handler_id, 'm, 'e, 'w) middleware"
  uc_handler :: "nat \<Rightarrow> (handler_id, 'm, 'e, 'w) handler_fn"
  uc_tag :: string
  uc_ctx :: "handler_id actor_ctx"

fun denote :: "('m, 'e, 'w) user_code \<Rightarrow> handler_id \<Rightarrow> (handler_id, 'm, 'e, 'w) handler_fn" where
  "denote uc (Built ms) = buildHandler (uc_execute uc) (map (uc_middleware uc) ms)"
| "denote uc (UserHandler n) = uc_handler uc n"

text \<open>\<open>ga.behavior.Current()(actorScopedCtx, e, entity)\<close>\<close>

definition call_handler ::
  "('m, 'e, 'x actor_world_scheme) user_code \<Rightarrow> handler_id \<Rightarrow> 'e \<Rightarrow> 'm \<Rightarrow> 'x actor_world_scheme \<Rightarrow>
     'x actor_world_scheme outcome" where
  "call_handler uc h e m w = denote uc h (withGoActorContext (uc_tag uc) (uc_ctx uc) (own w)) m e w"

text \<open>
  The fields of a \<open>GoActorContext\<close> are not exported: user code changes it by its methods only.
\<close>

definition by_methods :: "('m, 'e, 'x actor_world_scheme) user_code \<Rightarrow> bool" where
  "by_methods uc \<longleftrightarrow>
     (\<forall>h e m w. \<exists>ps rs. stack_wf (ac_behavior (own w)) \<longrightarrow>
        apply_bops ps (own w) = Some (rs, own (final_state (call_handler uc h e m w))))"

section \<open>The machine\<close>

record ('m, 'e, 'w) served =
  sv_actor :: "('m, 'e) actor_sys"
  sv_world :: 'w

datatype ('m, 'e) served_label = Does "('m, 'e) label" | HandlerReturns

definition follow :: "('m, 'e) actor_sys \<Rightarrow> 'x actor_world_scheme \<Rightarrow> 'x actor_world_scheme" where
  "follow a w = (case actorCtx a of None \<Rightarrow> w | Some ac \<Rightarrow> w\<lparr>own := ac\<rparr>)"

fun by_handler :: "('m, 'e) label \<Rightarrow> bool" where
  "by_handler (LoopReturn i ps p) \<longleftrightarrow> True"
| "by_handler l \<longleftrightarrow> \<not> solo l"

definition does ::
  "('m, 'e) label \<Rightarrow> ('m, 'e, 'x actor_world_scheme) served \<Rightarrow> ('m, 'e, 'x actor_world_scheme) served option" where
  "does l s =
     (if by_handler l then None
      else map_option (\<lambda>a. \<lparr>sv_actor = a, sv_world = follow a (sv_world s)\<rparr>) (actor_step l (sv_actor s)))"

text \<open>The handler the loop has called runs to its end.\<close>

definition handler_returns ::
  "('m, 'e, 'x actor_world_scheme) user_code \<Rightarrow> ('m, 'e, 'x actor_world_scheme) served \<Rightarrow>
     ('m, 'e, 'x actor_world_scheme) served option" where
  "handler_returns uc s =
     (case (crash (sv_actor s), loops (sv_actor s) 0, entity_of (sv_actor s) 0) of
        (None, LRun m, Some e) \<Rightarrow>
          Some (case call_handler uc (fst (last (executed (sv_actor s)))) e m (sv_world s) of
                  Finishes w \<Rightarrow>
                    \<lparr>sv_actor = set_loop 0 LSelect (sv_actor s\<lparr>actorCtx := Some (own w)\<rparr>), sv_world = w\<rparr>
                | Panics v w \<Rightarrow>
                    \<lparr>sv_actor = set_loop 0 (LRecover v) (sv_actor s\<lparr>actorCtx := Some (own w)\<rparr>), sv_world = w\<rparr>)
      | _ \<Rightarrow> None)"

fun served_step ::
  "('m, 'e, 'x actor_world_scheme) user_code \<Rightarrow> ('m, 'e) served_label \<Rightarrow>
     ('m, 'e, 'x actor_world_scheme) served \<Rightarrow> ('m, 'e, 'x actor_world_scheme) served option" where
  "served_step uc (Does l) s = does l s"
| "served_step uc HandlerReturns s = handler_returns uc s"

definition served_new :: "'m goactor \<Rightarrow> 'x actor_world_scheme \<Rightarrow> ('m, 'e, 'x actor_world_scheme) served" where
  "served_new ga w = \<lparr>sv_actor = sys_of ga, sv_world = w\<rparr>"

section \<open>The specification: a sequential server\<close>

text \<open>Which handler gets which message, and the world afterwards.\<close>

fun serve_seq ::
  "('m, 'e, 'x actor_world_scheme) user_code \<Rightarrow> 'e \<Rightarrow> 'm list \<Rightarrow> 'x actor_world_scheme \<Rightarrow>
     (handler_id \<times> 'm) list \<times> 'x actor_world_scheme" where
  "serve_seq uc e [] w = ([], w)"
| "serve_seq uc e (m # ms) w =
     (let h = fst (abs_stack (ac_behavior (own w)))
      in apfst (Cons (h, m)) (serve_seq uc e ms (final_state (call_handler uc h e m w))))"

definition first_ctx :: "'m goactor \<Rightarrow> handler_id go_actor_context" where
  "first_ctx ga = \<lparr>ac_behavior = newBehaviorStack (Built (middleware ga)), ac_name = name ga\<rparr>"

lemma serve_seq_snoc:
  "serve_seq uc e (ms @ [m]) w =
     (case serve_seq uc e ms w of (hs, w') \<Rightarrow>
        let h = fst (abs_stack (ac_behavior (own w'))) in
        (hs @ [(h, m)], final_state (call_handler uc h e m w')))"
  by (induction ms arbitrary: w) (auto simp: Let_def split: prod.splits)

section \<open>The machine refines the server\<close>

text \<open>The messages whose handler has ended.\<close>

fun in_handler :: "'m loop_pc \<Rightarrow> bool" where
  "in_handler (LRun m) \<longleftrightarrow> True"
| "in_handler pc \<longleftrightarrow> False"

definition finished :: "'m loop_pc \<Rightarrow> (handler_id \<times> 'm) list \<Rightarrow> (handler_id \<times> 'm) list" where
  "finished lp ex = (if in_handler lp then butlast ex else ex)"

text \<open>
  \<open>w0\<close> is the world before the first message, with the context that Start makes; \<open>w\<close> the present
  one.
\<close>

definition serve_ok ::
  "('m, 'e, 'x actor_world_scheme) user_code \<Rightarrow> 'm loop_pc \<Rightarrow> 'e option \<Rightarrow> (handler_id \<times> 'm) list \<Rightarrow>
     handler_id go_actor_context option \<Rightarrow> 'x actor_world_scheme \<Rightarrow> 'x actor_world_scheme \<Rightarrow> bool" where
  "serve_ok uc lp ent ex ac w0 w \<longleftrightarrow>
     (if lp = NoLoop then ex = [] \<and> w\<lparr>own := own w0\<rparr> = w0
      else ac = Some (own w) \<and>
        (\<exists>e. ent = Some e \<and> serve_seq uc e (map snd (finished lp ex)) w0 = (finished lp ex, w)) \<and>
        (\<forall>m. lp = LRun m \<longrightarrow> ex \<noteq> [] \<and> last ex = (fst (abs_stack (ac_behavior (own w))), m)))"

fun provided_for :: "'e start_pc \<Rightarrow> bool" where
  "provided_for (SHook e) \<longleftrightarrow> True"
| "provided_for (SGo e) \<longleftrightarrow> True"
| "provided_for sp \<longleftrightarrow> False"

definition ctx_ok ::
  "'m goactor \<Rightarrow> 'e start_pc \<Rightarrow> 'm loop_pc \<Rightarrow> handler_id go_actor_context option \<Rightarrow> bool" where
  "ctx_ok ga sp lp ac \<longleftrightarrow> provided_for sp \<and> lp = NoLoop \<longrightarrow> ac = Some (first_ctx ga)"

definition actor_serves ::
  "('m, 'e, 'x actor_world_scheme) user_code \<Rightarrow> 'm goactor \<Rightarrow> 'x actor_world_scheme \<Rightarrow>
     'x actor_world_scheme \<Rightarrow> ('m, 'e) actor_sys \<Rightarrow> bool" where
  "actor_serves uc ga w0 w a \<longleftrightarrow>
     ctx_ok ga (starts a 0) (loops a 0) (actorCtx a) \<and>
     serve_ok uc (loops a 0) (entity_of a 0) (executed a) (actorCtx a) (w0\<lparr>own := first_ctx ga\<rparr>) w"

fun serve_frame :: "('m, 'e) label \<Rightarrow> bool" where
  "serve_frame (StartProvide i pv) \<longleftrightarrow> False"
| "serve_frame (StartGo i) \<longleftrightarrow> False"
| "serve_frame (LoopRun i) \<longleftrightarrow> False"
| "serve_frame (LoopReturn i ps p) \<longleftrightarrow> False"
| "serve_frame l \<longleftrightarrow> solo l"

definition same_server :: "('m, 'e) actor_sys \<Rightarrow> ('m, 'e) actor_sys \<Rightarrow> bool" where
  "same_server a b \<longleftrightarrow>
     executed b = executed a \<and> actorCtx b = actorCtx a \<and> entity_of b = entity_of a \<and>
     (provided_for (starts b 0) \<longrightarrow> provided_for (starts a 0)) \<and>
     (loops b 0 = loops a 0 \<or>
      loops a 0 \<noteq> NoLoop \<and> loops b 0 \<noteq> NoLoop \<and> \<not> in_handler (loops a 0) \<and> \<not> in_handler (loops b 0))"

lemma frame_action: "serve_frame l \<Longrightarrow> keeps (same_server a) (action l a)"
  by (cases l; simp add: branch_simps helper_defs same_server_def split: step_splits; auto)

lemma serve_ok_same:
  assumes "serve_ok uc lp ent ex ac w0 w" "lp \<noteq> NoLoop" "lp' \<noteq> NoLoop" "\<not> in_handler lp" "\<not> in_handler lp'"
  shows "serve_ok uc lp' ent ex ac w0 w"
  using assms by (cases lp') (auto simp: serve_ok_def finished_def)

lemma frame_serves:
  assumes inv: "actor_serves uc ga w0 w a" and same: "same_server a b"
  shows "actor_serves uc ga w0 (follow b w) b"
proof (cases "loops a 0 = NoLoop")
  case True
  with assms show ?thesis
    by (auto simp: actor_serves_def ctx_ok_def same_server_def follow_def serve_ok_def split: option.splits)
next
  case False
  with inv have "actorCtx a = Some (own w)"
    by (simp add: actor_serves_def serve_ok_def)
  with same have "follow b w = w"
    by (simp add: follow_def same_server_def)
  with False inv same show ?thesis
    by (auto simp: actor_serves_def ctx_ok_def same_server_def intro: serve_ok_same)
qed

lemma other_serves:
  assumes "actor_serves uc ga w0 w a" "\<not> by_handler l" "\<not> serve_frame l" "life_inv a" "behavior_inv a" "config_inv ga a"
  shows "keeps (\<lambda>b. actor_serves uc ga w0 (follow b w) b) (action l a)"
  using assms
  by (cases l; simp add: branch_simps helper_defs actor_serves_def serve_ok_def ctx_ok_def first_ctx_def follow_def
      life_inv_def life_ok_def begun_def behavior_inv_def behavior_ok_def config_inv_def finished_def split: step_splits;
      (intro conjI impI allI)?; clarsimp simp: Current_abs finished_def)

lemma handler_returns_SomeE:
  assumes "handler_returns uc s = Some t"
  obtains m e out where "crash (sv_actor s) = None" "loops (sv_actor s) 0 = LRun m" "entity_of (sv_actor s) 0 = Some e"
    "out = call_handler uc (fst (last (executed (sv_actor s)))) e m (sv_world s)" "sv_world t = final_state out"
    "sv_actor t = set_loop 0 (case out of Finishes w \<Rightarrow> LSelect | Panics v w \<Rightarrow> LRecover v)
      (sv_actor s\<lparr>actorCtx := Some (own (final_state out))\<rparr>)"
  using assms by (auto simp: handler_returns_def split: option.splits loop_pc.splits outcome.splits)

lemma handler_serves:
  assumes "actor_serves uc ga w0 (sv_world s) (sv_actor s)" "handler_returns uc s = Some t"
  shows "actor_serves uc ga w0 (sv_world t) (sv_actor t)"
proof (rule handler_returns_SomeE [OF assms(2)])
  fix m e out
  assume run: "loops (sv_actor s) 0 = LRun m" "entity_of (sv_actor s) 0 = Some e"
    and out: "out = call_handler uc (fst (last (executed (sv_actor s)))) e m (sv_world s)"
    and t: "sv_world t = final_state out"
      "sv_actor t = set_loop 0 (case out of Finishes w \<Rightarrow> LSelect | Panics v w \<Rightarrow> LRecover v)
        (sv_actor s\<lparr>actorCtx := Some (own (final_state out))\<rparr>)"
  obtain lp where lp: "lp \<noteq> NoLoop" "\<not> in_handler lp" "\<forall>m. lp \<noteq> LRun m"
    and t_lp: "sv_actor t = set_loop 0 lp (sv_actor s\<lparr>actorCtx := Some (own (final_state out))\<rparr>)"
    using t(2) that [of LSelect] that [of "LRecover v" for v] by (cases out) auto
  let ?h = "fst (abs_stack (ac_behavior (own (sv_world s))))"
  obtain xs where ex: "executed (sv_actor s) = xs @ [(?h, m)]"
    and xs: "serve_seq uc e (map snd xs) (w0\<lparr>own := first_ctx ga\<rparr>) = (xs, sv_world s)"
  proof
    show "executed (sv_actor s) = butlast (executed (sv_actor s)) @ [(?h, m)]"
      using assms(1) run by (auto simp: actor_serves_def serve_ok_def dest: append_butlast_last_id)
    show "serve_seq uc e (map snd (butlast (executed (sv_actor s)))) (w0\<lparr>own := first_ctx ga\<rparr>) =
      (butlast (executed (sv_actor s)), sv_world s)"
      using assms(1) run by (auto simp: actor_serves_def serve_ok_def finished_def)
  qed
  have "out = call_handler uc ?h e m (sv_world s)"
    using out ex by simp
  then have "serve_seq uc e (map snd (xs @ [(?h, m)])) (w0\<lparr>own := first_ctx ga\<rparr>) = (xs @ [(?h, m)], final_state out)"
    by (simp add: serve_seq_snoc xs Let_def)
  then show ?thesis
    using run(2) lp t(1) t_lp
    by (auto simp: actor_serves_def ctx_ok_def serve_ok_def finished_def ex set_loop_def)
qed

lemma handler_returns_action:
  assumes "by_methods uc" "actor_serves uc ga w0 (sv_world s) (sv_actor s)" "behavior_inv (sv_actor s)"
    "handler_returns uc s = Some t"
  shows "\<exists>ps p. actor_step (LoopReturn 0 ps p) (sv_actor s) = Some (sv_actor t)"
proof (rule handler_returns_SomeE [OF assms(4)])
  fix m e out
  assume run: "crash (sv_actor s) = None" "loops (sv_actor s) 0 = LRun m" "entity_of (sv_actor s) 0 = Some e"
    and out: "out = call_handler uc (fst (last (executed (sv_actor s)))) e m (sv_world s)"
    and t: "sv_actor t = set_loop 0 (case out of Finishes w \<Rightarrow> LSelect | Panics v w \<Rightarrow> LRecover v)
        (sv_actor s\<lparr>actorCtx := Some (own (final_state out))\<rparr>)"
  have own: "actorCtx (sv_actor s) = Some (own (sv_world s))" "stack_wf (ac_behavior (own (sv_world s)))"
    using assms(2,3) run(2) by (auto simp: actor_serves_def serve_ok_def behavior_inv_def behavior_ok_def begun_def)
  then obtain ps rs where "apply_bops ps (own (sv_world s)) = Some (rs, own (final_state out))"
    using assms(1) out unfolding by_methods_def by blast
  with own run t have "actor_step (LoopReturn 0 ps (case out of Finishes w \<Rightarrow> None | Panics v w \<Rightarrow> Some v)) (sv_actor s)
      = Some (sv_actor t)"
    by (cases out) (simp_all add: actor_step_def loop_return_def)
  then show ?thesis
    by blast
qed

definition served_inv ::
  "('m, 'e, 'x actor_world_scheme) user_code \<Rightarrow> 'm goactor \<Rightarrow> 'x actor_world_scheme \<Rightarrow>
     ('m, 'e, 'x actor_world_scheme) served \<Rightarrow> bool" where
  "served_inv uc ga w0 s \<longleftrightarrow> by_methods uc \<and> actor_inv (sv_actor s) \<and> config_inv ga (sv_actor s) \<and>
     actor_serves uc ga w0 (sv_world s) (sv_actor s)"

lemma served_inv_step:
  assumes inv: "served_inv uc ga w0 s"
  shows "keeps (served_inv uc ga w0) (served_step uc l s)"
proof (cases "served_step uc l s")
  case (Some t)
  from inv have parts: "by_methods uc" "actor_inv (sv_actor s)" "config_inv ga (sv_actor s)"
    "actor_serves uc ga w0 (sv_world s) (sv_actor s)"
    by (simp_all add: served_inv_def)
  then have ok: "life_inv (sv_actor s)" "behavior_inv (sv_actor s)"
    by (simp_all add: actor_inv_def)
  obtain k where k: "solo k" "actor_step k (sv_actor s) = Some (sv_actor t)"
    and "actor_serves uc ga w0 (sv_world t) (sv_actor t)"
  proof (cases l)
    case (Does k)
    with Some have k: "\<not> by_handler k" "actor_step k (sv_actor s) = Some (sv_actor t)"
      and t: "sv_world t = follow (sv_actor t) (sv_world s)"
      by (auto simp: does_def split: if_splits)
    then have a: "action k (sv_actor s) = Some (sv_actor t)"
      by (simp add: actor_step_def split: if_splits)
    have "actor_serves uc ga w0 (sv_world t) (sv_actor t)"
      using frame_serves [OF parts(4)] frame_action [THEN keepsD, OF _ a]
        other_serves [OF parts(4) k(1) _ ok parts(3), THEN keepsD, OF _ a] t
      by (cases "serve_frame k") auto
    moreover have "solo k"
      using k(1) by (cases k) simp_all
    ultimately show ?thesis
      using k(2) that by blast
  next
    case HandlerReturns
    with Some have "handler_returns uc s = Some t"
      by simp
    then show ?thesis
      using handler_returns_action [OF parts(1,4) ok(2)] handler_serves [OF parts(4)] that
      by (metis solo.simps(14))
  qed
  with parts actor_inv_step [OF k(1), THEN keepsD, OF _ k(2)] config_step [THEN keepsD, OF _ k(2)] Some show ?thesis
    by (simp add: served_inv_def)
qed simp

interpretation served_machine: invariant_machine "served_step uc" "\<lambda>_. True" "served_inv uc ga w0" for uc ga w0
  by unfold_locales (rule served_inv_step)

lemma served_new_inv:
  assumes "fresh_actor ga" "by_methods uc"
  shows "served_inv uc ga w0 (served_new ga w0)"
  using assms sys_of_inv [OF assms(1)] sys_of_config [OF assms(1)]
  by (simp add: served_inv_def served_new_def actor_serves_def ctx_ok_def serve_ok_def sys_of_def goactor.defs)

lemma served_run_inv:
  assumes "fresh_actor ga" "by_methods uc" "runs (served_step uc) ls (served_new ga w0) = Some s"
  shows "served_inv uc ga w0 s"
  using served_machine.runs_keeps [OF served_new_inv [OF assms(1,2)] _ assms(3)] by (simp add: list_all_iff)

section \<open>Recovery\<close>

text \<open>Handlers that do not use Become, BecomeReplace or Unbecome.\<close>

definition no_become :: "('m, 'e, 'x actor_world_scheme) user_code \<Rightarrow> bool" where
  "no_become uc \<longleftrightarrow> (\<forall>h e m w. own (final_state (call_handler uc h e m w)) = own w)"

lemma no_become_by_methods: "no_become uc \<Longrightarrow> by_methods uc"
  unfolding by_methods_def no_become_def by (metis apply_bops.simps(1))

text \<open>Hooks that return: neither BeforeStart, AfterStart, BeforeStop nor AfterStop panics.\<close>

fun hook_returns :: "('m, 'e) label \<Rightarrow> bool" where
  "hook_returns (StartHook i r) \<longleftrightarrow> r = HookOk"
| "hook_returns (LoopAfterStart i r) \<longleftrightarrow> r = HookOk"
| "hook_returns (LoopBeforeStop i r) \<longleftrightarrow> r = HookOk"
| "hook_returns (StopAfter k r) \<longleftrightarrow> r = HookOk"
| "hook_returns l \<longleftrightarrow> True"

fun hooks_return :: "('m, 'e) served_label \<Rightarrow> bool" where
  "hooks_return (Does l) \<longleftrightarrow> hook_returns l"
| "hooks_return HandlerReturns \<longleftrightarrow> True"

definition calm :: "'m goactor \<Rightarrow> ('m, 'e) actor_sys \<Rightarrow> bool" where
  "calm ga a \<longleftrightarrow> ga_state a \<noteq> Panicked \<and> (\<forall>v. loops a 0 \<noteq> LRecover v) \<and>
     list_all (\<lambda>x. x = Built (middleware ga)) (map fst (executed a)) \<and>
     (loops a 0 \<noteq> NoLoop \<or> provided_for (starts a 0) \<longrightarrow>
        map_option ac_behavior (actorCtx a) = Some (newBehaviorStack (Built (middleware ga))))"

lemma action_calm:
  assumes "calm ga a" "\<not> by_handler l" "hook_returns l" "config_inv ga a" "behavior_inv a"
  shows "keeps (calm ga) (action l a)"
  using assms
  by (cases l; simp add: branch_simps helper_defs calm_def config_inv_def behavior_inv_def behavior_ok_def begun_def
      split: step_splits; (intro conjI impI allI)?; clarsimp simp: Current_def newBehaviorStack_def)

lemma recovery_finishes:
  "\<exists>w'. buildHandler execute (Recovery tag log # ms) ctx m e w = Finishes w'"
  by (cases "buildHandler execute ms ctx m e w") (simp_all add: buildHandler_foldr Recovery_def)

text \<open>What keeps the actor calm, beside hooks that return: Recovery first, no change of behavior.\<close>

definition guarded :: "('m, 'e, 'x actor_world_scheme) user_code \<Rightarrow> 'm goactor \<Rightarrow> bool" where
  "guarded uc ga \<longleftrightarrow> no_become uc \<and>
     (\<exists>r rs tag log. middleware ga = r # rs \<and> uc_middleware uc r = Recovery tag log)"

definition guarded_inv ::
  "('m, 'e, 'x actor_world_scheme) user_code \<Rightarrow> 'm goactor \<Rightarrow> 'x actor_world_scheme \<Rightarrow>
     ('m, 'e, 'x actor_world_scheme) served \<Rightarrow> bool" where
  "guarded_inv uc ga w0 s \<longleftrightarrow> guarded uc ga \<and> served_inv uc ga w0 s \<and> calm ga (sv_actor s)"

lemma guarded_finishes:
  "guarded uc ga \<Longrightarrow> \<exists>w'. call_handler uc (Built (middleware ga)) e m w = Finishes w'"
  using recovery_finishes by (fastforce simp: guarded_def call_handler_def)

lemma handler_calm:
  assumes "guarded_inv uc ga w0 s" "handler_returns uc s = Some t"
  shows "calm ga (sv_actor t)"
proof (rule handler_returns_SomeE [OF assms(2)])
  fix m e out
  assume run: "loops (sv_actor s) 0 = LRun m"
    and out: "out = call_handler uc (fst (last (executed (sv_actor s)))) e m (sv_world s)"
    and t: "sv_actor t = set_loop 0 (case out of Finishes w \<Rightarrow> LSelect | Panics v w \<Rightarrow> LRecover v)
        (sv_actor s\<lparr>actorCtx := Some (own (final_state out))\<rparr>)"
  have g: "guarded uc ga" and inv: "served_inv uc ga w0 s" and calm: "calm ga (sv_actor s)"
    using assms(1) by (simp_all add: guarded_inv_def)
  from inv run have "executed (sv_actor s) \<noteq> []" and own: "actorCtx (sv_actor s) = Some (own (sv_world s))"
    by (simp_all add: served_inv_def actor_serves_def serve_ok_def)
  with calm have "fst (last (executed (sv_actor s))) = Built (middleware ga)"
    by (auto simp: calm_def list_all_iff)
  with out obtain w' where w': "out = Finishes w'"
    using guarded_finishes [OF g] by metis
  moreover have "own (final_state out) = own (sv_world s)"
    using g out by (simp add: guarded_def no_become_def)
  ultimately show ?thesis
    using calm t run own by (simp add: calm_def set_loop_def)
qed

lemma guarded_inv_step:
  assumes l: "hooks_return l" and inv: "guarded_inv uc ga w0 s"
  shows "keeps (guarded_inv uc ga w0) (served_step uc l s)"
proof (cases "served_step uc l s")
  case (Some t)
  from inv have g: "guarded uc ga" "served_inv uc ga w0 s" "calm ga (sv_actor s)"
    by (simp_all add: guarded_inv_def)
  have "calm ga (sv_actor t)"
  proof (cases l)
    case (Does k)
    with Some l have "\<not> by_handler k" "action k (sv_actor s) = Some (sv_actor t)" "hook_returns k"
      by (auto simp: does_def actor_step_def split: if_splits)
    with g action_calm [of ga "sv_actor s" k, THEN keepsD] show ?thesis
      by (auto simp: served_inv_def actor_inv_def config_inv_def guarded_def)
  next
    case HandlerReturns
    with Some handler_calm [OF inv] show ?thesis
      by simp
  qed
  with served_inv_step [OF g(2), THEN keepsD, OF Some] g(1) Some show ?thesis
    by (simp add: guarded_inv_def)
qed simp

interpretation guarded_machine: invariant_machine "served_step uc" hooks_return "guarded_inv uc ga w0" for uc ga w0
  by unfold_locales (rule guarded_inv_step)

section \<open>A sample\<close>

text \<open>
  Execute of 0 panics, that of 1 pushes a handler, every other adds its number; the pushed handler
  adds 100 for each message. The world counts the total.
\<close>

record tally = actor_world +
  total :: nat

definition tally_code :: "(nat, nat, tally) user_code" where
  "tally_code = \<lparr>uc_execute = (\<lambda>m ctx e w.
       if m = 0 then Panics (PanicValue 0) w
       else if m = 1 then Finishes (w\<lparr>own := ctx_Become (UserHandler 0) (own w)\<rparr>)
       else Finishes (w\<lparr>total := total w + m\<rparr>)),
     uc_middleware = (\<lambda>n. Recovery ''E'' (\<lambda>ctx c w. w)),
     uc_handler = (\<lambda>n ctx m e w. Finishes (w\<lparr>total := total w + 100\<rparr>)),
     uc_tag = ''E'', uc_ctx = BaseContext\<rparr>"

definition tally_new :: tally where
  "tally_new = \<lparr>clock = 0, metrics_at = (\<lambda>_. \<lparr>messageCount = 0, totalDurationNs = 0\<rparr>),
     own = \<lparr>ac_behavior = newBehaviorStack (Built []), ac_name = []\<rparr>, total = 0\<rparr>"

text \<open>Call \<open>j\<close> of Receive sends \<open>m\<close>, and the goroutine serves it.\<close>

definition sends :: "nat \<Rightarrow> 'm \<Rightarrow> ('m, 'e) served_label list" where
  "sends j m = [Does (RecvCall j (Some m)), Does (RecvSend j)]"

definition serves_one :: "('m, 'e) served_label list" where
  "serves_one = [Does (LoopTake 0), Does (LoopRun 0), HandlerReturns]"

definition tally_actor :: "nat goactor" where
  "tally_actor = sample_actor\<lparr>middleware := [0], inputBufSize := 3, input := make_chan 3\<rparr>"

lemma tally_fresh: "fresh_actor tally_actor"
  by (simp add: fresh_actor_def tally_actor_def sample_actor_def default_actor_def)

lemma silent_recovery: "final_state (Recovery tag (\<lambda>ctx c w. w) nxt ctx m e w) = final_state (nxt ctx m e w)"
  by (cases "nxt ctx m e w") (simp_all add: Recovery_def)

lemma silent_recoveries:
  "final_state (foldr (\<lambda>m n. m n) (map (\<lambda>n. Recovery tag (\<lambda>ctx c w. w)) ms) h ctx m e w) = final_state (h ctx m e w)"
  by (induction ms) (simp_all add: silent_recovery)

lemma tally_by_methods: "by_methods tally_code"
proof -
  have "\<exists>ps rs. apply_bops ps (own w) = Some (rs, own (final_state (call_handler tally_code h e m w)))" for h e m w
  proof (cases h)
    case (Built ms)
    have "apply_bops (if m = 1 then [OpBecome (UserHandler 0)] else []) (own w) =
      Some (if m = 1 then [True] else [], own (final_state (call_handler tally_code h e m w)))"
      by (simp add: Built call_handler_def tally_code_def buildHandler_foldr silent_recoveries base_handler_def)
    then show ?thesis by blast
  next
    case (UserHandler n)
    then have "apply_bops [] (own w) = Some ([], own (final_state (call_handler tally_code h e m w)))"
      by (simp add: call_handler_def tally_code_def)
    then show ?thesis by blast
  qed
  then show ?thesis
    unfolding by_methods_def by blast
qed

definition tally_labels :: "(nat, nat) served_label list" where
  "tally_labels = map Does (boot 7) @ sends 0 5 @ sends 1 0 @ sends 2 1 @ serves_one @ serves_one @ serves_one @
     sends 3 4 @ serves_one"

lemma boots:
  assumes "fresh_actor ga"
  shows "runs (served_step uc) (map Does (boot e)) (served_new ga w) =
    Some \<lparr>sv_actor = booted ga e, sv_world = w\<lparr>own := first_ctx ga\<rparr>\<rparr>"
  using assms by (simp add: boot_def booted_def first_ctx_def served_new_def does_def follow_def run_simps fresh_actor_def
      split: option.split)

lemmas tally_run_simps = sends_def serves_one_def does_def handler_returns_def call_handler_def run_simps booted_def
  tally_actor_def sample_actor_def default_actor_def first_ctx_def follow_def make_chan_def Current_def
  newBehaviorStack_def tally_code_def buildHandler_foldr base_handler_def Recovery_def ctx_Become_def Become_def
  tally_new_def

lemma tally_runs:
  "\<exists>s. runs (served_step tally_code) tally_labels (served_new tally_actor tally_new) = Some s \<and>
     executed (sv_actor s) = [(Built [0], 5), (Built [0], 0), (Built [0], 1), (UserHandler 0, 4)] \<and>
     total (sv_world s) = 105 \<and> loops (sv_actor s) 0 = LSelect"
  unfolding tally_labels_def runs_append boots [OF tally_fresh]
  by (simp add: tally_run_simps)

text \<open>The same without Become.\<close>

definition plain_code :: "(nat, nat, tally) user_code" where
  "plain_code = tally_code\<lparr>uc_execute := (\<lambda>m ctx e w.
     if m = 0 then Panics (PanicValue 0) w else Finishes (w\<lparr>total := total w + m\<rparr>))\<rparr>"

lemma plain_no_become: "no_become plain_code"
proof -
  have "own (final_state (call_handler plain_code h e m w)) = own w" for h e m w
    by (cases h) (simp_all add: call_handler_def plain_code_def tally_code_def buildHandler_foldr silent_recoveries
        base_handler_def)
  then show ?thesis
    unfolding no_become_def by blast
qed

section \<open>Properties\<close>

text \<open>
  C1: Whatever the senders, the hooks and the scheduler do, the actor serves its messages as a
  sequential server would: it calls, for the accepted messages in their order, the handler on top
  of the behavior stack that the earlier handlers have left, first the middleware chain around
  Execute; and the world is what these handlers, one after the other, made of the first one, a
  panicking handler included.
\<close>

theorem actor_refines_sequential_server:
  assumes "fresh_actor ga" "by_methods uc" "runs (served_step uc) ls (served_new ga w0) = Some s"
    "loops (sv_actor s) 0 \<noteq> NoLoop"
  shows "\<exists>e done. entity_of (sv_actor s) 0 = Some e \<and>
    serve_seq uc e (map snd done) (w0\<lparr>own := first_ctx ga\<rparr>) = (done, sv_world s) \<and>
    (\<exists>rest. accepted (sv_actor s) = map snd (executed (sv_actor s)) @ rest) \<and>
    executed (sv_actor s) = done @ (case loops (sv_actor s) 0 of
      LRun m \<Rightarrow> [(fst (abs_stack (ac_behavior (own (sv_world s)))), m)] | _ \<Rightarrow> [])"
proof -
  have inv: "served_inv uc ga w0 s"
    using served_run_inv [OF assms(1-3)] .
  then have ok: "serve_ok uc (loops (sv_actor s) 0) (entity_of (sv_actor s) 0) (executed (sv_actor s))
      (actorCtx (sv_actor s)) (w0\<lparr>own := first_ctx ga\<rparr>) (sv_world s)"
    and "queue_inv (sv_actor s)"
    by (simp_all add: served_inv_def actor_serves_def actor_inv_def)
  then have "\<exists>rest. accepted (sv_actor s) = map snd (executed (sv_actor s)) @ rest"
    by (cases "loops (sv_actor s) 0") (auto simp: queue_inv_def queue_ok_def)
  moreover obtain e where "entity_of (sv_actor s) 0 = Some e"
    "serve_seq uc e (map snd (finished (loops (sv_actor s) 0) (executed (sv_actor s)))) (w0\<lparr>own := first_ctx ga\<rparr>) =
      (finished (loops (sv_actor s) 0) (executed (sv_actor s)), sv_world s)"
    using ok assms(4) by (auto simp: serve_ok_def)
  moreover have "executed (sv_actor s) = finished (loops (sv_actor s) 0) (executed (sv_actor s)) @
      (case loops (sv_actor s) 0 of LRun m \<Rightarrow> [(fst (abs_stack (ac_behavior (own (sv_world s)))), m)] | _ \<Rightarrow> [])"
    using ok assms(4) by (cases "loops (sv_actor s) 0") (auto simp: serve_ok_def finished_def dest: append_butlast_last_id)
  ultimately show ?thesis
    by blast
qed

theorem actor_refines_sequential_server_witness:
  "\<exists>e rest. serve_seq tally_code e [5, 0, 1, 4] (tally_new\<lparr>own := first_ctx tally_actor\<rparr>) =
    ([(Built [0], 5), (Built [0], 0), (Built [0], 1), (UserHandler 0, 4)], rest) \<and> total rest = 105"
proof -
  obtain s where s: "runs (served_step tally_code) tally_labels (served_new tally_actor tally_new) = Some s"
    "executed (sv_actor s) = [(Built [0], 5), (Built [0], 0), (Built [0], 1), (UserHandler 0, 4)]"
    "total (sv_world s) = 105" "loops (sv_actor s) 0 = LSelect"
    using tally_runs by blast
  then show ?thesis
    using actor_refines_sequential_server [OF tally_fresh tally_by_methods s(1)] by auto
qed

text \<open>
  C35: With the Recovery middleware first, lifecycle hooks that do not panic, and handlers that leave the behavior
  stack alone (no Become, BecomeReplace or Unbecome: a handler installed by Become runs outside the chain), no
  panic of a handler or of another middleware ever reaches the actor, whatever the users and the scheduler do:
  it is never Panicked, so Receive and Stop go on working.
\<close>

theorem recovery_keeps_actor_running:
  assumes "fresh_actor ga" "list_all hooks_return ls" "middleware ga = r # rs" "uc_middleware uc r = Recovery tag log"
    "no_become uc" "runs (served_step uc) ls (served_new ga w0) = Some s"
  shows "ga_state (sv_actor s) \<noteq> Panicked \<and> (\<forall>v. loops (sv_actor s) 0 \<noteq> LRecover v)"
proof -
  have "guarded uc ga"
    using assms(3-5) unfolding guarded_def by blast
  then have "guarded_inv uc ga w0 (served_new ga w0)"
    using assms(1) served_new_inv [OF assms(1) no_become_by_methods [OF assms(5)], of w0]
    by (simp add: guarded_inv_def served_new_def calm_def sys_of_def goactor.defs fresh_actor_def)
  then have "guarded_inv uc ga w0 s"
    using guarded_machine.runs_keeps [OF _ assms(2,6)] by simp
  then show ?thesis
    by (simp add: guarded_inv_def calm_def)
qed

theorem recovery_keeps_actor_running_witness:
  "\<exists>s. runs (served_step plain_code) (map Does (boot 7) @ sends 0 0 @ serves_one) (served_new tally_actor tally_new) = Some s \<and>
     executed (sv_actor s) = [(Built [0], 0)] \<and> ga_state (sv_actor s) \<noteq> Panicked"
proof -
  obtain s where s: "runs (served_step plain_code) (map Does (boot 7) @ sends 0 0 @ serves_one)
      (served_new tally_actor tally_new) = Some s" "executed (sv_actor s) = [(Built [0], 0)]"
    unfolding runs_append boots [OF tally_fresh] by (simp add: plain_code_def tally_run_simps)
  moreover have "list_all hooks_return (map Does (boot (7::nat)) @ sends 0 (0::nat) @ serves_one)" "middleware tally_actor = 0 # []"
    "uc_middleware plain_code 0 = Recovery ''E'' (\<lambda>ctx c w. w)"
    by (simp_all add: tally_actor_def sample_actor_def plain_code_def tally_code_def boot_def sends_def serves_one_def)
  ultimately show ?thesis
    using recovery_keeps_actor_running [OF tally_fresh _ _ _ plain_no_become s(1)] by blast
qed

end
