(* ===== verification/Actor_Commands.thy ===== *)
theory Actor_Commands
  imports Actor_World Command
begin

text \<open>
  The handlers of \<open>Actor_World\<close> on messages that are commands: Execute of a \<open>*GoCommand\<close> inside a
  chain of the reference middlewares of \<open>pkg/middleware\<close>. The middlewares change the clock and the
  metrics only, so through any chain of them each command is executed once and is settled as
  \<open>Command\<close> says.
\<close>

section \<open>The reference middlewares are transparent\<close>

text \<open>
  \<open>world.more\<close> is what a world holds besides the clock and the metrics. A logger leaves it alone.
\<close>

definition discreet :: "('h actor_ctx \<Rightarrow> log_call \<Rightarrow> 'x world_scheme \<Rightarrow> 'x world_scheme) \<Rightarrow> bool" where
  "discreet log \<longleftrightarrow> (\<forall>ctx c w. world.more (log ctx c w) = world.more w)"

definition reference_mw :: "('h, 'm, 'e, 'x world_scheme) middleware \<Rightarrow> bool" where
  "reference_mw mw \<longleftrightarrow> (\<exists>m. mw = MetricsMiddleware m) \<or>
     (\<exists>tag log. discreet log \<and> (mw = Logging tag log \<or> mw = Recovery tag log))"

text \<open>The handler inside is called once, on a world that differs in clock and metrics at most.\<close>

definition transparent ::
  "('h, 'm, 'e, 'x world_scheme) handler_fn \<Rightarrow> ('h, 'm, 'e, 'x world_scheme) handler_fn \<Rightarrow> bool" where
  "transparent h nxt \<longleftrightarrow>
     (\<forall>ctx m e w. \<exists>w1. world.more w1 = world.more w \<and>
        world.more (final_state (h ctx m e w)) = world.more (final_state (nxt ctx m e w1)) \<and>
        (panicked (h ctx m e w) \<longrightarrow> panicked (nxt ctx m e w1)))"

lemma transparent_refl: "transparent h h"
  unfolding transparent_def by blast

lemma transparent_trans: "transparent h k \<Longrightarrow> transparent k l \<Longrightarrow> transparent h l"
  unfolding transparent_def by metis

lemma Logging_transparent:
  assumes "discreet log"
  shows "transparent (Logging tag log nxt) nxt"
  unfolding transparent_def
proof (intro allI)
  fix ctx m e w
  show "\<exists>w1. world.more w1 = world.more w \<and>
      world.more (final_state (Logging tag log nxt ctx m e w)) = world.more (final_state (nxt ctx m e w1)) \<and>
      (panicked (Logging tag log nxt ctx m e w) \<longrightarrow> panicked (nxt ctx m e w1))"
    using assms
    by (intro exI [of _ "log ctx (DebugLog ''actor processing message'' [(''actor'', StrVal (actor_name_of tag ctx))]) w"])
      (auto simp: Logging_def discreet_def Let_def split: outcome.split)
qed

lemma transparentI:
  assumes "\<And>ctx m e w. world.more (final_state (h ctx m e w)) = world.more (final_state (nxt ctx m e w)) \<and>
      (panicked (h ctx m e w) \<longrightarrow> panicked (nxt ctx m e w))"
  shows "transparent h nxt"
  using assms unfolding transparent_def by blast

lemma Recovery_transparent: "discreet log \<Longrightarrow> transparent (Recovery tag log nxt) nxt"
proof (rule transparentI)
  fix ctx m e w
  assume "discreet log"
  then show "world.more (final_state (Recovery tag log nxt ctx m e w)) = world.more (final_state (nxt ctx m e w)) \<and>
      (panicked (Recovery tag log nxt ctx m e w) \<longrightarrow> panicked (nxt ctx m e w))"
    by (cases "nxt ctx m e w") (simp_all add: Recovery_def discreet_def)
qed

lemma Metrics_transparent: "transparent (MetricsMiddleware n nxt) nxt"
  by (rule transparentI) (auto simp: MetricsMiddleware_def Let_def split: outcome.split)

lemma reference_mw_intros:
  "reference_mw (MetricsMiddleware m)" "discreet log \<Longrightarrow> reference_mw (Logging tag log)"
  "discreet log \<Longrightarrow> reference_mw (Recovery tag log)"
  unfolding reference_mw_def by blast+

lemma reference_transparent: "reference_mw mw \<Longrightarrow> transparent (mw nxt) nxt"
  using Logging_transparent Recovery_transparent Metrics_transparent by (auto simp: reference_mw_def)

lemma chain_transparent:
  "\<forall>mw \<in> set ms. reference_mw mw \<Longrightarrow> transparent (buildHandler execute ms) (base_handler execute)"
proof (induction ms)
  case (Cons mw ms)
  then show ?case
    using transparent_trans [OF reference_transparent, of mw "buildHandler execute ms"] by (simp add: buildHandler_foldr)
qed (simp add: buildHandler_foldr transparent_refl)

section \<open>Messages that are commands\<close>

text \<open>
  A message is the address of a command. The world holds the commands, what the entity pointer
  leads to, and the error of the context by the time of asking; \<open>tried\<close> records each Execute with
  the context error it found, \<open>hung\<close> that one blocked on the send of its result.
\<close>

record ('e, 'r) command_world = actor_world +
  the_entity :: 'e
  commands :: "nat \<Rightarrow> ('e, 'r) gocommand"
  ctx_error :: "int \<Rightarrow> gerror option"
  tried :: "(nat \<times> gerror option) list"
  hung :: bool

definition put_command ::
  "nat \<Rightarrow> gerror option \<Rightarrow> ('e, 'r) gocommand \<Rightarrow> 'e \<Rightarrow> ('e, 'r, 'x) command_world_scheme \<Rightarrow> ('e, 'r, 'x) command_world_scheme" where
  "put_command c ce gc ent w =
     w\<lparr>the_entity := ent, commands := (commands w)(c := gc), tried := tried w @ [(c, ce)]\<rparr>"

text \<open>\<open>e.Execute(ctx, entity)\<close> on a command.\<close>

definition Execute_message ::
  "nat \<Rightarrow> handler_id actor_ctx \<Rightarrow> 'p \<Rightarrow> ('e, 'r, 'x) command_world_scheme \<Rightarrow> ('e, 'r, 'x) command_world_scheme outcome" where
  "Execute_message c ctx p w =
     (let ce = ctx_error w (clock w) in
      case Execute ce (commands w c) (the_entity w) of
        ExecReturns gc ent \<Rightarrow> Finishes (put_command c ce gc ent w)
      | ExecPanics v gc ent \<Rightarrow> Panics v (put_command c ce gc ent w)
      | ExecBlocks r gc ent \<Rightarrow> Finishes ((put_command c ce gc ent w)\<lparr>hung := True\<rparr>))"

definition with_commands ::
  "(nat \<Rightarrow> ('e, 'r) delegate_fn) \<Rightarrow> 'e \<Rightarrow> ('e, 'r, 'x) command_world_scheme \<Rightarrow> ('e, 'r, 'x) command_world_scheme" where
  "with_commands fns e w = w\<lparr>the_entity := e, commands := (\<lambda>c. New_command (fns c)), tried := [], hung := False\<rparr>"

section \<open>What the commands amount to\<close>

text \<open>The entity after a list of executions: a cancelled command does not run its delegate.\<close>

fun entity_after :: "(nat \<Rightarrow> ('e, 'r) delegate_fn) \<Rightarrow> (nat \<times> gerror option) list \<Rightarrow> 'e \<Rightarrow> 'e" where
  "entity_after fns [] e = e"
| "entity_after fns ((c, ce) # cs) e = entity_after fns cs (if ce = None then snd (fns c e) else e)"

lemma entity_after_append: "entity_after fns (cs @ ds) e = entity_after fns ds (entity_after fns cs e)"
  by (induction fns cs e rule: entity_after.induct) auto

text \<open>How a command ends that found the context error \<open>ce\<close> and the entity \<open>e\<close>.\<close>

definition settled :: "('e, 'r) delegate_fn \<Rightarrow> gerror option \<Rightarrow> 'e \<Rightarrow> ('e, 'r) gocommand \<Rightarrow> bool" where
  "settled fn ce e gc \<longleftrightarrow> cclosed (Done_chan gc) \<and>
     (State_of gc, Error_of gc, cbuf (Done_chan gc)) =
       (case ce of
          Some x \<Rightarrow> (CmdCanceled, Some (Joined [CommandErr ErrCommandContextCancelled, x]), [])
        | None \<Rightarrow>
            (case fst (fn e) of
               DelegatePanics p \<Rightarrow> (CmdPanic, Some (CommandErr ErrCommandPanic), [])
             | Returns v (Some err) \<Rightarrow> (CmdFailed, Some err, [])
             | Returns v None \<Rightarrow> (CmdFinished, None, [v])))"

lemma Execute_new:
  "\<exists>gc. Execute ce (New_command fn) e = ExecReturns gc (if ce = None then snd (fn e) else e) \<and> settled fn ce e gc"
proof (cases ce)
  case None
  obtain res e' where "fn e = (res, e')"
    by fastforce
  with None show ?thesis
    by (cases res; cases "case res of Returns v x \<Rightarrow> x | _ \<Rightarrow> None")
      (auto simp: execute_defs op_defs settled_def split: option.splits)
qed (auto simp: Execute_def op_defs settled_def)

definition commands_ok ::
  "(nat \<Rightarrow> ('e, 'r) delegate_fn) \<Rightarrow> 'e \<Rightarrow> nat list \<Rightarrow> ('e, 'r, 'x) command_world_scheme \<Rightarrow> bool" where
  "commands_ok fns e cs w \<longleftrightarrow>
     map fst (tried w) = cs \<and> the_entity w = entity_after fns (tried w) e \<and> \<not> hung w \<and>
     (\<forall>c. c \<notin> set cs \<longrightarrow> commands w c = New_command (fns c)) \<and>
     (\<forall>pre c ce post. tried w = pre @ (c, ce) # post \<longrightarrow> settled (fns c) ce (entity_after fns pre e) (commands w c))"

lemma more_fields:
  fixes w w' :: "('e, 'r, 'x) command_world_scheme"
  assumes "world.more w = world.more w'"
  shows "own w = own w'" "the_entity w = the_entity w'" "commands w = commands w'" "tried w = tried w'" "hung w = hung w'"
  using assms by (cases w; cases w'; simp)+

lemma commands_ok_more: "world.more w = world.more w' \<Longrightarrow> commands_ok fns e cs w = commands_ok fns e cs w'"
  by (simp add: commands_ok_def more_fields [of w w'])

lemma commands_ok_own [simp]: "commands_ok fns e cs (w\<lparr>own := ac\<rparr>) = commands_ok fns e cs w"
  by (simp add: commands_ok_def)

lemma snoc_split:
  "xs @ [x] = pre @ y # post \<longleftrightarrow> post = [] \<and> pre = xs \<and> y = x \<or> (\<exists>zs. post = zs @ [x] \<and> xs = pre @ y # zs)"
  by (cases post rule: rev_cases) auto

lemma message_ok:
  assumes "commands_ok fns e cs w" "c \<notin> set cs"
  obtains w' where "Execute_message c ctx p w = Finishes w'" "own w' = own w" "commands_ok fns e (cs @ [c]) w'"
proof -
  have new: "commands w c = New_command (fns c)"
    using assms by (simp add: commands_ok_def)
  let ?ce = "ctx_error w (clock w)"
  obtain gc where gc: "Execute ?ce (New_command (fns c)) (the_entity w) =
      ExecReturns gc (if ?ce = None then snd (fns c (the_entity w)) else the_entity w)"
    "settled (fns c) ?ce (the_entity w) gc"
    using Execute_new by metis
  have "(d, de) \<in> set (tried w) \<Longrightarrow> d \<noteq> c" for d de
    using assms by (force simp: commands_ok_def)
  with assms gc(2) have "commands_ok fns e (cs @ [c]) (put_command c ?ce gc (if ?ce = None then snd (fns c (the_entity w)) else the_entity w) w)"
    by (auto simp: commands_ok_def put_command_def entity_after_append snoc_split)
  moreover have "own (put_command c ?ce gc ent w) = own w" for ent
    by (simp add: put_command_def)
  ultimately show ?thesis
    using gc(1) new that by (simp add: Execute_message_def Let_def)
qed

section \<open>The actor serves commands\<close>

text \<open>Every message is a command, every middleware of the actor one of the reference middlewares.\<close>

definition serves_commands ::
  "(nat, 'p, ('e, 'r, 'x) command_world_scheme) user_code \<Rightarrow> nat goactor \<Rightarrow> bool" where
  "serves_commands uc ga \<longleftrightarrow> by_methods uc \<and> uc_execute uc = Execute_message \<and>
     (\<forall>n \<in> set (middleware ga). reference_mw (uc_middleware uc n))"

lemma handler_passes:
  fixes uc :: "(nat, 'p, ('e, 'r, 'x) command_world_scheme) user_code"
  assumes "uc_execute uc = Execute_message" "\<forall>n \<in> set ms. reference_mw (uc_middleware uc n)"
  obtains ctx w1 where "world.more w1 = world.more w"
    "world.more (final_state (call_handler uc (Built ms) p c w)) = world.more (final_state (Execute_message c ctx p w1))"
proof -
  let ?h = "buildHandler Execute_message (map (uc_middleware uc) ms)"
    and ?ctx = "withGoActorContext (uc_tag uc) (uc_ctx uc) (own w)"
  have "call_handler uc (Built ms) p c w = ?h ?ctx c p w"
    using assms(1) by (simp add: call_handler_def)
  moreover have "transparent ?h (base_handler Execute_message)"
    using assms(2) by (intro chain_transparent) simp
  ultimately show ?thesis
    using that unfolding transparent_def base_handler_def by metis
qed

lemma handler_ok:
  assumes "serves_commands uc ga" "commands_ok fns e cs w" "c \<notin> set cs"
  shows "commands_ok fns e (cs @ [c]) (final_state (call_handler uc (Built (middleware ga)) p c w)) \<and>
    own (final_state (call_handler uc (Built (middleware ga)) p c w)) = own w"
proof -
  obtain ctx w1 where w1: "world.more w1 = world.more w"
    "world.more (final_state (call_handler uc (Built (middleware ga)) p c w)) = world.more (final_state (Execute_message c ctx p w1))"
    using handler_passes assms(1) unfolding serves_commands_def by metis
  obtain w' where w': "Execute_message c ctx p w1 = Finishes w'" "own w' = own w1" "commands_ok fns e (cs @ [c]) w'"
    using message_ok [OF _ assms(3)] assms(2) commands_ok_more [OF w1(1)] by metis
  with w1(2) have "world.more (final_state (call_handler uc (Built (middleware ga)) p c w)) = world.more w'"
    by simp
  from commands_ok_more [OF this] more_fields(1) [OF this] more_fields(1) [OF w1(1)] w'(2,3) show ?thesis
    by simp
qed

lemma serve_seq_ok:
  assumes "serves_commands uc ga" "commands_ok fns e cs w" "distinct (cs @ ms)"
    "fst (abs_stack (ac_behavior (own w))) = Built (middleware ga)"
  shows "commands_ok fns e (cs @ ms) (snd (serve_seq uc p ms w))"
  using assms(2-)
proof (induction ms arbitrary: cs w)
  case (Cons m ms)
  let ?w = "final_state (call_handler uc (Built (middleware ga)) p m w)"
  have "commands_ok fns e (cs @ [m]) ?w" "own ?w = own w"
    using handler_ok [OF assms(1) Cons.prems(1), of m p] Cons.prems(2) by auto
  with Cons.IH [of "cs @ [m]" ?w] Cons.prems show ?case
    by (simp add: Let_def)
qed simp

text \<open>
  C3: Asked through any chain of the reference middlewares, under every schedule, each command the
  actor has finished was executed exactly once, in the order of acceptance; its channel is closed,
  and its state, error and result are those of its delegate on the entity that the earlier commands
  left, or of its cancellation; no Execute blocks.
\<close>

theorem commands_settled_through_middleware:
  fixes w0 :: "('e, 'r, 'x) command_world_scheme"
  assumes "fresh_actor ga" "by_methods uc" "uc_execute uc = Execute_message"
    "\<forall>n \<in> set (middleware ga). reference_mw (uc_middleware uc n)"
    "runs (served_step uc) ls (served_new ga (with_commands fns e w0)) = Some s" "distinct (accepted (sv_actor s))"
    "sv_world s = w"
  shows "map fst (tried w) = map snd (finished (loops (sv_actor s) 0) (actor_sys.executed (sv_actor s))) \<and>
    the_entity w = entity_after fns (tried w) e \<and> \<not> hung w \<and>
    (\<forall>pre c ce post. tried w = pre @ (c, ce) # post \<longrightarrow> settled (fns c) ce (entity_after fns pre e) (commands w c))"
proof -
  let ?w1 = "(with_commands fns e w0)\<lparr>own := first_ctx ga\<rparr>"
    and ?done = "finished (loops (sv_actor s) 0) (actor_sys.executed (sv_actor s))"
  have inv: "served_inv uc ga (with_commands fns e w0) s"
    using served_run_inv [OF assms(1,2,5)] .
  have new: "commands_ok fns e [] ?w1"
    by (simp add: commands_ok_def with_commands_def)
  have "commands_ok fns e (map snd ?done) w"
  proof (cases "loops (sv_actor s) 0 = NoLoop")
    case True
    with inv assms(7) have "actor_sys.executed (sv_actor s) = []" "w\<lparr>own := first_ctx ga\<rparr> = ?w1"
      by (auto simp: served_inv_def actor_serves_def serve_ok_def)
    with True new commands_ok_own [of fns e "[]" "first_ctx ga" w] show ?thesis
      by (simp add: finished_def)
  next
    case False
    with inv obtain p where p: "serve_seq uc p (map snd ?done) ?w1 = (?done, w)"
      using assms(7) by (auto simp: served_inv_def actor_serves_def serve_ok_def)
    have "\<exists>rest. accepted (sv_actor s) = map snd (actor_sys.executed (sv_actor s)) @ rest"
      using inv by (cases "loops (sv_actor s) 0") (auto simp: served_inv_def actor_inv_def queue_inv_def queue_ok_def)
    with assms(6) have "distinct (map snd ?done)"
      by (auto simp: finished_def map_butlast distinct_butlast)
    with serve_seq_ok [where uc = uc and ga = ga and p = p and ms = "map snd ?done", OF _ new] p assms(2-4) show ?thesis
      by (simp add: serves_commands_def first_ctx_def newBehaviorStack_def abs_stack_def)
  qed
  then show ?thesis
    by (simp add: commands_ok_def)
qed


text \<open>Command 0 adds 3 to the entity, command 1 panics after it added 1, command 2 doubles it.\<close>

definition sample_delegates :: "nat \<Rightarrow> (int, int) delegate_fn" where
  "sample_delegates c n =
     (if c = 0 then (Returns (n + 3) None, n + 3) else if c = 1 then (DelegatePanics (PanicValue 0), n + 1)
      else (Returns (2 * n) None, 2 * n))"

definition command_code :: "(nat, nat, (int, int) command_world) user_code" where
  "command_code = \<lparr>uc_execute = Execute_message,
     uc_middleware = (\<lambda>n. if n = 0 then Logging ''E'' (\<lambda>ctx c w. w\<lparr>clock := clock w + 1\<rparr>) else MetricsMiddleware n),
     uc_handler = (\<lambda>n ctx m e w. Finishes w), uc_tag = ''E'', uc_ctx = BaseContext\<rparr>"

definition command_actor :: "nat goactor" where
  "command_actor = sample_actor\<lparr>middleware := [0, 1], inputBufSize := 3, input := make_chan 3\<rparr>"

definition command_start :: "(int, int) command_world" where
  "command_start = \<lparr>clock = 0, metrics_at = (\<lambda>_. \<lparr>messageCount = 0, totalDurationNs = 0\<rparr>),
     own = \<lparr>ac_behavior = newBehaviorStack (Built []), ac_name = []\<rparr>, the_entity = 0,
     commands = (\<lambda>c. New_command (sample_delegates c)), ctx_error = (\<lambda>t. None), tried = [], hung = False\<rparr>"

lemma command_fresh: "fresh_actor command_actor"
  by (simp add: fresh_actor_def command_actor_def sample_actor_def default_actor_def)

lemma command_reference: "reference_mw (uc_middleware command_code n)"
  by (cases "n = 0") (simp_all add: command_code_def reference_mw_intros discreet_def)

lemma Execute_message_own: "own (final_state (Execute_message c ctx p w)) = own w"
  by (simp add: Execute_message_def put_command_def Let_def split: exec_outcome.split)

lemma command_by_methods: "by_methods command_code"
proof (rule no_become_by_methods)
  have "own (final_state (call_handler command_code h p c w)) = own w" for h p c w
  proof (cases h)
    case (Built ms)
    have "uc_execute command_code = Execute_message"
      by (simp add: command_code_def)
    then obtain ctx w1 where "world.more w1 = world.more w" "world.more (final_state (call_handler command_code h p c w)) =
        world.more (final_state (Execute_message c ctx p w1))"
      using handler_passes [of command_code ms w p c] command_reference Built by metis
    from more_fields(1) [OF this(1)] more_fields(1) [OF this(2)] show ?thesis
      by (simp add: Execute_message_own)
  qed (simp add: call_handler_def command_code_def)
  then show "no_become command_code"
    unfolding no_become_def by blast
qed

definition command_labels :: "(nat, nat) served_label list" where
  "command_labels = map Does (boot 7) @ sends 0 0 @ sends 1 1 @ sends 2 2 @ serves_one @ serves_one @ serves_one"

lemmas command_run_simps = sends_def serves_one_def does_def handler_returns_def call_handler_def run_simps booted_def
  command_actor_def sample_actor_def default_actor_def first_ctx_def follow_def make_chan_def Current_def
  newBehaviorStack_def command_code_def buildHandler_foldr base_handler_def command_start_def with_commands_def

theorem commands_settled_through_middleware_witness:
  "\<exists>s. runs (served_step command_code) command_labels (served_new command_actor (with_commands sample_delegates 5 command_start)) = Some s \<and>
     tried (sv_world s) = [(0, None), (1, None), (2, None)] \<and> the_entity (sv_world s) = 18 \<and>
     settled (sample_delegates 1) None 8 (commands (sv_world s) 1)"
proof -
  obtain gc0 gc1 gc2 where ex: "Execute None (New_command (sample_delegates 0)) 5 = ExecReturns gc0 8"
    "Execute None (New_command (sample_delegates (Suc 0))) 8 = ExecReturns gc1 9"
    "Execute None (New_command (sample_delegates 2)) 9 = ExecReturns gc2 18"
    using Execute_new [of None "sample_delegates 0" 5] Execute_new [of None "sample_delegates 1" 8]
      Execute_new [of None "sample_delegates 2" 9] by (auto simp: sample_delegates_def)
  obtain s where s: "runs (served_step command_code) command_labels
      (served_new command_actor (with_commands sample_delegates 5 command_start)) = Some s"
    "tried (sv_world s) = [(0, None), (1, None), (2, None)]" "accepted (sv_actor s) = [0, 1, 2]"
    unfolding command_labels_def runs_append boots [OF command_fresh]
    by (simp add: command_run_simps Execute_message_def put_command_def ex Logging_def MetricsMiddleware_def)
  have "uc_execute command_code = Execute_message" "distinct (accepted (sv_actor s))"
    by (simp_all add: s(3) command_code_def)
  from commands_settled_through_middleware [OF command_fresh command_by_methods this(1) _ s(1) this(2) refl] command_reference
  have final: "the_entity (sv_world s) = entity_after sample_delegates (tried (sv_world s)) 5"
    "\<And>pre c ce post. tried (sv_world s) = pre @ (c, ce) # post \<Longrightarrow>
      settled (sample_delegates c) ce (entity_after sample_delegates pre 5) (commands (sv_world s) c)"
    by blast+
  have "the_entity (sv_world s) = 18" "settled (sample_delegates 1) None 8 (commands (sv_world s) 1)"
    using final(1) final(2) [of "[(0, None)]" 1 None "[(2, None)]"] by (simp_all add: s(2) sample_delegates_def)
  with s(1,2) show ?thesis
    by blast
qed

end
