(* ===== verification/Actor_Metrics.thy ===== *)
theory Actor_Metrics
  imports Actor_World
begin

text \<open>
  The metrics middleware on a running actor: what \<open>Middleware\<close> says of one handler that serves a list
  of messages, on the machine of \<open>Actor_World\<close>.
\<close>

section \<open>One handler for all messages\<close>

text \<open>Without Become the server of \<open>Actor_World\<close> serves every message by the actor's chain.\<close>

lemma serve_seq_serve:
  assumes "no_become uc" "fst (abs_stack (ac_behavior (own w))) = h"
  shows "serve_seq uc e ms w =
    (map (\<lambda>m. (h, m)) ms, serve (denote uc h) (withGoActorContext (uc_tag uc) (uc_ctx uc) (own w)) e ms w)"
  using assms(2)
proof (induction ms arbitrary: w)
  case (Cons m ms)
  let ?w = "final_state (call_handler uc h e m w)"
  have "own ?w = own w"
    using assms(1) by (simp add: no_become_def)
  with Cons.IH [of ?w] Cons.prems show ?case
    by (simp add: Let_def call_handler_def)
qed simp

text \<open>The durations of the messages that returned normally, for an actor with metrics outermost.\<close>

definition durations_of ::
  "('m, 'e, 'x actor_world_scheme) user_code \<Rightarrow> nat list \<Rightarrow> nat \<Rightarrow> 'e \<Rightarrow> 'm list \<Rightarrow> 'x actor_world_scheme \<Rightarrow> int list" where
  "durations_of uc ks m e ms w =
     finished_durations (denote uc (Built ks)) (MetricsMiddleware m) (withGoActorContext (uc_tag uc) (uc_ctx uc) (own w)) e ms w"

lemma metrics_at_own [simp]: "metrics_at (w\<lparr>own := ac\<rparr>) = metrics_at w"
  by simp

section \<open>Properties\<close>

text \<open>
  C36: On an actor whose outermost middleware is a Metrics that nothing else touches, and whose handlers leave
  the behavior stack alone (no Become, BecomeReplace or Unbecome: a handler installed by Become runs outside the
  chain and is not counted), under every schedule, the message count is the number of handled messages whose
  handler returned (one that panicked is not counted), and the total is the sum of their durations, both modulo 2^64.
\<close>

theorem actor_metrics_exact:
  fixes w0 :: "'x actor_world_scheme"
  assumes "fresh_actor ga" "no_become uc" "middleware ga = k # ks" "uc_middleware uc k = MetricsMiddleware m"
    "\<forall>ctx c e w. metrics_at (final_state (denote uc (Built ks) ctx c e w)) m = metrics_at w m"
    "runs (served_step uc) ls (served_new ga w0) = Some s" "loops (sv_actor s) 0 \<noteq> NoLoop"
  shows "\<exists>e ds. entity_of (sv_actor s) 0 = Some e \<and>
    ds = durations_of uc ks m e (map snd (finished (loops (sv_actor s) 0) (executed (sv_actor s)))) (w0\<lparr>own := first_ctx ga\<rparr>) \<and>
    messageCount (metrics_at (sv_world s) m) = messageCount (metrics_at w0 m) + of_nat (length ds) \<and>
    totalDurationNs (metrics_at (sv_world s) m) = totalDurationNs (metrics_at w0 m) + word_of_int (sum_list ds)"
proof -
  let ?w1 = "w0\<lparr>own := first_ctx ga\<rparr>" and ?done = "finished (loops (sv_actor s) 0) (executed (sv_actor s))"
    and ?h = "denote uc (Built ks)" and ?ctx = "withGoActorContext (uc_tag uc) (uc_ctx uc) (first_ctx ga)"
  have "served_inv uc ga w0 s"
    using served_run_inv [OF assms(1) no_become_by_methods [OF assms(2)] assms(6)] .
  then obtain e where e: "entity_of (sv_actor s) 0 = Some e" "serve_seq uc e (map snd ?done) ?w1 = (?done, sv_world s)"
    using assms(7) by (auto simp: served_inv_def actor_serves_def serve_ok_def)
  have "denote uc (Built (middleware ga)) = MetricsMiddleware m ?h"
    using assms(3,4) by (simp add: buildHandler_foldr)
  moreover have "fst (abs_stack (ac_behavior (own ?w1))) = Built (middleware ga)"
    by (simp add: first_ctx_def newBehaviorStack_def abs_stack_def)
  ultimately have "sv_world s = serve (MetricsMiddleware m ?h) ?ctx e (map snd ?done) ?w1"
    using serve_seq_serve [OF assms(2), of ?w1 _ e "map snd ?done"] e(2) by simp
  with metrics_account_for_finished [where h = ?h and m = m and ctx = ?ctx and ent = e and es = "map snd ?done" and w = ?w1]
    assms(5) e(1) show ?thesis
    by (simp add: durations_of_def)
qed

text \<open>
  Execute of 0 panics, any other message takes as many nanoseconds as it says; the actor has metrics
  around a middleware that takes one more.
\<close>

definition slow_code :: "(nat, nat, tally) user_code" where
  "slow_code = tally_code\<lparr>uc_execute := (\<lambda>m ctx e w.
       if m = 0 then Panics (PanicValue 0) w else Finishes (w\<lparr>clock := clock w + int m\<rparr>)),
     uc_middleware := (\<lambda>n. if n = 0 then MetricsMiddleware 3
       else (\<lambda>nxt ctx m e w. nxt ctx m e (w\<lparr>clock := clock w + 1\<rparr>)))\<rparr>"

definition slow_actor :: "nat goactor" where
  "slow_actor = tally_actor\<lparr>middleware := [0, 1]\<rparr>"

lemma Metrics_own: "own (final_state (MetricsMiddleware k nxt ctx c e w)) = own (final_state (nxt ctx c e w))"
  by (cases "nxt ctx c e w") (simp_all add: MetricsMiddleware_def Let_def)

lemma slow_chain_own:
  fixes w :: tally
  shows "own (final_state (buildHandler (uc_execute slow_code) (map (uc_middleware slow_code) ms) ctx c e w)) = own w"
proof (induction ms arbitrary: w)
  case Nil
  then show ?case
    by (simp add: buildHandler_foldr base_handler_def slow_code_def)
next
  case (Cons n ms)
  show ?case
    using Cons.IH [of w] Cons.IH [of "w\<lparr>clock := clock w + 1\<rparr>"]
    by (cases "n = 0") (simp_all add: buildHandler_foldr slow_code_def Metrics_own)
qed

lemma slow_no_become: "no_become slow_code"
proof -
  have "own (final_state (call_handler slow_code h e c w)) = own w" for h e c and w :: tally
    by (cases h) (simp_all add: call_handler_def slow_chain_own, simp add: slow_code_def tally_code_def)
  then show ?thesis
    unfolding no_become_def by blast
qed

theorem actor_metrics_exact_witness:
  "\<exists>s. runs (served_step slow_code) (map Does (boot 7) @ sends 0 5 @ sends 1 8 @ serves_one @ serves_one) (served_new slow_actor tally_new) = Some s \<and>
     messageCount (metrics_at (sv_world s) 3) = 2 \<and> totalDurationNs (metrics_at (sv_world s) 3) = 15"
proof -
  have fresh: "fresh_actor slow_actor"
    using tally_fresh by (simp add: slow_actor_def fresh_actor_def)
  obtain s where s: "runs (served_step slow_code) (map Does (boot 7) @ sends 0 5 @ sends 1 8 @ serves_one @ serves_one)
      (served_new slow_actor tally_new) = Some s" "loops (sv_actor s) 0 = LSelect" "map snd (executed (sv_actor s)) = [5, 8]"
    unfolding runs_append boots [OF fresh]
    by (simp add: slow_code_def slow_actor_def tally_run_simps MetricsMiddleware_def Let_def)
  have "middleware slow_actor = [0, 1]" "uc_middleware slow_code 0 = MetricsMiddleware 3"
    "\<forall>ctx c e w. metrics_at (final_state (denote slow_code (Built [1]) ctx c e w)) 3 = metrics_at w 3"
    by (simp_all add: slow_actor_def slow_code_def buildHandler_foldr base_handler_def)
  from actor_metrics_exact [OF fresh slow_no_become this s(1)] s obtain e ds where ds:
    "ds = durations_of slow_code [1] 3 e [5, 8] (tally_new\<lparr>own := first_ctx slow_actor\<rparr>)"
    "messageCount (metrics_at (sv_world s) 3) = of_nat (length ds)" "totalDurationNs (metrics_at (sv_world s) 3) = word_of_int (sum_list ds)"
    by (auto simp: finished_def tally_new_def)
  from ds(1) have "ds = [6, 9]"
    by (simp add: durations_of_def slow_code_def buildHandler_foldr base_handler_def MetricsMiddleware_def Let_def tally_new_def
        time_since_def max_duration_def min_duration_def)
  with s(1) ds(2,3) show ?thesis
    by auto
qed

end
