(* ===== verification/Locks.thy ===== *)
theory Locks
  imports Prelude
begin

text \<open>
  Objects whose methods run under a \<open>sync.RWMutex\<close> or \<open>sync.Mutex\<close> and then call user code without
  it, as \<open>system.ActorSystem\<close>, \<open>supervision.Supervisor\<close> and \<open>deadletter.Queue\<close> do. The other theories
  take a critical section as one step; here it is a sequence of reads and writes, between which
  other goroutines run, the lock has its own state, and the user code may call the object again. Locale
  \<open>guarded_object\<close> shows, for every object that meets its laws, that the calls are answered as if
  they were made one at a time, and that the lock can always be had again.
\<close>

section \<open>The machine\<close>

datatype lock_mode = Shared | Exclusive

text \<open>
  What a method of an object is, for a type \<open>'o\<close> of calls: the lock it takes, where its critical
  section starts, the next action there (which ends it or not), and what the method does after
  it has released the lock: further calls on the object and calls of user code.
\<close>

datatype ('o, 'u) item = Calls 'o | UserCode 'u

record ('o, 'p, 'a, 'u, 's) methods =
  mode_of :: "'o \<Rightarrow> lock_mode"
  entry_of :: "'o \<Rightarrow> 'p"
  section_of :: "'o \<Rightarrow> 'p \<Rightarrow> 's \<Rightarrow> ('p + 'a) \<times> 's"
  after_of :: "'o \<Rightarrow> 'a \<Rightarrow> ('o, 'u) item list"

text \<open>
  A goroutine is away from the lock, at its Lock or RLock, in Lock waiting for the readers, in the
  critical section, or at the Unlock. Its stack has, for each method it is in, what is left to do.
\<close>

datatype ('o, 'p, 'a) stage = Away | Asks 'o | Waits 'o | Inside 'o 'p | Leaves 'o 'a

text \<open>
  The lock: the readers it has, the writer that has claimed it (which keeps new readers and writers
  out), and whether that writer has it. A Mutex is the case of no readers.
\<close>

record ('o, 'p, 'a, 'u, 's) guarded =
  object :: 's
  readers :: "nat list"
  writer :: "nat option"
  writing :: bool
  stages :: "nat \<Rightarrow> ('o, 'p, 'a) stage"
  stacks :: "nat \<Rightarrow> ('o, 'u) item list list"
  call_log :: "(nat \<times> 'o \<times> 'a) list"

definition guarded_new :: "'s \<Rightarrow> ('o, 'p, 'a, 'u, 's) guarded" where
  "guarded_new s =
     \<lparr>object = s, readers = [], writer = None, writing = False, stages = (\<lambda>_. Away), stacks = (\<lambda>_. []), call_log = []\<rparr>"

definition at_stage ::
  "nat \<Rightarrow> ('o, 'p, 'a) stage \<Rightarrow> ('o, 'p, 'a, 'u, 's) guarded \<Rightarrow> ('o, 'p, 'a, 'u, 's) guarded" where
  "at_stage i g w = w\<lparr>stages := (stages w)(i := g)\<rparr>"

definition next_item :: "nat \<Rightarrow> ('o, 'p, 'a, 'u, 's) guarded \<Rightarrow> ('o, 'p, 'a, 'u, 's) guarded option" where
  "next_item i w =
     (case stacks w i of
        [] # fs \<Rightarrow> Some (w\<lparr>stacks := (stacks w)(i := fs)\<rparr>)
      | (Calls c # is) # fs \<Rightarrow> Some (at_stage i (Asks c) (w\<lparr>stacks := (stacks w)(i := is # fs)\<rparr>))
      | _ \<Rightarrow> None)"

definition take_lock ::
  "('o, 'p, 'a, 'u, 's) methods \<Rightarrow> nat \<Rightarrow> 'o \<Rightarrow> ('o, 'p, 'a, 'u, 's) guarded \<Rightarrow> ('o, 'p, 'a, 'u, 's) guarded option" where
  "take_lock M i c w =
     (if writer w \<noteq> None then None
      else
        (case mode_of M c of
           Shared \<Rightarrow> Some (at_stage i (Inside c (entry_of M c)) (w\<lparr>readers := i # readers w\<rparr>))
         | Exclusive \<Rightarrow> Some (at_stage i (Waits c) (w\<lparr>writer := Some i\<rparr>))))"

definition get_lock ::
  "('o, 'p, 'a, 'u, 's) methods \<Rightarrow> nat \<Rightarrow> 'o \<Rightarrow> ('o, 'p, 'a, 'u, 's) guarded \<Rightarrow> ('o, 'p, 'a, 'u, 's) guarded option" where
  "get_lock M i c w =
     (if readers w = [] then Some (at_stage i (Inside c (entry_of M c)) (w\<lparr>writing := True\<rparr>)) else None)"

definition run_section ::
  "('o, 'p, 'a, 'u, 's) methods \<Rightarrow> nat \<Rightarrow> 'o \<Rightarrow> 'p \<Rightarrow> ('o, 'p, 'a, 'u, 's) guarded \<Rightarrow> ('o, 'p, 'a, 'u, 's) guarded" where
  "run_section M i c p w =
     (case section_of M c p (object w) of
        (Inl q, s) \<Rightarrow> at_stage i (Inside c q) (w\<lparr>object := s\<rparr>)
      | (Inr a, s) \<Rightarrow> at_stage i (Leaves c a) (w\<lparr>object := s\<rparr>))"

definition release ::
  "('o, 'p, 'a, 'u, 's) methods \<Rightarrow> nat \<Rightarrow> 'o \<Rightarrow> 'a \<Rightarrow> ('o, 'p, 'a, 'u, 's) guarded \<Rightarrow> ('o, 'p, 'a, 'u, 's) guarded" where
  "release M i c a w =
     at_stage i Away
       ((case mode_of M c of
           Shared \<Rightarrow> w\<lparr>readers := removeAll i (readers w)\<rparr>
         | Exclusive \<Rightarrow> w\<lparr>writer := None, writing := False\<rparr>)
        \<lparr>stacks := (stacks w)(i := (case stacks w i of [] \<Rightarrow> [after_of M c a] | f # fs \<Rightarrow> (after_of M c a @ f) # fs)),
         call_log := call_log w @ [(i, c, a)]\<rparr>)"

text \<open>
  User code, on its own goroutine or called by a method, may call the object at any time, and
  returns when it likes. Everything else a goroutine does is determined.
\<close>

datatype 'o guard_label = UserCalls nat 'o | UserReturns nat | Goes nat

definition user_calls ::
  "nat \<Rightarrow> 'o \<Rightarrow> ('o, 'p, 'a, 'u, 's) guarded \<Rightarrow> ('o, 'p, 'a, 'u, 's) guarded option" where
  "user_calls i c w =
     (case (stages w i, stacks w i) of
        (Away, []) \<Rightarrow> Some (w\<lparr>stacks := (stacks w)(i := [[Calls c]])\<rparr>)
      | (Away, (UserCode u # is) # fs) \<Rightarrow>
          Some (w\<lparr>stacks := (stacks w)(i := [Calls c] # (UserCode u # is) # fs)\<rparr>)
      | _ \<Rightarrow> None)"

definition user_returns :: "nat \<Rightarrow> ('o, 'p, 'a, 'u, 's) guarded \<Rightarrow> ('o, 'p, 'a, 'u, 's) guarded option" where
  "user_returns i w =
     (case (stages w i, stacks w i) of
        (Away, (UserCode u # is) # fs) \<Rightarrow> Some (w\<lparr>stacks := (stacks w)(i := is # fs)\<rparr>)
      | _ \<Rightarrow> None)"

definition goes ::
  "('o, 'p, 'a, 'u, 's) methods \<Rightarrow> nat \<Rightarrow> ('o, 'p, 'a, 'u, 's) guarded \<Rightarrow> ('o, 'p, 'a, 'u, 's) guarded option" where
  "goes M i w =
     (case stages w i of
        Away \<Rightarrow> next_item i w
      | Asks c \<Rightarrow> take_lock M i c w
      | Waits c \<Rightarrow> get_lock M i c w
      | Inside c p \<Rightarrow> Some (run_section M i c p w)
      | Leaves c a \<Rightarrow> Some (release M i c a w))"

fun guard_step ::
  "('o, 'p, 'a, 'u, 's) methods \<Rightarrow> 'o guard_label \<Rightarrow> ('o, 'p, 'a, 'u, 's) guarded \<Rightarrow> ('o, 'p, 'a, 'u, 's) guarded option"
where
  "guard_step M (UserCalls i c) w = user_calls i c w"
| "guard_step M (UserReturns i) w = user_returns i w"
| "guard_step M (Goes i) w = goes M i w"

lemmas guard_defs = at_stage_def next_item_def take_lock_def get_lock_def run_section_def release_def
  user_calls_def user_returns_def goes_def

lemmas guard_splits = option.split if_split stage.split list.split item.split sum.split prod.split lock_mode.split

section \<open>The lock\<close>

fun in_shared :: "('o \<Rightarrow> lock_mode) \<Rightarrow> ('o, 'p, 'a) stage \<Rightarrow> bool" where
  "in_shared md (Inside c p) \<longleftrightarrow> md c = Shared"
| "in_shared md (Leaves c a) \<longleftrightarrow> md c = Shared"
| "in_shared md _ \<longleftrightarrow> False"

fun in_exclusive :: "('o \<Rightarrow> lock_mode) \<Rightarrow> ('o, 'p, 'a) stage \<Rightarrow> bool" where
  "in_exclusive md (Inside c p) \<longleftrightarrow> md c = Exclusive"
| "in_exclusive md (Leaves c a) \<longleftrightarrow> md c = Exclusive"
| "in_exclusive md _ \<longleftrightarrow> False"

fun waiting_for :: "('o \<Rightarrow> lock_mode) \<Rightarrow> ('o, 'p, 'a) stage \<Rightarrow> bool" where
  "waiting_for md (Waits c) \<longleftrightarrow> md c = Exclusive"
| "waiting_for md _ \<longleftrightarrow> False"

text \<open>The lock's state is what the goroutines think it is.\<close>

definition lock_ok :: "('o \<Rightarrow> lock_mode) \<Rightarrow> ('o, 'p, 'a, 'u, 's) guarded \<Rightarrow> bool" where
  "lock_ok md w \<longleftrightarrow>
     (\<forall>i. i \<in> set (readers w) \<longleftrightarrow> in_shared md (stages w i)) \<and>
     (\<forall>i. writer w = Some i \<longleftrightarrow> waiting_for md (stages w i) \<or> in_exclusive md (stages w i)) \<and>
     (\<forall>i. in_exclusive md (stages w i) \<longrightarrow> writing w) \<and> (\<forall>i. waiting_for md (stages w i) \<longrightarrow> \<not> writing w) \<and>
     (writing w \<longrightarrow> writer w \<noteq> None \<and> readers w = []) \<and> (\<forall>i c. stages w i = Waits c \<longrightarrow> md c = Exclusive)"

lemma guarded_new_lock_ok [simp]: "lock_ok md (guarded_new s)"
  by (simp add: lock_ok_def guarded_new_def)

lemma in_shared_not_exclusive: "in_shared md g \<Longrightarrow> \<not> in_exclusive md g \<and> \<not> waiting_for md g"
  by (cases g) auto

text \<open>One goroutine moves: what has to be shown of the others follows from the lock.\<close>

lemma lock_ok_cong:
  assumes "lock_ok md w" "readers t = readers w" "writer t = writer w" "writing t = writing w"
    "stages t = (stages w)(i := g)" "in_shared md g = in_shared md (stages w i)"
    "in_exclusive md g = in_exclusive md (stages w i)" "waiting_for md g = waiting_for md (stages w i)"
    "\<And>c. g = Waits c \<Longrightarrow> md c = Exclusive"
  shows "lock_ok md t"
  using assms unfolding lock_ok_def by (auto simp: fun_upd_def)

lemma take_lock_ok:
  assumes "lock_ok (mode_of M) w" "stages w i = Asks c"
  shows "keeps (lock_ok (mode_of M)) (take_lock M i c w)"
proof (cases "mode_of M c")
  case Shared
  with assms show ?thesis
    by (auto simp: take_lock_def at_stage_def lock_ok_def)
next
  case Exclusive
  with assms show ?thesis
    by (auto simp: take_lock_def at_stage_def lock_ok_def)
qed

lemma get_lock_ok:
  assumes "lock_ok (mode_of M) w" "stages w i = Waits c"
  shows "keeps (lock_ok (mode_of M)) (get_lock M i c w)"
proof -
  have "writer w = Some i" "mode_of M c = Exclusive"
    using assms by (auto simp: lock_ok_def)
  with assms show ?thesis
    by (auto simp: get_lock_def at_stage_def lock_ok_def)
qed

lemma run_section_ok:
  assumes "lock_ok (mode_of M) w" "stages w i = Inside c p"
  shows "lock_ok (mode_of M) (run_section M i c p w)"
  using assms
  by (auto simp: run_section_def at_stage_def split: prod.split sum.split intro!: lock_ok_cong [OF assms(1)])

lemma release_ok:
  assumes "lock_ok (mode_of M) w" "stages w i = Leaves c a"
  shows "lock_ok (mode_of M) (release M i c a w)"
proof (cases "mode_of M c")
  case Shared
  with assms show ?thesis
    by (auto simp: release_def at_stage_def lock_ok_def)
next
  case Exclusive
  have "writer w = Some i"
    using assms Exclusive by (simp add: lock_ok_def)
  then have "\<not> waiting_for (mode_of M) (stages w j) \<and> \<not> in_exclusive (mode_of M) (stages w j)" if "j \<noteq> i" for j
    using assms(1) that by (auto simp: lock_ok_def)
  with Exclusive assms show ?thesis
    by (auto simp: release_def at_stage_def lock_ok_def)
qed

lemma lock_ok_step:
  assumes "lock_ok (mode_of M) w"
  shows "keeps (lock_ok (mode_of M)) (guard_step M l w)"
proof (cases l)
  case (Goes i)
  show ?thesis
  proof (cases "stages w i")
    case Away
    with assms show ?thesis
      by (auto simp: Goes goes_def next_item_def at_stage_def split: list.split item.split intro!: lock_ok_cong [OF assms])
  qed (simp_all add: Goes goes_def assms take_lock_ok get_lock_ok run_section_ok release_ok)
qed (auto simp: user_calls_def user_returns_def split: stage.split list.split item.split intro!: lock_ok_cong [OF assms])

interpretation lock_machine: invariant_machine "guard_step M" "\<lambda>_. True" "lock_ok (mode_of M)" for M
  by unfold_locales (rule lock_ok_step)

text \<open>Who is inside with the lock is alone, up to other readers.\<close>

lemma exclusive_alone:
  assumes "lock_ok md w" "in_exclusive md (stages w i)" "j \<noteq> i"
  shows "\<not> in_exclusive md (stages w j)" "\<not> in_shared md (stages w j)"
proof -
  have "writer w = Some i" "readers w = []"
    using assms(1,2) by (auto simp: lock_ok_def)
  then have "writer w \<noteq> Some j" "j \<notin> set (readers w)"
    using assms(3) by simp_all
  with assms(1) show "\<not> in_exclusive md (stages w j)" "\<not> in_shared md (stages w j)"
    unfolding lock_ok_def by blast+
qed

lemma exclusive_writing: "lock_ok md w \<Longrightarrow> in_exclusive md (stages w i) \<Longrightarrow> writing w"
  unfolding lock_ok_def by blast

lemma shared_no_writing:
  assumes "lock_ok md w" "in_shared md (stages w i)"
  shows "\<not> writing w"
  using assms by (auto simp: lock_ok_def)

section \<open>The calls\<close>

text \<open>The answers and the final state if the calls in the log had been made one at a time.\<close>

definition one_at_a_time ::
  "('o \<Rightarrow> 's \<Rightarrow> 'a \<times> 's) \<Rightarrow> 's \<Rightarrow> ('o, 'p, 'a, 'u, 's) guarded \<Rightarrow> 'a list \<times> 's" where
  "one_at_a_time atomic s0 w = history atomic (map (fst \<circ> snd) (call_log w)) s0"

text \<open>
  \<open>mid c s p t\<close>: at the point \<open>p\<close> of the section of \<open>c\<close>, entered in the state \<open>s\<close>, the object is \<open>t\<close>.
\<close>

fun stage_ok ::
  "('o \<Rightarrow> 's \<Rightarrow> 'a \<times> 's) \<Rightarrow> ('o \<Rightarrow> 's \<Rightarrow> 'p \<Rightarrow> 's \<Rightarrow> bool) \<Rightarrow> 's \<Rightarrow> 's \<Rightarrow> ('o, 'p, 'a) stage \<Rightarrow> bool" where
  "stage_ok atomic mid s t (Inside c p) \<longleftrightarrow> mid c s p t"
| "stage_ok atomic mid s t (Leaves c a) \<longleftrightarrow> atomic c s = (a, t)"
| "stage_ok atomic mid s t _ \<longleftrightarrow> True"

definition data_ok ::
  "('o \<Rightarrow> 's \<Rightarrow> 'a \<times> 's) \<Rightarrow> ('o \<Rightarrow> 's \<Rightarrow> 'p \<Rightarrow> 's \<Rightarrow> bool) \<Rightarrow> ('s \<Rightarrow> bool) \<Rightarrow> 's \<Rightarrow> ('o, 'p, 'a, 'u, 's) guarded \<Rightarrow> bool"
where
  "data_ok atomic mid ok s0 w \<longleftrightarrow>
     (case one_at_a_time atomic s0 w of
        (as, s) \<Rightarrow>
          as = map (snd \<circ> snd) (call_log w) \<and> ok s \<and> (\<not> writing w \<longrightarrow> object w = s) \<and>
          (\<forall>i. stage_ok atomic mid s (object w) (stages w i)))"

lemma stage_ok_outside: "\<not> in_shared md g \<Longrightarrow> \<not> in_exclusive md g \<Longrightarrow> stage_ok atomic mid s t g"
  by (cases g) (auto intro: lock_mode.exhaust)

lemma data_okD:
  assumes "data_ok atomic mid ok s0 w"
  obtains s where "one_at_a_time atomic s0 w = (map (snd \<circ> snd) (call_log w), s)" "ok s" "\<not> writing w \<longrightarrow> object w = s"
    "\<forall>i. stage_ok atomic mid s (object w) (stages w i)"
  using assms by (auto simp: data_ok_def split: prod.splits)

lemma data_okI:
  assumes "one_at_a_time atomic s0 w = (map (snd \<circ> snd) (call_log w), s)" "ok s" "\<not> writing w \<Longrightarrow> object w = s"
    "\<And>i. stage_ok atomic mid s (object w) (stages w i)"
  shows "data_ok atomic mid ok s0 w"
  using assms by (simp add: data_ok_def)

lemma replicate_numeral: "replicate (numeral k) x = x # replicate (pred_numeral k) x"
  by (simp add: numeral_eq_Suc)

lemma length_history: "length (fst (history act cs s)) = length cs"
  by (induction cs arbitrary: s) (simp_all add: case_prod_beta)

locale guarded_object =
  fixes M :: "('o, 'p, 'a, 'u, 's) methods"
    and atomic :: "'o \<Rightarrow> 's \<Rightarrow> 'a \<times> 's"
    and mid :: "'o \<Rightarrow> 's \<Rightarrow> 'p \<Rightarrow> 's \<Rightarrow> bool"
    and ok :: "'s \<Rightarrow> bool"
    and rank :: "'o \<Rightarrow> 'p \<Rightarrow> 's \<Rightarrow> nat"
  assumes enters: "ok s \<Longrightarrow> mid c s (entry_of M c) s"
    and goes_on: "mid c s p t \<Longrightarrow> section_of M c p t = (Inl q, u) \<Longrightarrow> mid c s q u"
    and ends: "mid c s p t \<Longrightarrow> section_of M c p t = (Inr a, u) \<Longrightarrow> atomic c s = (a, u)"
    and reads: "mode_of M c = Shared \<Longrightarrow> mid c s p t \<Longrightarrow> snd (section_of M c p t) = t"
    and stays_ok: "ok s \<Longrightarrow> ok (snd (atomic c s))"
    and ranked: "section_of M c p t = (Inl q, u) \<Longrightarrow> rank c q u < rank c p t"
begin

abbreviation inv :: "'s \<Rightarrow> ('o, 'p, 'a, 'u, 's) guarded \<Rightarrow> bool" where
  "inv s0 w \<equiv> lock_ok (mode_of M) w \<and> data_ok atomic mid ok s0 w"

lemma data_ok_stacks:
  "data_ok atomic mid ok s0 (w\<lparr>stacks := f\<rparr>) = data_ok atomic mid ok s0 w"
  "data_ok atomic mid ok s0 (w\<lparr>writer := x\<rparr>) = data_ok atomic mid ok s0 w"
  by (simp_all add: data_ok_def one_at_a_time_def)

lemma data_ok_cong:
  assumes "data_ok atomic mid ok s0 w" "object t = object w" "writing t = writing w" "call_log t = call_log w"
    "stages t = (stages w)(i := g)" "\<not> in_shared (mode_of M) g" "\<not> in_exclusive (mode_of M) g"
  shows "data_ok atomic mid ok s0 t"
  using assms stage_ok_outside [OF assms(6,7)] by (auto simp: data_ok_def one_at_a_time_def)

lemma data_ok_at:
  "data_ok atomic mid ok s0 w \<Longrightarrow> \<not> in_shared (mode_of M) g \<Longrightarrow> \<not> in_exclusive (mode_of M) g \<Longrightarrow>
     data_ok atomic mid ok s0 (at_stage i g w)"
  by (rule data_ok_cong [of s0 w]) (simp_all add: at_stage_def)

lemma enter_data:
  assumes "data_ok atomic mid ok s0 w" "\<not> writing w" "object t = object w" "call_log t = call_log w"
    "stages t = (stages w)(i := Inside c (entry_of M c))"
  shows "data_ok atomic mid ok s0 t"
  using assms enters by (auto simp: data_ok_def one_at_a_time_def split: prod.splits)

text \<open>Of two goroutines inside at once both are readers.\<close>

lemma both_readers:
  assumes "lock_ok (mode_of M) w" "stages w i = Inside c p \<or> stages w i = Leaves c a"
    "in_shared (mode_of M) (stages w j) \<or> in_exclusive (mode_of M) (stages w j)" "j \<noteq> i"
  shows "mode_of M c = Shared"
proof (rule ccontr)
  assume "mode_of M c \<noteq> Shared"
  then have "in_exclusive (mode_of M) (stages w i)"
    using assms(2) by (cases "mode_of M c") auto
  from exclusive_alone [OF assms(1) this assms(4)] assms(3) show False
    by simp
qed

lemma run_section_data:
  assumes "inv s0 w" "stages w i = Inside c p"
  shows "data_ok atomic mid ok s0 (run_section M i c p w)"
proof -
  obtain r u where sec: "section_of M c p (object w) = (r, u)"
    by (cases "section_of M c p (object w)")
  obtain s where s: "one_at_a_time atomic s0 w = (map (snd \<circ> snd) (call_log w), s)" "ok s" "\<not> writing w \<longrightarrow> object w = s"
    "\<forall>j. stage_ok atomic mid s (object w) (stages w j)"
    by (rule data_okD [OF conjunct2 [OF assms(1)]])
  let ?t = "run_section M i c p w"
  have t: "object ?t = u" "writing ?t = writing w" "call_log ?t = call_log w"
    "stages ?t = (stages w)(i := (case r of Inl q \<Rightarrow> Inside c q | Inr a \<Rightarrow> Leaves c a))"
    using sec by (simp_all add: run_section_def at_stage_def split: sum.split)
  have mid: "mid c s p (object w)"
    using spec [OF s(4), of i] assms(2) by simp
  then have reader: "u = object w" if "mode_of M c = Shared"
    using reads [OF that mid] sec by simp
  show ?thesis
  proof (rule data_okI)
    show "one_at_a_time atomic s0 ?t = (map (snd \<circ> snd) (call_log ?t), s)"
      using s(1) by (simp add: one_at_a_time_def t)
    show "object ?t = s" if "\<not> writing ?t"
    proof -
      have "mode_of M c = Shared"
        using that assms exclusive_writing [of "mode_of M" w i] by (cases "mode_of M c") (auto simp: t)
      with reader s(3) that show ?thesis
        by (simp add: t)
    qed
    show "stage_ok atomic mid s (object ?t) (stages ?t j)" for j
    proof (cases "j = i")
      case True
      with sec mid show ?thesis
        by (auto simp: t intro: goes_on ends split: sum.split)
    next
      case False
      show ?thesis
      proof (cases "in_shared (mode_of M) (stages w j) \<or> in_exclusive (mode_of M) (stages w j)")
        case True
        with both_readers [OF conjunct1 [OF assms(1)] _ True False] assms(2) reader spec [OF s(4), of j] False show ?thesis
          by (simp add: t)
      next
        case False
        with stage_ok_outside [of "mode_of M" "stages w j"] \<open>j \<noteq> i\<close> show ?thesis
          by (simp add: t)
      qed
    qed
  qed (rule s(2))
qed

lemma release_data:
  assumes "inv s0 w" "stages w i = Leaves c a"
  shows "data_ok atomic mid ok s0 (release M i c a w)"
proof -
  obtain s where s: "one_at_a_time atomic s0 w = (map (snd \<circ> snd) (call_log w), s)" "ok s" "\<not> writing w \<longrightarrow> object w = s"
    "\<forall>j. stage_ok atomic mid s (object w) (stages w j)"
    by (rule data_okD [OF conjunct2 [OF assms(1)]])
  have fin: "atomic c s = (a, object w)"
    using spec [OF s(4), of i] assms(2) by simp
  let ?t = "release M i c a w"
  have t: "object ?t = object w" "call_log ?t = call_log w @ [(i, c, a)]" "stages ?t = (stages w)(i := Away)"
    by (simp_all add: release_def at_stage_def split: lock_mode.split)
  show ?thesis
  proof (rule data_okI)
    show "one_at_a_time atomic s0 ?t = (map (snd \<circ> snd) (call_log ?t), object w)"
      using s(1) fin by (simp add: one_at_a_time_def t history_append)
    show "ok (object w)"
      using stays_ok [OF s(2), of c] fin by simp
    show "stage_ok atomic mid (object w) (object ?t) (stages ?t j)" for j
    proof (cases "in_shared (mode_of M) (stages ?t j) \<or> in_exclusive (mode_of M) (stages ?t j)")
      case True
      then have "j \<noteq> i" "in_shared (mode_of M) (stages w j) \<or> in_exclusive (mode_of M) (stages w j)"
        by (auto simp: t split: if_splits)
      with both_readers [OF conjunct1 [OF assms(1)], of i c _ a j] assms(2) have "mode_of M c = Shared"
        by blast
      then have "object w = s"
        using s(3) shared_no_writing [OF conjunct1 [OF assms(1)], of i] assms(2) by simp
      with spec [OF s(4), of j] \<open>j \<noteq> i\<close> show ?thesis
        by (simp add: t)
    next
      case False
      then show ?thesis
        by (simp add: stage_ok_outside [of "mode_of M"])
    qed
  qed (simp add: t)
qed

lemma inv_step:
  assumes "inv s0 w"
  shows "keeps (inv s0) (guard_step M l w)"
proof (intro keeps_conj)
  show "keeps (lock_ok (mode_of M)) (guard_step M l w)"
    using assms lock_ok_step by blast
  show "keeps (data_ok atomic mid ok s0) (guard_step M l w)"
  proof (cases l)
    case (Goes i)
    show ?thesis
    proof (cases "stages w i")
      case Away
      with assms show ?thesis
        by (auto simp: Goes goes_def next_item_def data_ok_stacks split: list.split item.split intro!: data_ok_at)
    next
      case (Asks c)
      have "\<not> writing w" if "writer w = None"
        using assms that by (auto simp: lock_ok_def)
      then have "keeps (data_ok atomic mid ok s0) (take_lock M i c w)"
        using assms enter_data [of s0 w "at_stage i (Inside c (entry_of M c)) (w\<lparr>readers := i # readers w\<rparr>)" i c]
        by (auto simp: take_lock_def data_ok_stacks at_stage_def [of i "Inside c p" for c p] split: lock_mode.split intro!: data_ok_at)
      with Asks show ?thesis
        by (simp add: Goes goes_def)
    next
      case (Waits c)
      then have "waiting_for (mode_of M) (stages w i)"
        using assms by (simp add: lock_ok_def)
      then have "\<not> writing w"
        using assms unfolding lock_ok_def by blast
      with Waits assms enters show ?thesis
        by (auto simp: Goes goes_def get_lock_def at_stage_def data_ok_def one_at_a_time_def split: prod.splits)
    qed (use assms run_section_data release_data in \<open>simp_all add: Goes goes_def\<close>)
  qed (use assms in
    \<open>auto simp: user_calls_def user_returns_def data_ok_stacks split: stage.split list.split item.split\<close>)
qed

end

sublocale guarded_object \<subseteq> machine: invariant_machine "guard_step M" "\<lambda>_. True" "inv s0" for s0
  by unfold_locales (rule inv_step)

context guarded_object
begin

lemma guarded_new_inv: "ok s0 \<Longrightarrow> inv s0 (guarded_new s0)"
  unfolding data_ok_def one_at_a_time_def by (simp add: guarded_new_def lock_ok_def)

text \<open>Every schedule answers the calls as if each had been one step, at its Unlock.\<close>

lemma answered_one_at_a_time:
  assumes "ok s0" "runs (guard_step M) ls (guarded_new s0) = Some w"
  shows "fst (one_at_a_time atomic s0 w) = map (snd \<circ> snd) (call_log w) \<and>
    (\<not> writing w \<longrightarrow> object w = snd (one_at_a_time atomic s0 w))"
proof -
  have "inv s0 w"
    using machine.runs_keeps [OF guarded_new_inv [OF assms(1)] _ assms(2)] by (simp add: list_all_iff)
  then show ?thesis
    by (auto simp: data_ok_def split: prod.splits)
qed

text \<open>Without any help a goroutine inside comes to its Unlock and gives the lock back.\<close>

lemma section_ends:
  assumes "stages w i = Inside c p"
  shows "\<exists>n t a. runs (guard_step M) (replicate n (Goes i)) w = Some t \<and> stages t = (stages w)(i := Leaves c a) \<and>
    readers t = readers w \<and> writer t = writer w"
  using assms
proof (induction "rank c p (object w)" arbitrary: w p rule: less_induct)
  case less
  obtain r u where sec: "section_of M c p (object w) = (r, u)"
    by (cases "section_of M c p (object w)")
  let ?t = "run_section M i c p w"
  have step: "guard_step M (Goes i) w = Some ?t"
    using less.prems by (simp add: goes_def)
  show ?case
  proof (cases r)
    case (Inl q)
    with sec have t: "stages ?t = (stages w)(i := Inside c q)" "object ?t = u" "readers ?t = readers w" "writer ?t = writer w"
      by (simp_all add: run_section_def at_stage_def)
    moreover have "rank c q u < rank c p (object w)"
      using ranked sec Inl by blast
    ultimately obtain n v a where "runs (guard_step M) (replicate n (Goes i)) ?t = Some v"
      "stages v = (stages w)(i := Leaves c a)" "readers v = readers w" "writer v = writer w"
      using less.hyps [of q ?t] by auto
    with step show ?thesis
      by (intro exI [of _ "Suc n"] exI [of _ v]) auto
  next
    case (Inr a)
    with sec step show ?thesis
      by (intro exI [of _ 1] exI [of _ ?t]) (auto simp: run_section_def at_stage_def)
  qed
qed

lemma comes_to_unlock:
  assumes "in_shared (mode_of M) (stages w i) \<or> in_exclusive (mode_of M) (stages w i)"
  obtains n t c a where "runs (guard_step M) (replicate n (Goes i)) w = Some t" "stages t = (stages w)(i := Leaves c a)"
    "readers t = readers w" "writer t = writer w" "in_shared (mode_of M) (stages w i) \<longleftrightarrow> mode_of M c = Shared"
proof (cases "stages w i")
  case (Inside c p)
  from section_ends [OF this] obtain n t a where "runs (guard_step M) (replicate n (Goes i)) w = Some t"
    "stages t = (stages w)(i := Leaves c a)" "readers t = readers w" "writer t = writer w"
    by blast
  then show ?thesis
    using Inside by (intro that [of n t c a]) simp_all
next
  case (Leaves c a)
  then have "stages w = (stages w)(i := Leaves c a)"
    by auto
  then show ?thesis
    using Leaves by (intro that [of 0 w]) simp_all
qed (use assms in simp_all)

lemma finishes:
  assumes "in_shared (mode_of M) (stages w i) \<or> in_exclusive (mode_of M) (stages w i)"
  shows "\<exists>n t. runs (guard_step M) (replicate n (Goes i)) w = Some t \<and> stages t = (stages w)(i := Away) \<and>
    (if in_shared (mode_of M) (stages w i) then readers t = removeAll i (readers w) \<and> writer t = writer w
     else readers t = readers w \<and> writer t = None)"
proof -
  obtain n t c a where t: "runs (guard_step M) (replicate n (Goes i)) w = Some t" "stages t = (stages w)(i := Leaves c a)"
    "readers t = readers w" "writer t = writer w" "in_shared (mode_of M) (stages w i) \<longleftrightarrow> mode_of M c = Shared"
    using assms by (rule comes_to_unlock)
  have "runs (guard_step M) (replicate (Suc n) (Goes i)) w = Some (release M i c a t)"
    using runs_snoc [OF t(1), of "Goes i"] t(2) by (simp add: goes_def replicate_append_same)
  with t show ?thesis
    by (intro exI [of _ "Suc n"] exI [of _ "release M i c a t"]) (auto simp: release_def at_stage_def split: lock_mode.split)
qed

text \<open>The labels of those who are at the lock in \<open>w\<close>.\<close>

abbreviation at_lock :: "('o, 'p, 'a, 'u, 's) guarded \<Rightarrow> 'o guard_label list \<Rightarrow> bool" where
  "at_lock w \<equiv> list_all (\<lambda>l. \<exists>j. l = Goes j \<and> stages w j \<noteq> Away)"

lemma drain_readers:
  assumes "lock_ok (mode_of M) w"
  shows "\<exists>ls t. runs (guard_step M) ls w = Some t \<and> at_lock w ls \<and> readers t = [] \<and> writer t = writer w \<and>
    (\<forall>j. stages t j = (if j \<in> set (readers w) then Away else stages w j))"
  using assms
proof (induction "length (readers w)" arbitrary: w rule: less_induct)
  case less
  show ?case
  proof (cases "readers w")
    case Nil
    then show ?thesis
      by (intro exI [of _ "[]"] exI [of _ w]) simp
  next
    case (Cons i rs)
    have i: "in_shared (mode_of M) (stages w i)"
      using less.prems Cons unfolding lock_ok_def by force
    with finishes [of w i] obtain n v where v: "runs (guard_step M) (replicate n (Goes i)) w = Some v"
      "stages v = (stages w)(i := Away)" "readers v = removeAll i (readers w)" "writer v = writer w"
      by auto
    have "lock_ok (mode_of M) v"
      using lock_machine.runs_keeps [OF less.prems _ v(1)] by (simp add: list_all_iff)
    moreover have "length (readers v) < length (readers w)"
      using Cons by (simp add: v(3) le_imp_less_Suc length_removeAll_less_eq)
    ultimately obtain ls t where t: "runs (guard_step M) ls v = Some t" "at_lock v ls" "readers t = []" "writer t = writer v"
      "\<forall>j. stages t j = (if j \<in> set (readers v) then Away else stages v j)"
      using less.hyps by blast
    have "runs (guard_step M) (replicate n (Goes i) @ ls) w = Some t"
      using v(1) t(1) by (simp add: runs_append)
    moreover have "at_lock w (replicate n (Goes i) @ ls)"
      using i t(2) v(2) by (auto simp: list_all_iff split: if_splits)
    ultimately show ?thesis
      using t(3-5) v Cons by (intro exI [of _ "replicate n (Goes i) @ ls"] exI [of _ t]) auto
  qed
qed

lemma drain_writer:
  assumes "lock_ok (mode_of M) w" "readers w = []" "writer w = Some j"
  shows "\<exists>n t. runs (guard_step M) (replicate n (Goes j)) w = Some t \<and> stages w j \<noteq> Away \<and> readers t = [] \<and> writer t = None \<and>
    stages t = (stages w)(j := Away)"
proof (cases "waiting_for (mode_of M) (stages w j)")
  case True
  then obtain c where c: "stages w j = Waits c" "mode_of M c = Exclusive"
    by (cases "stages w j") auto
  define v where "v = at_stage j (Inside c (entry_of M c)) (w\<lparr>writing := True\<rparr>)"
  have v: "guard_step M (Goes j) w = Some v"
    using assms(2) c by (simp add: goes_def get_lock_def v_def)
  from finishes [of v j] c(2) obtain n t where "runs (guard_step M) (replicate n (Goes j)) v = Some t"
    "stages t = (stages v)(j := Away)" "readers t = readers v" "writer t = None"
    by (auto simp: v_def at_stage_def)
  with v c assms(2) show ?thesis
    by (intro exI [of _ "Suc n"] exI [of _ t]) (simp add: v_def at_stage_def)
next
  case False
  then have j: "in_exclusive (mode_of M) (stages w j)"
    using assms(1,3) unfolding lock_ok_def by blast
  then have "\<not> in_shared (mode_of M) (stages w j)"
    using in_shared_not_exclusive by blast
  with finishes [of w j] j assms(2) show ?thesis
    by (cases "stages w j") auto
qed

lemma takes_free_lock:
  assumes "stages u i = Asks c" "readers u = []" "writer u = None"
  shows "\<exists>ks t. runs (guard_step M) ks u = Some t \<and> set ks \<subseteq> {Goes i} \<and> stages t i = Inside c (entry_of M c)"
proof (cases "mode_of M c")
  case Shared
  with assms show ?thesis
    by (intro exI [of _ "[Goes i]"]) (simp add: goes_def take_lock_def at_stage_def)
next
  case Exclusive
  with assms show ?thesis
    by (intro exI [of _ "[Goes i, Goes i]"]) (simp add: goes_def take_lock_def get_lock_def at_stage_def)
qed

text \<open>Whoever is at the lock can have it, by steps of those at the lock only: no user code need return.\<close>

lemma lock_can_be_had:
  assumes "lock_ok (mode_of M) w" "stages w i = Asks c \<or> stages w i = Waits c"
  shows "\<exists>ls t. runs (guard_step M) ls w = Some t \<and> at_lock w ls \<and> stages t i = Inside c (entry_of M c)"
proof -
  obtain ls v where v: "runs (guard_step M) ls w = Some v" "at_lock w ls" "readers v = []" "writer v = writer w"
    "\<forall>j. stages v j = (if j \<in> set (readers w) then Away else stages w j)"
    using drain_readers [OF assms(1)] by blast
  have "i \<notin> set (readers w)"
    using assms by (auto simp: lock_ok_def)
  then have vi: "stages v i = stages w i"
    using v(5) by simp
  have ok: "lock_ok (mode_of M) v"
    using lock_machine.runs_keeps [OF assms(1) _ v(1)] by (simp add: list_all_iff)
  have "\<exists>ks t. runs (guard_step M) ks v = Some t \<and> at_lock v ks \<and> stages t i = Inside c (entry_of M c)"
  proof (cases "stages v i = Waits c")
    case True
    with v(3) show ?thesis
      by (intro exI [of _ "[Goes i]"]) (simp add: goes_def get_lock_def at_stage_def)
  next
    case False
    with assms(2) vi have asks: "stages v i = Asks c"
      by simp
    show ?thesis
    proof (cases "writer v")
      case None
      with takes_free_lock [OF asks v(3)] asks show ?thesis
        by (fastforce simp: list_all_iff)
    next
      case (Some j)
      obtain n u where u: "runs (guard_step M) (replicate n (Goes j)) v = Some u" "stages v j \<noteq> Away" "readers u = []"
        "writer u = None" "stages u = (stages v)(j := Away)"
        using drain_writer [OF ok v(3) Some] by blast
      have "j \<noteq> i"
        using ok Some asks unfolding lock_ok_def by auto
      with takes_free_lock [of u i c] u asks obtain ks t where "runs (guard_step M) ks u = Some t" "set ks \<subseteq> {Goes i}"
        "stages t i = Inside c (entry_of M c)"
        by auto
      with u(1,2) asks show ?thesis
        by (intro exI [of _ "replicate n (Goes j) @ ks"] exI [of _ t]) (auto simp: runs_append list_all_iff)
    qed
  qed
  then obtain ks t where "runs (guard_step M) ks v = Some t" "at_lock v ks" "stages t i = Inside c (entry_of M c)"
    by blast
  with v(1,2,5) show ?thesis
    by (intro exI [of _ "ls @ ks"] exI [of _ t]) (auto simp: runs_append list_all_iff split: if_splits)
qed

end

end
