(* ===== verification/System_Locks.thy ===== *)
theory System_Locks
  imports Locks System_Stop
begin

text \<open>
  \<open>ActorSystem\<close> with its \<open>sync.RWMutex\<close> (\<open>pkg/system/system.go\<close>, \<open>event.go\<close>): each method as the
  reads and writes of its critical section, one by one, and the user code it runs after the
  Unlock: dispatch closures, Stop of the actors, event handlers, any of which may call the system.
  The operations of \<open>System\<close> are what they amount to.
\<close>

section \<open>The methods\<close>

datatype 'c sys_method =
    MRegister string "ref option" ref
  | MSend string "'c any_cmd"
  | MGet string
  | MUnregister string
  | MStopAll int
  | MCount
  | MOnEvent nat
  | MEmit event

datatype 'c sys_user = RunDispatch ref "'c any_cmd" | StopManaged ref int | RunHandler nat event

datatype sys_ret = Answer sys_answer | CopiedHandlers "(nat \<times> event) list"

text \<open>The points in the critical sections, with the local variables of StopAll's loop.\<close>

datatype sys_point =
    AtStopped
  | AtName
  | AtLookup
  | AtStore
  | AtAppend
  | AtDelete
  | AtScan nat
  | AtSetStopped
  | AtEntries nat "(string \<times> ref) list"
  | AtClearActors "(string \<times> ref) list"
  | AtClearOrder "(string \<times> ref) list"
  | AtRead

fun sys_mode :: "'c sys_method \<Rightarrow> lock_mode" where
  "sys_mode (MSend n cmd) = Shared"
| "sys_mode (MGet n) = Shared"
| "sys_mode MCount = Shared"
| "sys_mode (MEmit ev) = Shared"
| "sys_mode m = Exclusive"

fun sys_entry :: "'c sys_method \<Rightarrow> sys_point" where
  "sys_entry MCount = AtRead"
| "sys_entry (MOnEvent h) = AtRead"
| "sys_entry (MEmit ev) = AtRead"
| "sys_entry m = AtStopped"

text \<open>An error return, in the type of the method's results.\<close>

fun sys_refuse :: "'c sys_method \<Rightarrow> system_err \<Rightarrow> sys_ret" where
  "sys_refuse (MSend n cmd) e = Answer (AnsSend (Inl (SystemErr e)))"
| "sys_refuse (MGet n) e = Answer (AnsRef (Inl (SystemErr e)))"
| "sys_refuse (MStopAll t) e = Answer (AnsStops (Inl (SystemErr e)))"
| "sys_refuse m e = Answer (AnsErr (Some (SystemErr e)))"

type_synonym sys_action = "actor_system \<Rightarrow> (sys_point + sys_ret) \<times> actor_system"

definition at_stopped :: "'c sys_method \<Rightarrow> sys_action" where
  "at_stopped m s =
     (if sys_stopped s then (Inr (sys_refuse m ErrSystemStopped), s)
      else (Inl (case m of MRegister n mg d \<Rightarrow> AtName | MStopAll t \<Rightarrow> AtSetStopped | _ \<Rightarrow> AtLookup), s))"

definition at_name :: "'c sys_method \<Rightarrow> sys_action" where
  "at_name m s =
     (case m of
        MRegister n mg d \<Rightarrow>
          (if n = [] then (Inr (sys_refuse m ErrActorNameEmpty), s)
           else if mg = None then (Inr (sys_refuse m ErrActorNilRef), s)
           else (Inl AtLookup, s))
      | _ \<Rightarrow> (Inr (Answer (AnsErr None)), s))"

definition at_lookup :: "'c sys_method \<Rightarrow> sys_action" where
  "at_lookup m s =
     (case m of
        MRegister n mg d \<Rightarrow>
          (case map_of (sys_actors s) n of
             Some e \<Rightarrow> (Inr (sys_refuse m ErrActorNameDuplicate), s)
           | None \<Rightarrow> (Inl AtStore, s))
      | MSend n cmd \<Rightarrow>
          (case map_of (sys_actors s) n of
             None \<Rightarrow> (Inr (sys_refuse m ErrActorNotFound), s)
           | Some e \<Rightarrow> (Inr (Answer (AnsSend (Inr (dispatch e)))), s))
      | MGet n \<Rightarrow>
          (case map_of (sys_actors s) n of
             None \<Rightarrow> (Inr (sys_refuse m ErrActorNotFound), s)
           | Some e \<Rightarrow> (Inr (Answer (AnsRef (Inr (managed e)))), s))
      | MUnregister n \<Rightarrow>
          (case map_of (sys_actors s) n of
             None \<Rightarrow> (Inr (sys_refuse m ErrActorNotFound), s)
           | Some e \<Rightarrow> (Inl AtDelete, s))
      | _ \<Rightarrow> (Inr (Answer (AnsErr None)), s))"

text \<open>The writes of register: the entry, then the order.\<close>

definition at_store :: "'c sys_method \<Rightarrow> sys_action" where
  "at_store m s =
     (case m of
        MRegister n (Some r) d \<Rightarrow>
          (Inl AtAppend, s\<lparr>sys_actors := AList.update n \<lparr>managed = r, dispatch = d\<rparr> (sys_actors s)\<rparr>)
      | _ \<Rightarrow> (Inr (Answer (AnsErr None)), s))"

definition at_append :: "'c sys_method \<Rightarrow> sys_action" where
  "at_append m s =
     (case m of
        MRegister n mg d \<Rightarrow> (Inr (Answer (AnsErr None)), s\<lparr>order := order s @ [n]\<rparr>)
      | _ \<Rightarrow> (Inr (Answer (AnsErr None)), s))"

text \<open>The writes of Unregister: the entry, then the loop over the order.\<close>

definition at_delete :: "'c sys_method \<Rightarrow> sys_action" where
  "at_delete m s =
     (case m of
        MUnregister n \<Rightarrow> (Inl (AtScan 0), s\<lparr>sys_actors := AList.delete n (sys_actors s)\<rparr>)
      | _ \<Rightarrow> (Inr (Answer (AnsErr None)), s))"

definition at_scan :: "'c sys_method \<Rightarrow> nat \<Rightarrow> sys_action" where
  "at_scan m i s =
     (case m of
        MUnregister n \<Rightarrow>
          (if i \<ge> length (order s) then (Inr (Answer (AnsErr None)), s)
           else if order s ! i = n then (Inr (Answer (AnsErr None)), s\<lparr>order := (order s)[i := []]\<rparr>)
           else (Inl (AtScan (i + 1)), s))
      | _ \<Rightarrow> (Inr (Answer (AnsErr None)), s))"

text \<open>StopAll: the flag, the loop from the end of the order, and the new empty map and order.\<close>

definition at_set_stopped :: sys_action where
  "at_set_stopped s = (Inl (AtEntries (length (order s)) []), s\<lparr>sys_stopped := True\<rparr>)"

definition at_entries :: "nat \<Rightarrow> (string \<times> ref) list \<Rightarrow> sys_action" where
  "at_entries k es s =
     (case k of
        0 \<Rightarrow> (Inl (AtClearActors es), s)
      | Suc i \<Rightarrow>
          (if order s ! i = [] then (Inl (AtEntries i es), s)
           else
             (case map_of (sys_actors s) (order s ! i) of
                None \<Rightarrow> (Inl (AtEntries i es), s)
              | Some e \<Rightarrow> (Inl (AtEntries i (es @ [(order s ! i, managed e)])), s))))"

definition at_clear_actors :: "(string \<times> ref) list \<Rightarrow> sys_action" where
  "at_clear_actors es s = (Inl (AtClearOrder es), s\<lparr>sys_actors := []\<rparr>)"

definition at_clear_order :: "(string \<times> ref) list \<Rightarrow> sys_action" where
  "at_clear_order es s = (Inr (Answer (AnsStops (Inr es))), s\<lparr>order := []\<rparr>)"

text \<open>Count, OnEvent and the copy emitEvent makes.\<close>

definition at_read :: "'c sys_method \<Rightarrow> sys_action" where
  "at_read m s =
     (case m of
        MCount \<Rightarrow> (Inr (Answer (AnsNat (length (sys_actors s)))), s)
      | MOnEvent h \<Rightarrow> (Inr (Answer (AnsErr None)), s\<lparr>eventHandlers := eventHandlers s @ [h]\<rparr>)
      | MEmit ev \<Rightarrow> (Inr (CopiedHandlers (map (\<lambda>h. (h, ev)) (eventHandlers s))), s)
      | _ \<Rightarrow> (Inr (Answer (AnsErr None)), s))"

fun sys_section :: "'c sys_method \<Rightarrow> sys_point \<Rightarrow> sys_action" where
  "sys_section m AtStopped s = at_stopped m s"
| "sys_section m AtName s = at_name m s"
| "sys_section m AtLookup s = at_lookup m s"
| "sys_section m AtStore s = at_store m s"
| "sys_section m AtAppend s = at_append m s"
| "sys_section m AtDelete s = at_delete m s"
| "sys_section m (AtScan i) s = at_scan m i s"
| "sys_section m AtSetStopped s = at_set_stopped s"
| "sys_section m (AtEntries k es) s = at_entries k es s"
| "sys_section m (AtClearActors es) s = at_clear_actors es s"
| "sys_section m (AtClearOrder es) s = at_clear_order es s"
| "sys_section m AtRead s = at_read m s"

lemmas at_defs = at_stopped_def at_name_def at_lookup_def at_store_def at_append_def at_delete_def at_scan_def
  at_set_stopped_def at_entries_def at_clear_actors_def at_clear_order_def at_read_def

text \<open>After the Unlock: the closure of send; Stop and the events of StopAll; the handlers of emitEvent.\<close>

definition stop_item :: "int \<Rightarrow> stop_action \<Rightarrow> ('c sys_method, 'c sys_user) item" where
  "stop_item timeout a = (case a of Emit ev \<Rightarrow> Calls (MEmit ev) | StopOne n r \<Rightarrow> UserCode (StopManaged r timeout))"

fun sys_after :: "'c sys_method \<Rightarrow> sys_ret \<Rightarrow> ('c sys_method, 'c sys_user) item list" where
  "sys_after (MSend n cmd) (Answer (AnsSend (Inr d))) = [UserCode (RunDispatch d cmd)]"
| "sys_after (MStopAll timeout) (Answer (AnsStops (Inr es))) =
     map (stop_item timeout) (Emit \<lparr>Kind = EventSystemStopping, ActorName = []\<rparr> # stop_actions es)"
| "sys_after (MEmit ev) (CopiedHandlers hs) = map (\<lambda>(h, e). UserCode (RunHandler h e)) hs"
| "sys_after m a = []"

definition sys_methods :: "('c sys_method, sys_point, sys_ret, 'c sys_user, actor_system) methods" where
  "sys_methods = \<lparr>mode_of = sys_mode, entry_of = sys_entry, section_of = sys_section, after_of = sys_after\<rparr>"

lemma sys_methods_sel [simp]:
  "mode_of sys_methods = sys_mode" "entry_of sys_methods = sys_entry" "section_of sys_methods = sys_section"
  "after_of sys_methods = sys_after"
  by (simp_all add: sys_methods_def)

section \<open>What the sections amount to\<close>

fun sys_atomic :: "'c sys_method \<Rightarrow> actor_system \<Rightarrow> sys_ret \<times> actor_system" where
  "sys_atomic (MRegister n mg d) s = apfst (Answer \<circ> AnsErr) (register n mg d s)"
| "sys_atomic (MSend n cmd) s = (Answer (AnsSend (send_lookup n s)), s)"
| "sys_atomic (MGet n) s = (Answer (AnsRef (Get n s)), s)"
| "sys_atomic (MUnregister n) s = apfst (Answer \<circ> AnsErr) (Unregister n s)"
| "sys_atomic (MStopAll t) s = apfst (Answer \<circ> AnsStops) (stop_begin s)"
| "sys_atomic MCount s = (Answer (AnsNat (Count s)), s)"
| "sys_atomic (MOnEvent h) s = (Answer (AnsErr None), OnEvent h s)"
| "sys_atomic (MEmit ev) s = (CopiedHandlers (emitEvent ev s), s)"

definition registering :: "'c sys_method \<Rightarrow> actor_system \<Rightarrow> bool" where
  "registering m s \<longleftrightarrow> (\<exists>n r d. m = MRegister n (Some r) d \<and> n \<noteq> [] \<and> map_of (sys_actors s) n = None)"

text \<open>Of the list StopAll makes, the part for the slots \<open>ns\<close> of the order.\<close>

definition stop_slots :: "actor_system \<Rightarrow> string list \<Rightarrow> (string \<times> ref) list" where
  "stop_slots s ns =
     List.map_filter (\<lambda>n. if n = [] then None else map_option (\<lambda>e. (n, managed e)) (map_of (sys_actors s) n)) (rev ns)"

fun sys_mid :: "'c sys_method \<Rightarrow> actor_system \<Rightarrow> sys_point \<Rightarrow> actor_system \<Rightarrow> bool" where
  "sys_mid m s AtStopped t \<longleftrightarrow> t = s \<and> m \<noteq> MCount \<and> (\<forall>h. m \<noteq> MOnEvent h) \<and> (\<forall>ev. m \<noteq> MEmit ev)"
| "sys_mid m s AtName t \<longleftrightarrow> t = s \<and> \<not> sys_stopped s \<and> (\<exists>n mg d. m = MRegister n mg d)"
| "sys_mid m s AtLookup t \<longleftrightarrow> t = s \<and> \<not> sys_stopped s \<and>
     ((\<exists>n r d. m = MRegister n (Some r) d \<and> n \<noteq> []) \<or> (\<exists>n cmd. m = MSend n cmd) \<or> (\<exists>n. m = MGet n \<or> m = MUnregister n))"
| "sys_mid m s AtStore t \<longleftrightarrow> t = s \<and> \<not> sys_stopped s \<and> registering m s"
| "sys_mid m s AtAppend t \<longleftrightarrow> \<not> sys_stopped s \<and> registering m s \<and>
     (\<exists>n r d. m = MRegister n (Some r) d \<and> t = s\<lparr>sys_actors := AList.update n \<lparr>managed = r, dispatch = d\<rparr> (sys_actors s)\<rparr>)"
| "sys_mid m s AtDelete t \<longleftrightarrow> t = s \<and> \<not> sys_stopped s \<and> (\<exists>n. m = MUnregister n \<and> map_of (sys_actors s) n \<noteq> None)"
| "sys_mid m s (AtScan i) t \<longleftrightarrow> \<not> sys_stopped s \<and>
     (\<exists>n. m = MUnregister n \<and> map_of (sys_actors s) n \<noteq> None \<and> t = s\<lparr>sys_actors := AList.delete n (sys_actors s)\<rparr> \<and>
        n \<notin> set (take i (order s)))"
| "sys_mid m s AtSetStopped t \<longleftrightarrow> t = s \<and> \<not> sys_stopped s \<and> (\<exists>timeout. m = MStopAll timeout)"
| "sys_mid m s (AtEntries k es) t \<longleftrightarrow> \<not> sys_stopped s \<and> (\<exists>timeout. m = MStopAll timeout) \<and> t = s\<lparr>sys_stopped := True\<rparr> \<and>
     k \<le> length (order s) \<and> es = stop_slots s (drop k (order s))"
| "sys_mid m s (AtClearActors es) t \<longleftrightarrow> \<not> sys_stopped s \<and> (\<exists>timeout. m = MStopAll timeout) \<and> t = s\<lparr>sys_stopped := True\<rparr> \<and>
     es = stop_list s"
| "sys_mid m s (AtClearOrder es) t \<longleftrightarrow> \<not> sys_stopped s \<and> (\<exists>timeout. m = MStopAll timeout) \<and>
     t = s\<lparr>sys_stopped := True, sys_actors := []\<rparr> \<and> es = stop_list s"
| "sys_mid m s AtRead t \<longleftrightarrow> t = s \<and> (m = MCount \<or> (\<exists>h. m = MOnEvent h) \<or> (\<exists>ev. m = MEmit ev))"

fun sys_rank :: "'c sys_method \<Rightarrow> sys_point \<Rightarrow> actor_system \<Rightarrow> nat" where
  "sys_rank m AtStopped s = length (order s) + 6"
| "sys_rank m AtName s = length (order s) + 5"
| "sys_rank m AtLookup s = length (order s) + 4"
| "sys_rank m AtSetStopped s = length (order s) + 4"
| "sys_rank m (AtEntries k es) s = k + 3"
| "sys_rank m AtDelete s = length (order s) + 2"
| "sys_rank m (AtScan i) s = length (order s) - i + 1"
| "sys_rank m (AtClearActors es) s = 2"
| "sys_rank m AtStore s = 2"
| "sys_rank m _ s = 1"

lemma tombstone_at: "i < length ns \<Longrightarrow> ns ! i = n \<Longrightarrow> n \<notin> set (take i ns) \<Longrightarrow> tombstone n ns = ns[i := []]"
proof (induction ns arbitrary: i)
  case (Cons x xs)
  then show ?case
    by (cases i) auto
qed simp

lemma tombstone_absent: "n \<notin> set ns \<Longrightarrow> tombstone n ns = ns"
  by (induction ns) auto

lemma stop_slots_step:
  assumes "Suc i \<le> length ns"
  shows "stop_slots s (drop i ns) = stop_slots s (drop (Suc i) ns) @
    (if ns ! i = [] then [] else case map_of (sys_actors s) (ns ! i) of None \<Rightarrow> [] | Some e \<Rightarrow> [(ns ! i, managed e)])"
proof -
  have "drop i ns = ns ! i # drop (Suc i) ns"
    using assms by (simp add: Cons_nth_drop_Suc)
  then show ?thesis
    by (simp add: stop_slots_def map_filter_def split: option.split)
qed

lemma stop_slots_all: "stop_slots s (order s) = stop_list s"
  by (simp add: stop_slots_def stop_list_def)

lemma sys_enters: "sys_mid m s (sys_entry m) s"
  by (cases m) simp_all

lemma sys_goes_on:
  assumes "sys_mid m s p t" "sys_section m p t = (Inl q, u)"
  shows "sys_mid m s q u"
proof (cases p)
  case (AtScan i)
  with assms obtain n where m: "m = MUnregister n" "t = s\<lparr>sys_actors := AList.delete n (sys_actors s)\<rparr>"
    "n \<notin> set (take i (order s))" "i < length (order s)" "order s ! i \<noteq> n" "q = AtScan (i + 1)" "u = t"
    by (auto simp: at_scan_def split: if_splits)
  with assms(1) AtScan show ?thesis
    by (simp add: take_Suc_conv_app_nth)
next
  case (AtEntries k es)
  with assms show ?thesis
    by (cases k) (auto simp: at_entries_def stop_slots_step stop_slots_all split: if_splits option.splits)
qed (use assms in \<open>auto simp: at_defs registering_def stop_slots_def map_filter_def
  split: if_splits option.splits sys_method.splits\<close>)

lemma sys_ends:
  assumes "sys_mid m s p t" "sys_section m p t = (Inr a, u)"
  shows "sys_atomic m s = (a, u)"
proof (cases p)
  case AtStopped
  with assms show ?thesis
    by (cases m) (auto simp: at_stopped_def system_defs split: if_splits)
next
  case (AtScan i)
  with assms obtain n where m: "m = MUnregister n" "t = s\<lparr>sys_actors := AList.delete n (sys_actors s)\<rparr>"
    "n \<notin> set (take i (order s))" "\<not> sys_stopped s" "map_of (sys_actors s) n \<noteq> None"
    by auto
  show ?thesis
  proof (cases "i \<ge> length (order s)")
    case True
    with assms AtScan m show ?thesis
      by (auto simp: at_scan_def Unregister_def tombstone_absent)
  next
    case False
    with assms AtScan m show ?thesis
      by (auto simp: at_scan_def Unregister_def tombstone_at split: if_splits)
  qed
qed (use assms in \<open>auto simp: at_defs registering_def register_def send_lookup_def Get_def Unregister_def stop_begin_def
  Count_def OnEvent_def emitEvent_def split: if_splits option.splits sys_method.splits nat.splits\<close>)

lemma sys_reads: "sys_mode m = Shared \<Longrightarrow> sys_mid m s p t \<Longrightarrow> snd (sys_section m p t) = t"
  by (cases p) (auto simp: at_defs registering_def split: option.split if_split nat.split sys_method.split)

lemma sys_ranked: "sys_section m p t = (Inl q, u) \<Longrightarrow> sys_rank m q u < sys_rank m p t"
  by (cases p) (auto simp: at_defs split: if_splits option.splits sys_method.splits nat.splits)

interpretation guarded_system: guarded_object sys_methods sys_atomic sys_mid "\<lambda>_. True" sys_rank
  by unfold_locales
    (simp_all add: sys_enters sys_goes_on sys_reads sys_ranked, (rule sys_ends; assumption))

text \<open>
  What each method answers on a closed system, by the error its documentation names. Count, OnEvent and
  emitEvent do not look at the flag: no actor is left to count, and handlers may still be added and copied.
\<close>

fun closed_answer :: "'c sys_method \<Rightarrow> sys_ret \<Rightarrow> bool" where
  "closed_answer (MRegister n mg d) a \<longleftrightarrow> a = Answer (AnsErr (Some (SystemErr ErrSystemStopped)))"
| "closed_answer (MUnregister n) a \<longleftrightarrow> a = Answer (AnsErr (Some (SystemErr ErrSystemStopped)))"
| "closed_answer (MSend n cmd) a \<longleftrightarrow> a = Answer (AnsSend (Inl (SystemErr ErrSystemStopped)))"
| "closed_answer (MGet n) a \<longleftrightarrow> a = Answer (AnsRef (Inl (SystemErr ErrSystemStopped)))"
| "closed_answer (MStopAll t) a \<longleftrightarrow> a = Answer (AnsStops (Inl (SystemErr ErrSystemStopped)))"
| "closed_answer MCount a \<longleftrightarrow> a = Answer (AnsNat 0)"
| "closed_answer (MOnEvent h) a \<longleftrightarrow> a = Answer (AnsErr None)"
| "closed_answer (MEmit ev) a \<longleftrightarrow> (\<exists>hs. a = CopiedHandlers (map (\<lambda>h. (h, ev)) hs))"

definition emptied :: "actor_system \<Rightarrow> bool" where
  "emptied s \<longleftrightarrow> sys_stopped s \<and> sys_actors s = []"

lemma sys_atomic_closed: "emptied s \<Longrightarrow> emptied (snd (sys_atomic m s)) \<and> closed_answer m (fst (sys_atomic m s))"
  by (cases m) (auto simp: emptied_def system_defs)

lemma history_closed: "emptied s \<Longrightarrow> list_all2 closed_answer ms (fst (history sys_atomic ms s))"
proof (induction ms arbitrary: s)
  case (Cons m ms)
  from sys_atomic_closed [OF Cons.prems, of m] Cons.IH show ?case
    by (auto simp: case_prod_beta)
qed simp

lemma stop_begin_closes: "stop_begin s = (Inr es, t) \<Longrightarrow> emptied t"
  by (auto simp: stop_begin_def emptied_def split: if_splits)

section \<open>Properties\<close>

text \<open>
  C10: The methods of an actor system are linearizable: however the goroutines interleave, read by
  read and write by write, and whatever user code calls from inside dispatch closures, Stop and event handlers, the
  calls are answered as if each had been made at once, in the order of their Unlocks, and when no
  writer is inside the registry is what these calls leave.
\<close>

theorem system_calls_are_atomic:
  assumes "runs (guard_step sys_methods) ls (guarded_new New_system) = Some w"
  shows "fst (history sys_atomic (map (fst \<circ> snd) (call_log w)) New_system) = map (snd \<circ> snd) (call_log w) \<and>
    (\<not> writing w \<longrightarrow> object w = snd (history sys_atomic (map (fst \<circ> snd) (call_log w)) New_system))"
  using guarded_system.answered_one_at_a_time [OF _ assms] by (simp add: one_at_a_time_def)

definition two_callers :: "nat sys_method guard_label list" where
  "two_callers =
     [UserCalls 0 (MRegister ''a'' (Some \<lparr>ref_type = 1, ref_actor = 5\<rparr>) \<lparr>ref_type = 1, ref_actor = 5\<rparr>),
      UserCalls 1 (MSend ''a'' (ExecutableOf 1 9)), Goes 0, Goes 0, Goes 0, Goes 1, Goes 0, Goes 0, Goes 0]"

lemmas lock_run_defs = guard_defs at_defs guarded_new_def New_system_def stop_item_def replicate_numeral

theorem system_calls_are_atomic_witness:
  "\<exists>w. runs (guard_step sys_methods) (two_callers @ [Goes 0, Goes 0, Goes 0, Goes 1, Goes 1, Goes 1, Goes 1]) (guarded_new New_system) = Some w \<and>
     map (snd \<circ> snd) (call_log w) = [Answer (AnsErr None), Answer (AnsSend (Inr \<lparr>ref_type = 1, ref_actor = 5\<rparr>))] \<and>
     fst (history sys_atomic (map (fst \<circ> snd) (call_log w)) New_system) = map (snd \<circ> snd) (call_log w)"
proof -
  have "map_option (\<lambda>w. map (snd \<circ> snd) (call_log w))
      (runs (guard_step sys_methods) (two_callers @ [Goes 0, Goes 0, Goes 0, Goes 1, Goes 1, Goes 1, Goes 1]) (guarded_new New_system)) =
    Some [Answer (AnsErr None), Answer (AnsSend (Inr \<lparr>ref_type = 1, ref_actor = 5\<rparr>))]"
    by (simp add: two_callers_def lock_run_defs)
  then obtain w where w: "runs (guard_step sys_methods) (two_callers @ [Goes 0, Goes 0, Goes 0, Goes 1, Goes 1, Goes 1, Goes 1])
      (guarded_new New_system) = Some w"
    "map (snd \<circ> snd) (call_log w) = [Answer (AnsErr None), Answer (AnsSend (Inr \<lparr>ref_type = 1, ref_actor = 5\<rparr>))]"
    by auto
  show ?thesis
    by (intro exI [of _ w] conjI w conjunct1 [OF system_calls_are_atomic [OF w(1)]])
qed

text \<open>
  C11: Code that re-enters the system cannot deadlock on its lock: in every reachable state a goroutine
  that has called Lock or RLock, from its own code or from a dispatch closure, a Stop or an event
  handler, can get it by steps of goroutines that are themselves between Lock and Unlock; no user code
  has to return first.
\<close>

theorem system_reentry_no_deadlock:
  assumes "runs (guard_step sys_methods) ls (guarded_new New_system) = Some w"
    "stages w i = Asks m \<or> stages w i = Waits m"
  shows "\<exists>ks t. runs (guard_step sys_methods) ks w = Some t \<and> list_all (\<lambda>l. \<exists>j. l = Goes j \<and> stages w j \<noteq> Away) ks \<and>
    stages t i = Inside m (sys_entry m)"
proof -
  have "lock_ok (mode_of sys_methods) w"
    using lock_machine.runs_keeps [OF guarded_new_lock_ok _ assms(1)] by (simp add: list_all_iff)
  from guarded_system.lock_can_be_had [OF this assms(2)] show ?thesis
    by simp
qed

theorem system_reentry_no_deadlock_witness:
  "\<exists>w ks t. runs (guard_step sys_methods) two_callers (guarded_new New_system) = Some w \<and>
     guard_step sys_methods (Goes 1) w = None \<and> runs (guard_step sys_methods) ks w = Some t \<and>
     stages t 1 = Inside (MSend ''a'' (ExecutableOf 1 9)) AtStopped"
proof -
  have "map_option (\<lambda>w. (stages w 1, guard_step sys_methods (Goes 1) w = None))
      (runs (guard_step sys_methods) two_callers (guarded_new New_system)) =
    Some (Asks (MSend ''a'' (ExecutableOf 1 9)), True)"
    by (simp add: two_callers_def lock_run_defs)
  then obtain w where w: "runs (guard_step sys_methods) two_callers (guarded_new New_system) = Some w"
    "stages w 1 = Asks (MSend ''a'' (ExecutableOf 1 9))" "guard_step sys_methods (Goes 1) w = None"
    by auto
  from system_reentry_no_deadlock [OF w(1) disjI1 [OF w(2)]] obtain ks t where
    t: "runs (guard_step sys_methods) ks w = Some t" "stages t 1 = Inside (MSend ''a'' (ExecutableOf 1 9)) AtStopped"
    by auto
  show ?thesis
    by (intro exI [of _ w] exI [of _ ks] exI [of _ t] conjI w t)
qed

text \<open>
  C12: Once StopAll has released the lock, before it has stopped a single actor, every Register, Send, Get,
  Unregister and StopAll that gets the lock later, on any goroutine, in an event handler or in the Stop of an
  actor that StopAll is calling, answers ErrSystemStopped. Count, which has no error to return, answers 0;
  OnEvent still adds its handler, and the emission of an event still copies the handlers.
\<close>

theorem stop_all_refuses_at_once:
  assumes "runs (guard_step sys_methods) ls (guarded_new New_system) = Some w"
    "call_log w = xs @ (i, MStopAll timeout, Answer (AnsStops (Inr es))) # ys"
  shows "list_all (\<lambda>(j, m, a). closed_answer m a) ys"
proof -
  let ?ms = "map (fst \<circ> snd)" and ?as = "map (snd \<circ> snd)"
  obtain s where s: "history sys_atomic (?ms xs) New_system = (?as xs, s)"
    and rest: "fst (history sys_atomic (MStopAll timeout # ?ms ys) s) = Answer (AnsStops (Inr es)) # ?as ys"
    using guarded_system.answered_one_at_a_time [OF _ assms(1)] assms(2) length_history [of sys_atomic "?ms xs" New_system]
    by (cases "history sys_atomic (?ms xs) New_system") (auto simp: one_at_a_time_def history_append case_prod_beta)
  define t where "t = snd (stop_begin s)"
  have "stop_begin s = (Inr es, t)" "fst (history sys_atomic (?ms ys) t) = ?as ys"
    using rest by (auto simp: t_def case_prod_beta prod_eq_iff)
  with history_closed [OF stop_begin_closes, of s es t "?ms ys"] show ?thesis
    by (auto simp: list_all2_map1 list_all2_map2 list_all_iff list_all2_same)
qed

text \<open>StopAll with an event handler that asks the system for the actor, before the actor is stopped.\<close>

definition get_in_handler :: "nat sys_method guard_label list" where
  "get_in_handler =
     UserCalls 0 (MOnEvent 7) # replicate 6 (Goes 0) @
     UserCalls 0 (MRegister ''a'' (Some \<lparr>ref_type = 1, ref_actor = 5\<rparr>) \<lparr>ref_type = 1, ref_actor = 5\<rparr>) # replicate 10 (Goes 0) @
     UserCalls 0 (MStopAll 9) # replicate 14 (Goes 0) @
     UserCalls 0 (MGet ''a'') # replicate 4 (Goes 0)"

theorem stop_all_refuses_at_once_witness:
  "\<exists>w ys. runs (guard_step sys_methods) get_in_handler (guarded_new New_system) = Some w \<and>
     drop 2 (call_log w) = (0, MStopAll 9, Answer (AnsStops (Inr [(''a'', \<lparr>ref_type = 1, ref_actor = 5\<rparr>)]))) # ys \<and>
     (0, MGet ''a'', Answer (AnsRef (Inl (SystemErr ErrSystemStopped)))) \<in> set ys \<and>
     list_all (\<lambda>(j, m, a). closed_answer m a) ys \<and>
     UserCode (StopManaged \<lparr>ref_type = 1, ref_actor = 5\<rparr> 9) \<in> set (concat (stacks w 0))"
proof -
  let ?r = "\<lparr>ref_type = 1, ref_actor = 5\<rparr>" and ?ev = "\<lparr>Kind = EventSystemStopping, ActorName = []\<rparr>"
  let ?xs = "[(0, MOnEvent 7, Answer (AnsErr None)), (0, MRegister ''a'' (Some ?r) ?r, Answer (AnsErr None))]"
  let ?ys = "[(0, MEmit ?ev, CopiedHandlers [(7, ?ev)]), (0, MGet ''a'', Answer (AnsRef (Inl (SystemErr ErrSystemStopped))))]"
  have "map_option (\<lambda>w. (call_log w, UserCode (StopManaged ?r 9) \<in> set (concat (stacks w 0))))
      (runs (guard_step sys_methods) get_in_handler (guarded_new New_system)) =
    Some (?xs @ (0, MStopAll 9, Answer (AnsStops (Inr [(''a'', ?r)]))) # ?ys, True)"
    by (simp add: get_in_handler_def lock_run_defs)
  then obtain w where w: "runs (guard_step sys_methods) get_in_handler (guarded_new New_system) = Some w"
    "call_log w = ?xs @ (0, MStopAll 9, Answer (AnsStops (Inr [(''a'', ?r)]))) # ?ys"
    "UserCode (StopManaged ?r 9) \<in> set (concat (stacks w 0))"
    by auto
  have "drop 2 (call_log w) = (0, MStopAll 9, Answer (AnsStops (Inr [(''a'', ?r)]))) # ?ys"
    by (simp add: w(2))
  moreover have "(0, MGet ''a'', Answer (AnsRef (Inl (SystemErr ErrSystemStopped)))) \<in> set ?ys"
    by simp
  ultimately show ?thesis
    by (intro exI [of _ w] exI [of _ ?ys] conjI w(1,3) stop_all_refuses_at_once [OF w(1,2)])
qed

end
