(* ===== verification/Supervisor_Locks.thy ===== *)
theory Supervisor_Locks
  imports Locks Supervisor
begin

text \<open>
  \<open>Supervisor\<close> with its \<open>sync.Mutex\<close> (\<open>pkg/supervision/supervisor.go\<close>): every critical section as its
  reads and writes, one by one, among them the trimming loop of the restart budget. The
  operations of \<open>Supervisor\<close> are what they amount to. Which section a goroutine enters next is not
  restricted; \<open>Supervisor_Monitor\<close> has the control flow.
\<close>

section \<open>The sections\<close>

text \<open>
  A section is known by its method, or by the place in it: \<open>SReadRef\<close> reads \<open>c.ref\<close> (monitor,
  StopAll), \<open>SIsStale\<close> is the check of monitor, \<open>STerminated\<close> and \<open>SDecide\<close> are the two of
  handleTermination, \<open>SBump\<close> is that of restartAll's loop, \<open>SNotify\<close> the copy of notifyRestartError.
\<close>

datatype sup_method =
    SWatch nat
  | SOnRestartError nat
  | SNotify string gerror
  | SAdd string "nat option"
  | SStartAll
  | SSetRef nat nat
  | SReadRef nat
  | SIsStale nat "64 word"
  | STerminated nat
  | SDecide int
  | SRestartAll
  | SBump nat
  | SStopAll
  | SChildren
  | SChildState string

datatype sup_user = WatchCall nat string | RestartErrorCall nat string gerror

text \<open>Where a state is asked for, the answer is the reference whose State is called, if any.\<close>

datatype sup_ret =
    RetErr "gerror option"
  | RetCallbacks "nat list"
  | RetChildren "gerror + nat list"
  | RetVersion "64 word"
  | RetRef "nat option"
  | RetStale bool
  | RetTerminated string "nat option" "nat list"
  | RetStrategy "strategy option"
  | RetNames "string list"
  | RetStateOf "gerror + nat option"

datatype sup_point =
    OnEntry
  | OnName
  | OnExists
  | OnAppend
  | OnIndex nat
  | OnVersion
  | OnReturn "64 word"
  | OnRef
  | OnBudget
  | OnTrim nat
  | OnCompare
  | OnStrategy
  | OnCopy
  | OnNames nat "string list"

type_synonym sup_action = "supervisor \<Rightarrow> (sup_point + sup_ret) \<times> supervisor"

abbreviation returns :: "sup_ret \<Rightarrow> sup_action" where
  "returns a s \<equiv> (Inr a, s)"

text \<open>The first action: an assignment or copy of one statement, or the test of \<open>stopped\<close>.\<close>

definition on_entry :: "sup_method \<Rightarrow> sup_action" where
  "on_entry m s =
     (case m of
        SWatch cb \<Rightarrow> (Inr (RetErr None), s\<lparr>watchers := watchers s @ [cb]\<rparr>)
      | SOnRestartError cb \<Rightarrow> (Inr (RetErr None), s\<lparr>restartErrorHandlers := restartErrorHandlers s @ [cb]\<rparr>)
      | SNotify nm e \<Rightarrow> returns (RetCallbacks (restartErrorHandlers s)) s
      | SAdd nm sp \<Rightarrow> if sup_stopped s then returns (RetErr (Some (SupErr ErrSupervisorStopped))) s else (Inl OnName, s)
      | SStartAll \<Rightarrow> if sup_stopped s then returns (RetChildren (Inl (SupErr ErrSupervisorStopped))) s else (Inl OnCopy, s)
      | SSetRef c r \<Rightarrow> (Inl OnVersion, s\<lparr>children := (children s)[c := (children s ! c)\<lparr>c_ref := Some r\<rparr>]\<rparr>)
      | SReadRef c \<Rightarrow> returns (RetRef (c_ref (children s ! c))) s
      | SIsStale c v \<Rightarrow> returns (RetStale (version (children s ! c) \<noteq> v)) s
      | STerminated c \<Rightarrow> returns (RetTerminated (c_name (children s ! c)) (c_ref (children s ! c)) (watchers s)) s
      | SDecide now \<Rightarrow> if sup_stopped s then returns (RetStrategy None) s else (Inl OnBudget, s)
      | SRestartAll \<Rightarrow> returns (RetChildren (Inr [0..<length (children s)])) s
      | SBump c \<Rightarrow> (Inl OnRef, s\<lparr>children := (children s)[c := (children s ! c)\<lparr>version := version (children s ! c) + 1\<rparr>]\<rparr>)
      | SStopAll \<Rightarrow>
          if sup_stopped s then returns (RetChildren (Inl (SupErr ErrSupervisorStopped))) s
          else (Inl OnCopy, s\<lparr>sup_stopped := True\<rparr>)
      | SChildren \<Rightarrow> (Inl (OnNames 0 []), s)
      | SChildState nm \<Rightarrow>
          (case map_of (names s) nm of
             None \<Rightarrow> returns (RetStateOf (Inl (SupErr ErrChildNotFound))) s
           | Some i \<Rightarrow> returns (RetStateOf (Inr (c_ref (children s ! i)))) s))"

definition on_name :: "sup_method \<Rightarrow> sup_action" where
  "on_name m s =
     (case m of
        SAdd nm sp \<Rightarrow>
          (if nm = [] then returns (RetErr (Some (SupErr ErrChildNameEmpty))) s
           else if sp = None then returns (RetErr (Some (SupErr ErrNilChildSpec))) s
           else (Inl OnExists, s))
      | _ \<Rightarrow> returns (RetErr None) s)"

definition on_exists :: "sup_method \<Rightarrow> sup_action" where
  "on_exists m s =
     (case m of
        SAdd nm sp \<Rightarrow>
          (case map_of (names s) nm of
             Some i \<Rightarrow> returns (RetErr (Some (SupErr ErrChildNameDuplicate))) s
           | None \<Rightarrow> (Inl OnAppend, s))
      | _ \<Rightarrow> returns (RetErr None) s)"

definition on_append :: "sup_method \<Rightarrow> sup_action" where
  "on_append m s =
     (case m of
        SAdd nm (Some x) \<Rightarrow>
          (Inl (OnIndex (length (children s))),
           s\<lparr>children := children s @ [\<lparr>c_name = nm, c_spec = x, c_ref = None, version = 0\<rparr>]\<rparr>)
      | _ \<Rightarrow> returns (RetErr None) s)"

definition on_index :: "sup_method \<Rightarrow> nat \<Rightarrow> sup_action" where
  "on_index m idx s =
     (case m of
        SAdd nm sp \<Rightarrow> (Inr (RetErr None), s\<lparr>names := AList.update nm idx (names s)\<rparr>)
      | _ \<Rightarrow> returns (RetErr None) s)"

text \<open>startChild: \<open>c.version++\<close> and its value, which is returned; restartAll: \<open>ref := c.ref\<close>.\<close>

definition on_version :: "sup_method \<Rightarrow> sup_action" where
  "on_version m s =
     (case m of
        SSetRef c r \<Rightarrow>
          (Inl (OnReturn (version (children s ! c) + 1)),
           s\<lparr>children := (children s)[c := (children s ! c)\<lparr>version := version (children s ! c) + 1\<rparr>]\<rparr>)
      | _ \<Rightarrow> returns (RetErr None) s)"

definition on_ref :: "sup_method \<Rightarrow> sup_action" where
  "on_ref m s =
     (case m of SBump c \<Rightarrow> returns (RetRef (c_ref (children s ! c))) s | _ \<Rightarrow> returns (RetErr None) s)"

text \<open>The restart budget of handleTermination.\<close>

definition on_budget :: "sup_method \<Rightarrow> sup_action" where
  "on_budget m s =
     (case m of
        SDecide now \<Rightarrow>
          (if MaxRestarts (policy s) > 0 then (Inl (OnTrim 0), s\<lparr>restarts := restarts s @ [now]\<rparr>)
           else (Inl OnStrategy, s))
      | _ \<Rightarrow> returns (RetErr None) s)"

definition on_trim :: "sup_method \<Rightarrow> nat \<Rightarrow> sup_action" where
  "on_trim m k s =
     (case m of
        SDecide now \<Rightarrow>
          (if k < length (restarts s) \<and> restarts s ! k < now - WithinDuration (policy s) then (Inl (OnTrim (k + 1)), s)
           else (Inl OnCompare, s\<lparr>restarts := drop k (restarts s)\<rparr>))
      | _ \<Rightarrow> returns (RetErr None) s)"

definition on_compare :: sup_action where
  "on_compare s =
     (if int (length (restarts s)) > MaxRestarts (policy s) then returns (RetStrategy None) s else (Inl OnStrategy, s))"

definition on_strategy :: sup_action where
  "on_strategy s = returns (RetStrategy (Some (Strategy (policy s)))) s"

text \<open>The copies of StartAll and StopAll (whose loop runs from the end), and the loop of Children.\<close>

definition on_copy :: "sup_method \<Rightarrow> sup_action" where
  "on_copy m s =
     (case m of
        SStopAll \<Rightarrow> returns (RetChildren (Inr (rev [0..<length (children s)]))) s
      | _ \<Rightarrow> returns (RetChildren (Inr [0..<length (children s)])) s)"

definition on_names :: "nat \<Rightarrow> string list \<Rightarrow> sup_action" where
  "on_names i ns s =
     (if i < length (children s) then (Inl (OnNames (i + 1) (ns @ [c_name (children s ! i)])), s)
      else returns (RetNames ns) s)"

fun sup_section :: "sup_method \<Rightarrow> sup_point \<Rightarrow> sup_action" where
  "sup_section m OnEntry s = on_entry m s"
| "sup_section m OnName s = on_name m s"
| "sup_section m OnExists s = on_exists m s"
| "sup_section m OnAppend s = on_append m s"
| "sup_section m (OnIndex i) s = on_index m i s"
| "sup_section m OnVersion s = on_version m s"
| "sup_section m (OnReturn v) s = returns (RetVersion v) s"
| "sup_section m OnRef s = on_ref m s"
| "sup_section m OnBudget s = on_budget m s"
| "sup_section m (OnTrim k) s = on_trim m k s"
| "sup_section m OnCompare s = on_compare s"
| "sup_section m OnStrategy s = on_strategy s"
| "sup_section m OnCopy s = on_copy m s"
| "sup_section m (OnNames i ns) s = on_names i ns s"

lemmas on_defs = on_entry_def on_name_def on_exists_def on_append_def on_index_def on_version_def on_ref_def
  on_budget_def on_trim_def on_compare_def on_strategy_def on_copy_def on_names_def

text \<open>The callbacks called after the Unlock.\<close>

fun sup_after :: "sup_method \<Rightarrow> sup_ret \<Rightarrow> (sup_method, sup_user) item list" where
  "sup_after (SNotify nm e) (RetCallbacks hs) = map (\<lambda>h. UserCode (RestartErrorCall h nm e)) hs"
| "sup_after (STerminated c) (RetTerminated nm r ws) = map (\<lambda>cb. UserCode (WatchCall cb nm)) ws"
| "sup_after m a = []"

definition sup_methods :: "(sup_method, sup_point, sup_ret, sup_user, supervisor) methods" where
  "sup_methods = \<lparr>mode_of = (\<lambda>_. Exclusive), entry_of = (\<lambda>_. OnEntry), section_of = sup_section, after_of = sup_after\<rparr>"

lemma sup_methods_sel [simp]:
  "mode_of sup_methods = (\<lambda>_. Exclusive)" "entry_of sup_methods = (\<lambda>_. OnEntry)" "section_of sup_methods = sup_section"
  "after_of sup_methods = sup_after"
  by (simp_all add: sup_methods_def)

section \<open>What the sections amount to\<close>

fun sup_atomic :: "sup_method \<Rightarrow> supervisor \<Rightarrow> sup_ret \<times> supervisor" where
  "sup_atomic (SWatch cb) s = (RetErr None, Watch cb s)"
| "sup_atomic (SOnRestartError cb) s = (RetErr None, OnRestartError cb s)"
| "sup_atomic (SNotify nm e) s = (RetCallbacks (restartErrorHandlers s), s)"
| "sup_atomic (SAdd nm sp) s = apfst RetErr (Add nm sp s)"
| "sup_atomic SStartAll s =
     (RetChildren (if sup_stopped s then Inl (SupErr ErrSupervisorStopped) else Inr [0..<length (children s)]), s)"
| "sup_atomic (SSetRef c r) s = apfst RetVersion (set_ref c r s)"
| "sup_atomic (SReadRef c) s = (RetRef (c_ref (children s ! c)), s)"
| "sup_atomic (SIsStale c v) s = (RetStale (version (children s ! c) \<noteq> v), s)"
| "sup_atomic (STerminated c) s =
     (RetTerminated (c_name (children s ! c)) (c_ref (children s ! c)) (watchers s), s)"
| "sup_atomic (SDecide now) s = apfst RetStrategy (decide now s)"
| "sup_atomic SRestartAll s = (RetChildren (Inr [0..<length (children s)]), s)"
| "sup_atomic (SBump c) s = apfst RetRef (bump c s)"
| "sup_atomic SStopAll s = apfst RetChildren (sup_stop_begin s)"
| "sup_atomic SChildren s = (RetNames (Children s), s)"
| "sup_atomic (SChildState nm) s =
     (RetStateOf (case map_of (names s) nm of None \<Rightarrow> Inl (SupErr ErrChildNotFound) | Some i \<Rightarrow> Inr (c_ref (children s ! i))), s)"

fun sup_mid :: "sup_method \<Rightarrow> supervisor \<Rightarrow> sup_point \<Rightarrow> supervisor \<Rightarrow> bool" where
  "sup_mid m s OnEntry t \<longleftrightarrow> t = s"
| "sup_mid m s OnName t \<longleftrightarrow> t = s \<and> \<not> sup_stopped s \<and> (\<exists>nm sp. m = SAdd nm sp)"
| "sup_mid m s OnExists t \<longleftrightarrow> t = s \<and> \<not> sup_stopped s \<and> (\<exists>nm x. m = SAdd nm (Some x) \<and> nm \<noteq> [])"
| "sup_mid m s OnAppend t \<longleftrightarrow> t = s \<and> \<not> sup_stopped s \<and>
     (\<exists>nm x. m = SAdd nm (Some x) \<and> nm \<noteq> [] \<and> map_of (names s) nm = None)"
| "sup_mid m s (OnIndex i) t \<longleftrightarrow> \<not> sup_stopped s \<and> i = length (children s) \<and>
     (\<exists>nm x. m = SAdd nm (Some x) \<and> nm \<noteq> [] \<and> map_of (names s) nm = None \<and>
        t = s\<lparr>children := children s @ [\<lparr>c_name = nm, c_spec = x, c_ref = None, version = 0\<rparr>]\<rparr>)"
| "sup_mid m s OnVersion t \<longleftrightarrow>
     (\<exists>c r. m = SSetRef c r \<and> t = s\<lparr>children := (children s)[c := (children s ! c)\<lparr>c_ref := Some r\<rparr>]\<rparr>)"
| "sup_mid m s (OnReturn v) t \<longleftrightarrow> (\<exists>c r. m = SSetRef c r \<and> set_ref c r s = (v, t))"
| "sup_mid m s OnRef t \<longleftrightarrow> (\<exists>c. m = SBump c \<and> t = snd (bump c s))"
| "sup_mid m s OnBudget t \<longleftrightarrow> t = s \<and> \<not> sup_stopped s \<and> (\<exists>now. m = SDecide now)"
| "sup_mid m s (OnTrim k) t \<longleftrightarrow> \<not> sup_stopped s \<and> MaxRestarts (policy s) > 0 \<and>
     (\<exists>now. m = SDecide now \<and> t = s\<lparr>restarts := restarts s @ [now]\<rparr> \<and>
        k \<le> trim_index (now - WithinDuration (policy s)) (restarts s @ [now]))"
| "sup_mid m s OnCompare t \<longleftrightarrow> \<not> sup_stopped s \<and> MaxRestarts (policy s) > 0 \<and>
     (\<exists>now. m = SDecide now \<and> t = s\<lparr>restarts := snd (account (policy s) now (restarts s))\<rparr>)"
| "sup_mid m s OnStrategy t \<longleftrightarrow> \<not> sup_stopped s \<and>
     (\<exists>now rs. m = SDecide now \<and> account (policy s) now (restarts s) = (True, rs) \<and> t = s\<lparr>restarts := rs\<rparr>)"
| "sup_mid m s OnCopy t \<longleftrightarrow> \<not> sup_stopped s \<and> (m = SStartAll \<and> t = s \<or> m = SStopAll \<and> t = s\<lparr>sup_stopped := True\<rparr>)"
| "sup_mid m s (OnNames i ns) t \<longleftrightarrow> t = s \<and> m = SChildren \<and> i \<le> length (children s) \<and> ns = map c_name (take i (children s))"

fun sup_rank :: "sup_method \<Rightarrow> sup_point \<Rightarrow> supervisor \<Rightarrow> nat" where
  "sup_rank m OnEntry s = length (children s) + length (restarts s) + 6"
| "sup_rank m OnName s = 4"
| "sup_rank m OnExists s = 3"
| "sup_rank m OnAppend s = 2"
| "sup_rank m OnVersion s = 2"
| "sup_rank m OnBudget s = length (restarts s) + 5"
| "sup_rank m (OnTrim k) s = length (restarts s) - k + 3"
| "sup_rank m OnCompare s = 2"
| "sup_rank m (OnNames i ns) s = length (children s) - i + 1"
| "sup_rank m _ s = 1"

lemma trim_index_next: "k \<le> trim_index c ts \<Longrightarrow> k < length ts \<and> ts ! k < c \<longleftrightarrow> k < trim_index c ts"
proof (induction ts arbitrary: k)
  case (Cons t ts)
  show ?case
  proof (cases k)
    case (Suc j)
    with Cons.prems Cons.IH [of j] show ?thesis
      by (auto split: if_splits)
  qed simp
qed simp

lemma at_update:
  "f x = f (xs ! c) \<Longrightarrow> f (xs[c := x] ! c) = f (xs ! c)"
  by (cases "c < length xs") (simp_all add: list_update_beyond)

lemma set_ref_steps:
  assumes "t = s\<lparr>children := (children s)[c := (children s ! c)\<lparr>c_ref := Some r\<rparr>]\<rparr>"
  shows "set_ref c r s = (version (children t ! c) + 1,
    t\<lparr>children := (children t)[c := (children t ! c)\<lparr>version := version (children t ! c) + 1\<rparr>]\<rparr>)"
  using assms by (cases "c < length (children s)") (simp_all add: set_ref_def list_update_beyond)

lemma sup_goes_on_trim:
  assumes "sup_mid m s (OnTrim k) t" "on_trim m k t = (Inl q, u)"
  shows "sup_mid m s q u"
proof -
  obtain now where m: "m = SDecide now" and t: "t = s\<lparr>restarts := restarts s @ [now]\<rparr>"
    and k: "k \<le> trim_index (now - WithinDuration (policy s)) (restarts s @ [now])"
    and live: "\<not> sup_stopped s" "MaxRestarts (policy s) > 0"
    using assms(1) by auto
  let ?last = "trim_index (now - WithinDuration (policy s)) (restarts s @ [now])"
  note more = trim_index_next [OF k]
  show ?thesis
  proof (cases "k < ?last")
    case True
    with assms(2) m t more have "q = OnTrim (k + 1)" "u = t"
      by (auto simp: on_trim_def)
    with True m t live show ?thesis
      by simp
  next
    case False
    with assms(2) m t more k have "q = OnCompare" "u = s\<lparr>restarts := drop ?last (restarts s @ [now])\<rparr>"
      by (auto simp: on_trim_def split: if_splits)
    with m live show ?thesis
      by (simp add: account_def Let_def)
  qed
qed

lemma sup_goes_on:
  assumes "sup_mid m s p t" "sup_section m p t = (Inl q, u)"
  shows "sup_mid m s q u"
proof (cases p)
  case OnVersion
  with assms obtain c r where m: "m = SSetRef c r" "t = s\<lparr>children := (children s)[c := (children s ! c)\<lparr>c_ref := Some r\<rparr>]\<rparr>"
    by auto
  with assms(2) OnVersion set_ref_steps [OF m(2)] show ?thesis
    by (auto simp: on_version_def)
next
  case (OnTrim k)
  with assms sup_goes_on_trim show ?thesis
    by simp
next
  case OnCompare
  with assms show ?thesis
    by (auto simp: on_compare_def account_def Let_def split: if_splits)
next
  case OnBudget
  with assms show ?thesis
    by (auto simp: on_budget_def account_def split: if_splits)
next
  case (OnNames i ns)
  with assms show ?thesis
    by (auto simp: on_names_def take_Suc_conv_app_nth split: if_splits)
qed (use assms in \<open>auto simp: on_defs bump_def Let_def split: if_splits option.splits sup_method.splits\<close>)

lemma sup_ends:
  assumes "sup_mid m s p t" "sup_section m p t = (Inr a, u)"
  shows "sup_atomic m s = (a, u)"
proof (cases p)
  case OnEntry
  with assms show ?thesis
    by (cases m) (auto simp: on_entry_def sup_defs split: if_splits option.splits)
next
  case OnCompare
  with assms show ?thesis
    by (auto simp: on_compare_def decide_def account_def Let_def split: if_splits)
next
  case OnRef
  with assms(1) obtain c where m: "m = SBump c" "t = snd (bump c s)"
    by auto
  from assms(2) m(1) OnRef have "a = RetRef (c_ref (children t ! c))" "u = t"
    by (auto simp: on_ref_def)
  with m show ?thesis
    by (simp add: bump_def Let_def at_update [of c_ref])
next
  case OnStrategy
  with assms show ?thesis
    by (auto simp: on_strategy_def decide_def)
qed (use assms in \<open>auto simp: on_defs Add_def sup_stop_begin_def Children_def decide_def
  split: if_splits option.splits sup_method.splits\<close>)

lemma sup_ranked: "sup_section m p t = (Inl q, u) \<Longrightarrow> sup_rank m q u < sup_rank m p t"
  by (cases p) (auto simp: on_defs split: if_splits option.splits sup_method.splits)

interpretation guarded_supervisor: guarded_object sup_methods sup_atomic sup_mid "\<lambda>_. True" sup_rank
  by unfold_locales (simp_all add: sup_goes_on sup_ranked, (rule sup_ends; assumption))

section \<open>Properties\<close>

text \<open>
  C28: The critical sections of a supervisor are atomic: read by read and write by write, in any
  interleaving of monitors, StartAll, StopAll and user calls, they answer as the operations of the
  model do one at a time; and a watcher or restart error handler may call the supervisor, since
  whoever is at its mutex can get it by steps of those at the mutex only.
\<close>

theorem supervisor_sections_are_atomic:
  assumes "runs (guard_step sup_methods) ls (guarded_new (NewSupervisor opts)) = Some w"
  shows "fst (history sup_atomic (map (fst \<circ> snd) (call_log w)) (NewSupervisor opts)) = map (snd \<circ> snd) (call_log w) \<and>
    (\<not> writing w \<longrightarrow> object w = snd (history sup_atomic (map (fst \<circ> snd) (call_log w)) (NewSupervisor opts))) \<and>
    (\<forall>i m. stages w i = Asks m \<or> stages w i = Waits m \<longrightarrow>
       (\<exists>ks t. runs (guard_step sup_methods) ks w = Some t \<and> list_all (\<lambda>l. \<exists>j. l = Goes j \<and> stages w j \<noteq> Away) ks \<and>
          stages t i = Inside m OnEntry))"
proof -
  have "lock_ok (mode_of sup_methods) w"
    using lock_machine.runs_keeps [OF guarded_new_lock_ok _ assms] by (simp add: list_all_iff)
  from guarded_supervisor.lock_can_be_had [OF this] guarded_supervisor.answered_one_at_a_time [OF _ assms]
  show ?thesis
    by (simp add: one_at_a_time_def)
qed

text \<open>Add has run; a monitor is in the trimming loop, and a third goroutine asks for the children.\<close>

definition budget_and_children :: "sup_method guard_label list" where
  "budget_and_children =
     UserCalls 0 (SAdd ''a'' (Some 3)) # replicate 9 (Goes 0) @
     UserCalls 1 (SDecide 5) # replicate 5 (Goes 1) @ [UserCalls 2 SChildren, Goes 2]"

theorem supervisor_sections_are_atomic_witness:
  "\<exists>w ks t. runs (guard_step sup_methods) budget_and_children (guarded_new (NewSupervisor [])) = Some w \<and>
     map (snd \<circ> snd) (call_log w) = [RetErr None] \<and> stages w 1 = Inside (SDecide 5) (OnTrim 0) \<and>
     fst (history sup_atomic (map (fst \<circ> snd) (call_log w)) (NewSupervisor [])) = map (snd \<circ> snd) (call_log w) \<and>
     guard_step sup_methods (Goes 2) w = None \<and> runs (guard_step sup_methods) ks w = Some t \<and> stages t 2 = Inside SChildren OnEntry"
proof -
  have "map_option (\<lambda>w. (map (snd \<circ> snd) (call_log w), stages w 1, stages w 2, guard_step sup_methods (Goes 2) w = None))
      (runs (guard_step sup_methods) budget_and_children (guarded_new (NewSupervisor []))) =
    Some ([RetErr None], Inside (SDecide 5) (OnTrim 0), Asks SChildren, True)"
    by (simp add: budget_and_children_def guard_defs guarded_new_def replicate_numeral on_defs NewSupervisor_def
        DefaultRestartPolicy_def)
  then obtain w where w: "runs (guard_step sup_methods) budget_and_children (guarded_new (NewSupervisor [])) = Some w"
    "map (snd \<circ> snd) (call_log w) = [RetErr None]" "stages w 1 = Inside (SDecide 5) (OnTrim 0)"
    "stages w 2 = Asks SChildren" "guard_step sup_methods (Goes 2) w = None"
    by auto
  note claim = supervisor_sections_are_atomic [OF w(1)]
  obtain ks t where "runs (guard_step sup_methods) ks w = Some t" "stages t 2 = Inside SChildren OnEntry"
    using claim w(4) by blast
  then show ?thesis
    by (intro exI [of _ w] exI [of _ ks] exI [of _ t] conjI w(1-3,5) conjunct1 [OF claim])
qed

end
