(* ===== verification/Deadletter_Locks.thy ===== *)
theory Deadletter_Locks
  imports Locks Deadletter
begin

text \<open>
  The dead letter queue with its mutex (\<open>pkg/deadletter/deadletter.go\<close>): the critical sections
  action by action, and the handlers Publish calls after it has released the mutex, which may use the queue. With a
  positive capacity the concurrent queue is the specification of \<open>Deadletter\<close>; without one Publish can panic
  between Lock and Unlock (\<open>dead_letter_bad_capacity\<close>).
\<close>

section \<open>The sections\<close>

datatype dl_point = DlFirst | DlAppend | DlCopy

datatype dl_user = LetterCall nat letter

text \<open>Publish evicts, appends and copies the handlers; the others are one statement.\<close>

definition dl_first :: "dl_call \<Rightarrow> dl_queue \<Rightarrow> (dl_point + dl_answer) \<times> dl_queue" where
  "dl_first c q =
     (case c of
        CallOn h \<Rightarrow> (Inr (AnsUnit (Returned ())), q\<lparr>handlers := handlers q @ [h]\<rparr>)
      | CallPublish l \<Rightarrow>
          (if int (length (letters q)) \<ge> capacity q
           then
             (case tail_slice (letters q) of
                None \<Rightarrow> (Inr (AnsNotified (CallPanics (PanicError (RuntimeErr SliceBoundsOutOfRange)))), q\<lparr>dl_locked := True\<rparr>)
              | Some ls \<Rightarrow> (Inl DlAppend, q\<lparr>letters := ls\<rparr>))
           else (Inl DlAppend, q))
      | CallLetters \<Rightarrow> (Inr (AnsLetters (Returned (letters q))), q)
      | CallCount \<Rightarrow> (Inr (AnsCount (Returned (length (letters q)))), q)
      | CallClear \<Rightarrow> (Inr (AnsUnit (Returned ())), q\<lparr>letters := []\<rparr>))"

definition dl_append :: "dl_call \<Rightarrow> dl_queue \<Rightarrow> (dl_point + dl_answer) \<times> dl_queue" where
  "dl_append c q =
     (case c of
        CallPublish l \<Rightarrow> (Inl DlCopy, q\<lparr>letters := letters q @ [l]\<rparr>)
      | _ \<Rightarrow> (Inr (AnsUnit (Returned ())), q))"

definition dl_copy :: "dl_call \<Rightarrow> dl_queue \<Rightarrow> (dl_point + dl_answer) \<times> dl_queue" where
  "dl_copy c q =
     (case c of
        CallPublish l \<Rightarrow> (Inr (AnsNotified (Returned (map (\<lambda>h. (h, l)) (handlers q)))), q)
      | _ \<Rightarrow> (Inr (AnsUnit (Returned ())), q))"

fun dl_section :: "dl_call \<Rightarrow> dl_point \<Rightarrow> dl_queue \<Rightarrow> (dl_point + dl_answer) \<times> dl_queue" where
  "dl_section c DlFirst q = dl_first c q"
| "dl_section c DlAppend q = dl_append c q"
| "dl_section c DlCopy q = dl_copy c q"

fun dl_after :: "dl_call \<Rightarrow> dl_answer \<Rightarrow> (dl_call, dl_user) item list" where
  "dl_after (CallPublish l) (AnsNotified (Returned hs)) = map (\<lambda>(h, m). UserCode (LetterCall h m)) hs"
| "dl_after c a = []"

definition dl_methods :: "(dl_call, dl_point, dl_answer, dl_user, dl_queue) methods" where
  "dl_methods = \<lparr>mode_of = (\<lambda>_. Exclusive), entry_of = (\<lambda>_. DlFirst), section_of = dl_section, after_of = dl_after\<rparr>"

lemma dl_methods_sel [simp]:
  "mode_of dl_methods = (\<lambda>_. Exclusive)" "entry_of dl_methods = (\<lambda>_. DlFirst)" "section_of dl_methods = dl_section"
  "after_of dl_methods = dl_after"
  by (simp_all add: dl_methods_def)

section \<open>What the sections amount to\<close>

definition dl_ok :: "dl_queue \<Rightarrow> bool" where
  "dl_ok q \<longleftrightarrow> 0 < capacity q \<and> \<not> dl_locked q"

definition evicted :: "dl_queue \<Rightarrow> dl_queue" where
  "evicted q = q\<lparr>letters := (if int (length (letters q)) \<ge> capacity q then drop 1 (letters q) else letters q)\<rparr>"

fun dl_mid :: "dl_call \<Rightarrow> dl_queue \<Rightarrow> dl_point \<Rightarrow> dl_queue \<Rightarrow> bool" where
  "dl_mid c q DlFirst t \<longleftrightarrow> dl_ok q \<and> t = q"
| "dl_mid c q DlAppend t \<longleftrightarrow> dl_ok q \<and> (\<exists>l. c = CallPublish l) \<and> t = evicted q"
| "dl_mid c q DlCopy t \<longleftrightarrow> dl_ok q \<and> (\<exists>l. c = CallPublish l \<and> t = (evicted q)\<lparr>letters := letters (evicted q) @ [l]\<rparr>)"

fun dl_rank :: "dl_call \<Rightarrow> dl_point \<Rightarrow> dl_queue \<Rightarrow> nat" where
  "dl_rank c DlFirst q = 2"
| "dl_rank c DlAppend q = 1"
| "dl_rank c DlCopy q = 0"

lemmas dl_section_defs = dl_first_def dl_append_def dl_copy_def dl_ok_def evicted_def dl_defs

lemma dl_goes_on: "dl_mid c q p t \<Longrightarrow> dl_section c p t = (Inl r, u) \<Longrightarrow> dl_mid c q r u"
  by (cases p; cases c) (auto simp: dl_section_defs split: if_splits)

lemma dl_ends: "dl_mid c q p t \<Longrightarrow> dl_section c p t = (Inr a, u) \<Longrightarrow> dl_do c q = (a, u)"
  by (cases p; cases c) (auto simp: dl_section_defs split: if_splits)

lemma dl_stays_ok: "dl_ok q \<Longrightarrow> dl_ok (snd (dl_do c q))"
  by (cases c) (auto simp: dl_section_defs split: if_splits option.splits)

lemma dl_ranked: "dl_section c p t = (Inl r, u) \<Longrightarrow> dl_rank c r u < dl_rank c p t"
  by (cases p; cases c) (auto simp: dl_section_defs split: if_splits option.splits)

interpretation guarded_queue: guarded_object dl_methods dl_do dl_mid dl_ok dl_rank
  by unfold_locales (simp_all add: dl_goes_on dl_stays_ok dl_ranked, (rule dl_ends; assumption))

section \<open>Properties\<close>

text \<open>
  C31: A dead letter queue with a positive capacity (the last WithCapacity, or 1000) serves any number
  of goroutines, and handlers that publish again, as the specification does one call after the
  other: Letters gives the latest letters published since the last Clear, oldest first, as many as the capacity
  allows, and each Publish notifies all handlers registered before it; and whoever is at the mutex
  can get it by steps of those at the mutex only.
\<close>

theorem concurrent_dead_letters_refine_spec:
  assumes "0 < last (1000 # ns)" "New_queue (map WithCapacity ns) = Returned q"
    "runs (guard_step dl_methods) ls (guarded_new q) = Some w"
  shows "map (snd \<circ> snd) (call_log w) =
      fst (history (spec_do (nat (last (1000 # ns)))) (map (fst \<circ> snd) (call_log w)) ([], [])) \<and>
    (\<forall>i c. stages w i = Asks c \<or> stages w i = Waits c \<longrightarrow>
       (\<exists>ks t. runs (guard_step dl_methods) ks w = Some t \<and> list_all (\<lambda>l. \<exists>j. l = Goes j \<and> stages w j \<noteq> Away) ks \<and>
          stages t i = Inside c DlFirst))"
proof -
  define n where "n = nat (last (1000 # ns))"
  have n: "0 < n"
    using assms(1) by (simp add: n_def)
  have q: "q = dl_rep n ([], [])"
    using assms(1,2) by (auto simp: n_def New_queue_capacity Let_def dl_rep_def last_n_def split: if_splits)
  with n have "dl_ok q"
    by (simp add: dl_ok_def dl_rep_def)
  then have "fst (history dl_do (map (fst \<circ> snd) (call_log w)) q) = map (snd \<circ> snd) (call_log w)"
    using guarded_queue.answered_one_at_a_time [OF _ assms(3)] by (simp add: one_at_a_time_def)
  moreover have "fst (history dl_do cs q) = fst (history (spec_do n) cs ([], []))" for cs
    using dl_refinement.same_answers [of n q] n q by simp
  moreover have "lock_ok (mode_of dl_methods) w"
    using lock_machine.runs_keeps [OF guarded_new_lock_ok _ assms(3)] by (simp add: list_all_iff)
  ultimately show ?thesis
    using guarded_queue.lock_can_be_had [of w] by (simp add: n_def)
qed

text \<open>Two goroutines publish; the handler of the first publishes once more before the second gets the mutex.\<close>

definition publish_in_handler :: "dl_call guard_label list" where
  "publish_in_handler =
     UserCalls 0 (CallOn 7) # replicate 6 (Goes 0) @
     UserCalls 0 (CallPublish \<lparr>Target = ''w'', Reason = ''a''\<rparr>) # replicate 7 (Goes 0) @
     UserCalls 0 (CallPublish \<lparr>Target = ''w'', Reason = ''b''\<rparr>) # replicate 3 (Goes 0) @
     [UserCalls 1 CallLetters, Goes 1]"

theorem concurrent_dead_letters_refine_spec_witness:
  "\<exists>w ks t. runs (guard_step dl_methods) publish_in_handler
       (guarded_new \<lparr>dl_locked = False, letters = [], capacity = 1, handlers = []\<rparr>) = Some w \<and>
     map (snd \<circ> snd) (call_log w) = [AnsUnit (Returned ()), AnsNotified (Returned [(7, \<lparr>Target = ''w'', Reason = ''a''\<rparr>)])] \<and>
     map (snd \<circ> snd) (call_log w) = fst (history (spec_do 1) (map (fst \<circ> snd) (call_log w)) ([], [])) \<and>
     guard_step dl_methods (Goes 1) w = None \<and> runs (guard_step dl_methods) ks w = Some t \<and> stages t 1 = Inside CallLetters DlFirst"
proof -
  let ?q = "\<lparr>dl_locked = False, letters = [], capacity = 1, handlers = []\<rparr>"
  let ?as = "[AnsUnit (Returned ()), AnsNotified (Returned [(7, \<lparr>Target = ''w'', Reason = ''a''\<rparr>)])]"
  have new: "New_queue (map WithCapacity [1]) = Returned ?q"
    unfolding New_queue_capacity by simp
  have "map_option (\<lambda>w. (map (snd \<circ> snd) (call_log w), stages w 1, guard_step dl_methods (Goes 1) w = None))
      (runs (guard_step dl_methods) publish_in_handler (guarded_new ?q)) = Some (?as, Asks CallLetters, True)"
    by (simp add: publish_in_handler_def guard_defs guarded_new_def replicate_numeral dl_section_defs)
  then obtain w where w: "runs (guard_step dl_methods) publish_in_handler (guarded_new ?q) = Some w"
    "map (snd \<circ> snd) (call_log w) = ?as" "stages w 1 = Asks CallLetters" "guard_step dl_methods (Goes 1) w = None"
    by auto
  have claim: "map (snd \<circ> snd) (call_log w) = fst (history (spec_do 1) (map (fst \<circ> snd) (call_log w)) ([], []))"
    "\<forall>i c. stages w i = Asks c \<or> stages w i = Waits c \<longrightarrow>
       (\<exists>ks t. runs (guard_step dl_methods) ks w = Some t \<and> list_all (\<lambda>l. \<exists>j. l = Goes j \<and> stages w j \<noteq> Away) ks \<and>
          stages t i = Inside c DlFirst)"
    using concurrent_dead_letters_refine_spec [OF _ new w(1)] by simp_all
  obtain ks t where "runs (guard_step dl_methods) ks w = Some t" "stages t 1 = Inside CallLetters DlFirst"
    using claim(2) w(3) by blast
  then show ?thesis
    by (intro exI [of _ w] exI [of _ ks] exI [of _ t] conjI w claim(1))
qed

end
