(* ===== verification/Mailbox_Wakeup.thy ===== *)
theory Mailbox_Wakeup
  imports Mailbox
begin

text \<open>
  Producers and consumers of a priority mailbox (\<open>pkg/mailbox/priority.go\<close>): the channel of Notify holds
  one signal at most, and Push drops its signal when one is pending. Which consumers never sleep
  on a mailbox with messages, and which may.
\<close>

section \<open>Consumers\<close>

text \<open>
  Whether some consumer is awake: it has received a signal and since then no Pop has found the mailbox empty.
\<close>

fun awake :: "bool \<Rightarrow> ('m mb_call \<times> 'm mb_answer) list \<Rightarrow> bool" where
  "awake d [] = d"
| "awake d ((MTryWait, MBool True) # cs) = awake True cs"
| "awake d ((MPop, MMsg None) # cs) = awake False cs"
| "awake d (c # cs) = awake d cs"

definition attended :: "bool \<Rightarrow> 'm mb_spec \<Rightarrow> bool" where
  "attended d s \<longleftrightarrow> waiting s = [] \<or> signalled s \<or> d"

lemma attended_step:
  fixes c :: "'m mb_call"
  assumes "attended d s" "mb_spec_do n c s = (a, t)"
  shows "attended (awake d [(c, a)]) t"
proof (cases c)
  case MPop
  with assms show ?thesis
    using take_best_None [of "[] :: ('m \<times> int) list"] take_best_None [of "waiting s"] by (cases "take_best (waiting s)") (auto simp: attended_def)
next
  case MTryWait
  with assms show ?thesis
    by (cases "signalled s") (auto simp: attended_def)
qed (use assms in \<open>auto simp: attended_def split: if_splits\<close>)

lemma awake_append: "awake d (cs @ ds) = awake (awake d cs) ds"
  by (induction d cs rule: awake.induct) simp_all

lemma attended_history:
  "attended d s \<Longrightarrow> attended (awake d (zip cs (fst (history (mb_spec_do n) cs s)))) (snd (history (mb_spec_do n) cs s))"
proof (induction cs arbitrary: d s)
  case (Cons c cs)
  obtain a t where step: "mb_spec_do n c s = (a, t)"
    by (cases "mb_spec_do n c s")
  let ?xs = "zip cs (fst (history (mb_spec_do n) cs t))"
  have "awake d ((c, a) # ?xs) = awake (awake d [(c, a)]) ?xs"
    using awake_append [of d "[(c, a)]" ?xs] by (simp only: append_Cons append_Nil)
  moreover have "attended (awake (awake d [(c, a)]) ?xs) (snd (history (mb_spec_do n) cs t))"
    by (rule Cons.IH [OF attended_step [OF Cons.prems step]])
  ultimately show ?case
    by (simp add: step)
qed simp

lemma history_final_sim:
  assumes "heap_laws ops msg_less ok elems"
  shows "mb_sim ok elems n k mb s \<Longrightarrow> k + length cs < 2 ^ 64 \<Longrightarrow>
    mb_sim ok elems n (k + length cs) (snd (history (mb_do ops) cs mb)) (snd (history (mb_spec_do n) cs s))"
proof (induction cs arbitrary: k mb s)
  case (Cons c cs)
  from mb_do_sim [OF assms Cons.prems(1), of c] Cons.prems(2)
  have "mb_sim ok elems n (Suc k) (snd (mb_do ops c mb)) (snd (mb_spec_do n c s))"
    by auto
  from Cons.IH [OF this] Cons.prems(2) show ?case
    by (simp add: case_prod_beta)
qed simp

section \<open>Properties\<close>

text \<open>
  C37: No wake-up is lost for consumers that drain: after fewer than 2^64 calls by any number of producers and
  consumers in any order, a mailbox that is not empty has a signal pending on Notify, or some
  consumer has received one and no Pop since then found the mailbox empty. So if every consumer that was
  woken pops until Pop fails before it waits again, none waits while messages do.
\<close>

theorem no_lost_wakeup:
  assumes "heap_laws ops msg_less ok elems" "length cs < 2 ^ 64"
    "history (mb_do ops) cs (NewPriority ops n) = (as, mb)"
  shows "IsEmpty ops mb \<or> chan_recv (Notify mb) \<noteq> RecvBlocks \<or> awake False (zip cs as)"
proof -
  define s where "s = snd (history (mb_spec_do n) cs mb_spec_new)"
  have sim: "mb_sim ok elems n (length cs) mb s"
    using history_final_sim [OF assms(1) new_sim [OF assms(1)], of cs n] assms(2,3) by (simp add: s_def)
  have "as = fst (history (mb_spec_do n) cs mb_spec_new)"
    using history_sim [OF assms(1) new_sim [OF assms(1)], of cs n] assms(2,3) by simp
  then have "attended (awake False (zip cs as)) s"
    using attended_history [of False mb_spec_new cs n] by (simp add: s_def attended_def mb_spec_new_def)
  moreover have "IsEmpty ops mb \<longleftrightarrow> waiting s = []"
    using sim assms(1) by (auto simp: mb_sim_def heap_laws_def IsEmpty_def)
  moreover have "chan_recv (Notify mb) \<noteq> RecvBlocks \<longleftrightarrow> signalled s"
    using sim by (auto simp: mb_sim_def Notify_def chan_recv_def)
  ultimately show ?thesis
    by (auto simp: attended_def)
qed

theorem no_lost_wakeup_witness:
  "\<exists>as mb. history (mb_do list_heap) [MPush ''a'' 2, MPush ''b'' 1, MTryWait, MPop] (NewPriority list_heap 5) = (as, mb) \<and>
     \<not> IsEmpty list_heap mb \<and> chan_recv (Notify mb) = RecvBlocks \<and>
     awake False (zip [MPush ''a'' 2, MPush ''b'' 1, MTryWait, MPop] as)"
proof -
  let ?cs = "[MPush ''a'' 2, MPush ''b'' 1, MTryWait, MPop]"
  obtain as mb where h: "history (mb_do list_heap) ?cs (NewPriority list_heap 5) = (as, mb)"
    by (cases "history (mb_do list_heap) ?cs (NewPriority list_heap 5)")
  have asleep: "\<not> IsEmpty list_heap mb" "chan_recv (Notify mb) = RecvBlocks"
    using h by (auto simp: mailbox_defs chan_defs try_wait_def NewPriority_def list_heap_def msg_less_def)
  have "length ?cs < 2 ^ 64"
    by simp
  from no_lost_wakeup [OF list_heap_laws this h] asleep have "awake False (zip ?cs as)"
    by simp
  with h asleep show ?thesis
    by (intro exI [of _ as] exI [of _ mb] conjI)
qed

text \<open>
  A consumer that takes one message for each signal does not: two messages pushed before it wakes give one
  signal, and it waits again while the second is there.
\<close>

theorem one_message_per_signal_sleeps:
  "\<exists>as mb. history (mb_do list_heap) [MPush ''a'' 2, MPush ''b'' 2, MTryWait, MPop, MTryWait] (NewPriority list_heap 5) = (as, mb) \<and>
     drop 2 as = [MBool True, MMsg (Some ''a''), MBool False] \<and> \<not> IsEmpty list_heap mb"
  by (simp add: mailbox_defs chan_defs try_wait_def NewPriority_def list_heap_def msg_less_def)

end
