(* ===== verification/Actor_Self_Stop.thy ===== *)
theory Actor_Self_Stop
  imports Actor_Safety
begin

text \<open>
  A handler or middleware that stops its own actor (\<open>GoActor.Stop\<close> called from the goroutine of
  \<open>GoActor.Start\<close>): the goroutine closes done only after the handler has returned, which waits for
  done. On the machine of \<open>Actor_Loop\<close> these are the runs in which the handler does not return before the Stop call has.
\<close>

abbreviation stop_timeout_report :: "'e hook_call" where
  "stop_timeout_report \<equiv> OnError (ActorErr ErrActorGracefulStopTimeout)"

definition timeouts :: "('m, 'e) actor_sys \<Rightarrow> nat" where
  "timeouts s = count_list (hook_calls s) stop_timeout_report"

fun still_inside :: "('m, 'e) label \<Rightarrow> bool" where
  "still_inside (LoopReturn i ps p) \<longleftrightarrow> False"
| "still_inside l \<longleftrightarrow> solo l"

fun not_past_wait :: "stop_pc \<Rightarrow> bool" where
  "not_past_wait TAfter \<longleftrightarrow> False"
| "not_past_wait (TRet err) \<longleftrightarrow> err \<noteq> None"
| "not_past_wait pc \<longleftrightarrow> True"

definition self_inv :: "nat \<Rightarrow> nat \<Rightarrow> 'm \<Rightarrow> ('m, 'e) actor_sys \<Rightarrow> bool" where
  "self_inv k n m s \<longleftrightarrow>
     loops s 0 = LRun m \<and> \<not> done_closed s \<and> starts s 0 = SRet None \<and> n \<le> timeouts s \<and>
     (not_past_wait (stops s k) \<or> n < timeouts s)"

lemma self_action: "still_inside l \<Longrightarrow> self_inv k n m s \<Longrightarrow> keeps (self_inv k n m) (action l s)"
  by (cases l; simp add: branch_simps helper_defs self_inv_def timeouts_def split: step_splits; auto)

interpretation self_machine: invariant_machine actor_step still_inside "self_inv k n m" for k n m
  by unfold_locales (auto simp: actor_step_def self_action)

text \<open>
  A Stop that a handler calls on its own actor, and that returns nil to it, has timed out: it reported the
  timeout to OnError, whatever the timeout was and whatever other goroutines did.
\<close>

theorem self_stop_times_out:
  assumes "fresh_actor ga" "list_all solo ls" "runs actor_step ls (sys_of ga) = Some s" "loops s 0 = LRun m" "stops s k = TIdle"
    "list_all still_inside ks" "runs actor_step ks s = Some t" "stops t k = TRet None"
  shows "timeouts s < timeouts t \<and> \<not> done_closed t \<and> loops t 0 = LRun m"
proof -
  have "life_inv s"
    using run_inv [OF assms(1-3)] by (simp add: actor_inv_def)
  with assms(4,5) have "self_inv k (timeouts s) m s"
    by (auto simp: self_inv_def life_inv_def life_ok_def begun_def)
  from self_machine.runs_keeps [OF this assms(6,7)] assms(8) show ?thesis
    by (simp add: self_inv_def)
qed

theorem self_stop_times_out_witness:
  "\<exists>s t. runs actor_step ((boot 7 :: (nat, nat) label list) @ [RecvCall 0 (Some 5), RecvSend 0, LoopTake 0, LoopRun 0]) (sys_of sample_actor) = Some s \<and>
     runs actor_step [StopCAS 0, StopClose 0, StopTimer 0 None, StopAfter 0 HookOk] s = Some t \<and>
     stops t 0 = TRet None \<and> timeouts s < timeouts t \<and> loops t 0 = LRun 5"
proof -
  obtain s t where run: "runs actor_step ((boot 7 :: (nat, nat) label list) @ [RecvCall 0 (Some 5), RecvSend 0, LoopTake 0, LoopRun 0]) (sys_of sample_actor) = Some s"
    "runs actor_step [StopCAS 0, StopClose 0, StopTimer 0 None, StopAfter 0 HookOk] s = Some t"
    "loops s 0 = LRun 5" "stops s 0 = TIdle" "stops t 0 = TRet None"
    unfolding runs_append boot_runs [OF sample_fresh]
    by (simp add: run_simps booted_def sample_actor_def default_actor_def Current_def newBehaviorStack_def make_chan_def)
  have "list_all solo ((boot 7 :: (nat, nat) label list) @ [RecvCall 0 (Some 5), RecvSend 0, LoopTake 0, LoopRun 0])"
    "list_all still_inside ([StopCAS 0, StopClose 0, StopTimer 0 None, StopAfter 0 HookOk] :: (nat, nat) label list)"
    by (simp_all add: boot_solo)
  note ended = self_stop_times_out [OF sample_fresh this(1) run(1,3,4) this(2) run(2,5)]
  show ?thesis
    by (intro exI [of _ s] exI [of _ t] conjI run(1,2,5)) (use ended in simp_all)
qed

end
