(* ===== verification/Spec2Isabelle.thy ===== *)
theory Spec2Isabelle
  imports Command_Agree Command_Readers Middleware Deadletter Mailbox Actor_StartNew Actor_Liveness Actor_Hooks Signal System_Ask System_Spawn Supervised_Actor Supervisor_All Supervisor_Shutdown Supervisor_Budget Actor_Commands Actor_Metrics System_Locks Supervisor_Locks Deadletter_Locks Mailbox_Wakeup Actor_Self_Stop
begin

text \<open>
  A verification development for \<open>go-actorlib\<close>, a Go library of typed actors. An actor owns an
  entity and runs, in one goroutine, the commands other goroutines send it; around it stand
  references, an actor system that knows actors by name, a supervisor that restarts them, a
  priority mailbox, a store of dead letters and a wait for operating system signals.

  \<^bold>\<open>The parts and how they meet.\<close> \<open>command.GoCommand\<close> carries a delegate function and a result
  channel; \<open>ask\<close> sends one through \<open>actorref.Ref\<close> to \<open>GoActor.Receive\<close> and awaits the channel; the
  goroutine of \<open>GoActor.Start\<close> takes it from the buffer and calls the handler on top of the behavior
  stack, which is the middleware chain around \<open>Execute\<close>. \<open>system.ActorSystem\<close> maps names to
  references with a dispatch closure that checks the entity type, and stops its actors in reverse
  order; \<open>supervision.Supervisor\<close> starts children from specs and watches their done channels;
  \<open>signal.AwaitShutdown\<close> calls StopAll of either. The mailbox and the dead letters are used by
  client code only.

  \<^bold>\<open>The theories\<close>, in the order of their imports; a definition has the name of the function or
  type it models, the manifest gives the lines.
  \<^item> \<open>Prelude\<close>: runs of labelled machines (\<open>runs\<close>) and histories of calls (\<open>history\<close>). Locale
    \<open>invariant_machine\<close> lifts a step-wise invariant to runs; \<open>call_refinement\<close> lifts a simulation
    of calls to equal answers. Every machine and every refinement below is an interpretation.
  \<^item> \<open>Go_Runtime\<close>: error values with \<open>errors.Is\<close> and \<open>errors.Join\<close>, panics, channels with close.
  \<^item> \<open>Behavior\<close> (\<open>pkg/actor/behavior.go\<close>, \<open>actorcontext.go\<close>), \<open>Middleware\<close> (\<open>pkg/actor/middleware.go\<close>,
    \<open>pkg/middleware\<close>), \<open>Actor_Config\<close> (\<open>New\<close>, options and accessors of \<open>pkg/actor/goactor.go\<close>).
  \<^item> \<open>Command\<close> (\<open>pkg/command\<close>): \<open>Execute\<close> as one call and, action by action, as \<open>exec_step\<close>; \<open>Command_Agree\<close>
    shows that they agree, \<open>Command_Readers\<close> what others see of a command while it is executed. \<open>Ask\<close> (\<open>pkg/ask\<close>): one caller against the execution of its command.
  \<^item> \<open>Actor_Loop\<close>: Start and its goroutine, Receive, Stop, WaitReady as a machine (\<open>actor_step\<close>);
    \<open>Actor_Safety\<close> has its invariants, \<open>Actor_Liveness\<close> shutdown, progress and what can be left
    behind, \<open>Actor_StartNew\<close> \<open>pkg/actor/startnew.go\<close> on the same machine. \<open>Actor_World\<close> gives the handlers
    their meaning (the chain of \<open>Middleware\<close>, the behaviors user code installs) and shows that the
    machine refines a sequential server; \<open>Actor_Commands\<close> takes commands as messages, through a chain of the
    reference middlewares, \<open>Actor_Metrics\<close> a Metrics middleware. \<open>Actor_Hooks\<close> has the order of the lifecycle hooks,
    \<open>Actor_Self_Stop\<close> a handler that stops its own actor.
  \<^item> \<open>Ask_Actor\<close>: the machine of the actor, the commands in its goroutine and the callers of Ask, composed.
  \<^item> \<open>System\<close> (\<open>pkg/system\<close>, \<open>pkg/actorref\<close>): the registry, refined by a list of registrations;
    \<open>System_Stop\<close>: StopAll as a machine, and Spawn; \<open>System_Ask\<close>: Ask by name over many actors;
    \<open>System_Actors\<close>: StopAll on running actors, whose Stop is that of \<open>Actor_Loop\<close>; \<open>System_Spawn\<close>: Spawn
    calls on the same machine, each with the StartNew of its actor.
  \<^item> \<open>Supervisor\<close> (\<open>pkg/supervision\<close>): what happens under the lock, the restart budget;
    \<open>Supervisor_Monitor\<close>: the goroutines as a machine; \<open>Supervisor_Restart\<close>: its invariants;
    \<open>Supervisor_All\<close>: restartAll run to its end; \<open>Supervisor_Shutdown\<close>: what StopAll leaves;
    \<open>Supervisor_Budget\<close>: the budget over all monitors; \<open>Supervised_Actor\<close>: the machine with its references
    given by actors, so that Done, State and Stop of a child are those of \<open>Actor_Loop\<close>.
  \<^item> \<open>Signal\<close> (\<open>pkg/signal\<close>), with the locale \<open>stoppable\<close> met by system and supervisor; \<open>Deadletter\<close>,
    \<open>Mailbox\<close>: each refined by a specification; \<open>Mailbox_Wakeup\<close>: the signals of Notify and its consumers.
  \<^item> \<open>Locks\<close>: objects with a \<open>sync.RWMutex\<close> or \<open>sync.Mutex\<close>, whose critical sections are sequences of reads and
    writes and which call user code after the Unlock. Its locale \<open>guarded_object\<close> is met by the actor system in
    \<open>System_Locks\<close>, the supervisor in \<open>Supervisor_Locks\<close> and the dead letters in \<open>Deadletter_Locks\<close>: there it is
    proved that the critical sections the other theories take as one step are atomic.

  \<^bold>\<open>How concurrency is modelled.\<close> A machine is a partial function from a label and a state to the next
  state. A step is one atomic action of the source: a load, store or compare-and-swap, a channel
  operation, the choice of a ready case of a select, a critical section under a mutex, or a call of
  user code. The program counters of the goroutines are part of the state. A run is a list of
  labels, so a theorem about all runs is one about all schedules. Where a store is followed by a callback to user
  code the two are one step: OnError after the store of Panicked (\<open>catchPanic\<close>), of StoppedWithError in a Stop that
  times out (\<open>stop_timer\<close>) and of the state for a context that ended (\<open>handleCtxErr\<close>); the watchers after the locked
  read of handleTermination (\<open>terminated\<close>); the failing Start or Stop with the copy and the calls of the restart error
  handlers (\<open>notifyRestartError\<close>). \<open>Supervisor_Locks\<close> has the sections of the last two with the callbacks after the
  Unlock, interleaved with other calls. The labels also carry what is
  not the library's to decide: when a context ends or a timer fires, what a hook, handler or
  child spec does, the current time. A timer may fire at any moment it is armed.

  \<^bold>\<open>What is shown.\<close> Safety over all interleavings: asks on one actor are atomic and in order of
  acceptance, also by name through the system; an actor serves its messages as a sequential server
  does, panics included; an actor started once closes no channel twice; what a command shows its readers only moves forward, and its
  outcome is final; the state of an actor moves only along listed
  edges, and the hooks come in order; under OneForOne a child never has two goroutines alive; restarts stay
  within the budget; calls on an object with a lock are answered as if made one at a time, even when user code
  calls it again; after StopAll no actor of the system that was spawned or started is Started, and a supervisor
  that was starting nothing leaves no child. Progress: the goroutine, an Ask and a failed child's monitor always have a
  next step; a lock can always be had by steps of those at the lock; a mailbox loses no wake-up; shutdown and StopAll take a bounded number of steps. Refinement: registry,
  supervisor, mailbox, dead letters and behavior stack answer as simple lists do. Then the
  function of each sequential part, on all branches, and some behaviours that the code's comments
  do not lead one to expect, each as a run of the machine or a theorem about all of them.

  \<^bold>\<open>Bounds and parameters.\<close> Actor states and versions are \<open>64 word\<close>; the metrics counters are int64
  and \<open>average_duration_bounds\<close> says when they do not overflow; the mailbox's sequence number
  wraps, so its theorems are about fewer than \<open>2 ^ 64\<close> calls. The one definition with fuel is \<open>exec_run\<close> in
  \<open>Command_Agree\<close>, for which eight actions are proved enough; the other bounds are ranks of program counters: ten steps in
  \<open>shutdown_is_bounded\<close>, six in \<open>readers_see_final_outcome\<close>. The heap of
  \<open>go-datalib\<close> is a parameter with the laws \<open>heap_laws\<close>, which a sorted list meets; the logger of
  \<open>go-logslib\<close> is a parameter, without laws but in \<open>Actor_Commands\<close>, where it leaves everything but clock
  and metrics alone (\<open>discreet\<close>). An actor known to a reference is an address and
  its methods a parameter (\<open>actor_api\<close>), except in \<open>System_Ask\<close>, \<open>System_Actors\<close> and \<open>Supervised_Actor\<close>,
  where they are the machine's.

  \<^bold>\<open>Assumptions.\<close> The invariants of the actor are about one Start call on an actor New built;
  \<open>concurrent_starts_crash\<close> shows why. A command is executed once in \<open>Command_Readers\<close>; \<open>second_execute_panics\<close> shows why. In \<open>Ask_Actor\<close> the actor has no middleware and its
  delegates do not change behaviors; in \<open>Actor_World\<close> it has both, and a handler changes its
  \<open>GoActorContext\<close> by the methods only (\<open>by_methods\<close>; its fields are not exported). For
  \<open>recovery_keeps_actor_running\<close> and \<open>actor_metrics_exact\<close> the handlers never use Become, BecomeReplace or Unbecome
  (\<open>no_become\<close>: an installed handler runs outside the chain, without Recovery and Metrics), and for the first
  the lifecycle hooks do not panic (\<open>hooks_return\<close>). In \<open>Actor_Commands\<close> each command is sent
  once. A child spec returns a new reference each time. In \<open>System_Spawn\<close> nothing is unregistered. Those of
  \<open>Supervisor_Restart\<close> and \<open>Supervised_Actor\<close> are about one StartAll, those of \<open>Supervised_Actor\<close> about OneForOne.

  \<^bold>\<open>Not modelled.\<close> Time, except as the labels have it; the reflection test of Start beyond its
  outcomes (\<open>provided\<close>); the text of error messages and log entries; the Go memory model beyond
  atomic actions and locks; hooks of an actor that call its Start or Stop; a ChildRef
  whose State calls its supervisor, which calls it with the mutex held; the fairness of locks, which
  \<open>Locks\<close> leaves open; the package documentation and examples.
\<close>

end
